(* ===== verification/Mars_Prelude.thy ===== *)
theory Mars_Prelude
  imports Main "HOL-Library.Word"
begin

unbundle bit_operations_syntax

text \<open>
  The prelude of the Mars allocator development: the machine types, the byte-addressed memory
  the blocks live in, little-endian loads and stores (what \<^verbatim>\<open>memcpy\<close> to and from a
  \<^verbatim>\<open>uint64_t\<close> or \<^verbatim>\<open>uint32_t\<close> does on the targets the program supports), the
  \<^verbatim>\<open>size_t\<close> subtraction that wraps, and the collections of simplification rules the component
  theories share.

  Addresses and sizes are natural numbers; \<^verbatim>\<open>NULL\<close> is address 0. Every place where the source
  subtracts two \<^verbatim>\<open>size_t\<close> values that are not already known to be ordered is written with
  \<open>sub64\<close>, so that an underflow wraps as it does in C.
\<close>

named_theorems layout_defs \<open>the profile-dependent constants of the block layout\<close>
named_theorems mem_simps \<open>reads over writes of the byte memory\<close>
named_theorems frame_simps \<open>fields of the state an operation does not touch\<close>

section \<open>Machine types\<close>

type_synonym u8 = "8 word"
type_synonym u32 = "32 word"
type_synonym u64 = "64 word"
type_synonym bytes = "nat \<Rightarrow> u8"

definition SIZE_MAX :: nat where
  "SIZE_MAX = 2 ^ 64 - 1"

definition sub64 :: "nat \<Rightarrow> nat \<Rightarrow> nat" where
  "sub64 a b = (if b \<le> a then a - b else a + 2 ^ 64 - b)"

lemma sub64_le [simp]: "b \<le> a \<Longrightarrow> sub64 a b = a - b"
  by (simp add: sub64_def)

lemma sub64_word: "a < 2 ^ 64 \<Longrightarrow> b < 2 ^ 64 \<Longrightarrow> sub64 a b = unat (of_nat a - of_nat b :: u64)"
  by (auto simp: sub64_def unat_sub_if' unat_of_nat take_bit_eq_mod)

section \<open>Little-endian bytes of a word\<close>

definition bytes_of :: "'a::len word \<Rightarrow> u8 list" where
  "bytes_of w = map (\<lambda>i. ucast (drop_bit (8 * i) w)) [0..<LENGTH('a) div 8]"

fun word_of_bytes :: "u8 list \<Rightarrow> 'a::len word" where
  "word_of_bytes [] = 0"
| "word_of_bytes (b # bs) = ucast b OR push_bit 8 (word_of_bytes bs)"

lemma length_bytes_of [simp]: "length (bytes_of (w::'a::len word)) = LENGTH('a) div 8"
  by (simp add: bytes_of_def)

lemma nth_bytes_of:
  "i < LENGTH('a) div 8 \<Longrightarrow> bytes_of (w::'a::len word) ! i = ucast (drop_bit (8 * i) w)"
  by (simp add: bytes_of_def)

lemma bit_word_of_bytes:
  "bit (word_of_bytes bs :: 'a::len word) n \<longleftrightarrow>
     n < LENGTH('a) \<and> n div 8 < length bs \<and> bit (bs ! (n div 8)) (n mod 8)"
proof (induction bs arbitrary: n)
  case Nil
  then show ?case by simp
next
  case (Cons b bs)
  show ?case
  proof (cases "n < 8")
    case True
    then show ?thesis by (auto simp: bit_or_iff bit_push_bit_iff bit_ucast_iff)
  next
    case False
    then have "n div 8 = Suc ((n - 8) div 8)" and "n mod 8 = (n - 8) mod 8"
      by (simp_all add: div_if mod_if)
    moreover have "\<not> bit b n" using False by (auto dest: bit_imp_le_length)
    ultimately show ?thesis
      using False Cons.IH [of "n - 8"]
      by (auto simp: bit_or_iff bit_push_bit_iff bit_ucast_iff)
  qed
qed

lemma word_of_bytes_of [simp]:
  assumes "LENGTH('a) mod 8 = 0"
  shows "word_of_bytes (bytes_of (w::'a::len word)) = w"
proof (rule bit_word_eqI)
  fix n assume n: "n < LENGTH('a)"
  then have "n div 8 < LENGTH('a) div 8" using assms
    by (metis div_mult_mod_eq add.right_neutral less_mult_imp_div_less)
  then show "bit (word_of_bytes (bytes_of w) :: 'a word) n = bit w n"
    using n by (simp add: bit_word_of_bytes nth_bytes_of bit_ucast_iff bit_drop_bit_eq
        mult.commute)
qed

lemma bytes_of_word_of_bytes [simp]:
  assumes "length bs = LENGTH('a) div 8" and "LENGTH('a) mod 8 = 0"
  shows "bytes_of (word_of_bytes bs :: 'a::len word) = bs"
proof (rule nth_equalityI)
  show "length (bytes_of (word_of_bytes bs :: 'a word)) = length bs" using assms by simp
  fix i assume "i < length (bytes_of (word_of_bytes bs :: 'a word))"
  then have i: "i < LENGTH('a) div 8" by simp
  have small: "8 * i + n < LENGTH('a)" if "n < 8" for n
    using i that assms(2) by linarith
  show "bytes_of (word_of_bytes bs :: 'a word) ! i = bs ! i"
  proof (rule bit_word_eqI)
    fix n assume "n < LENGTH(8)"
    then have n: "n < 8" by simp
    then have "(8 * i + n) div 8 = i" "(8 * i + n) mod 8 = n" by simp_all
    then show "bit (bytes_of (word_of_bytes bs :: 'a word) ! i) n = bit (bs ! i) n"
      using i assms(1) small [OF n] n
      by (simp add: nth_bytes_of bit_ucast_iff bit_drop_bit_eq bit_word_of_bytes)
  qed
qed

section \<open>The byte memory\<close>

definition mem_read :: "bytes \<Rightarrow> nat \<Rightarrow> nat \<Rightarrow> u8 list" where
  "mem_read m a n = map (\<lambda>i. m (a + i)) [0..<n]"

definition mem_write :: "bytes \<Rightarrow> nat \<Rightarrow> u8 list \<Rightarrow> bytes" where
  "mem_write m a bs = (\<lambda>x. if a \<le> x \<and> x < a + length bs then bs ! (x - a) else m x)"

definition mem_fill :: "bytes \<Rightarrow> nat \<Rightarrow> nat \<Rightarrow> u8 \<Rightarrow> bytes" where
  "mem_fill m a n b = (\<lambda>x. if a \<le> x \<and> x < a + n then b else m x)"

definition load64 :: "bytes \<Rightarrow> nat \<Rightarrow> u64" where
  "load64 m a = word_of_bytes (mem_read m a 8)"

definition store64 :: "bytes \<Rightarrow> nat \<Rightarrow> u64 \<Rightarrow> bytes" where
  "store64 m a w = mem_write m a (bytes_of w)"

definition load32 :: "bytes \<Rightarrow> nat \<Rightarrow> u32" where
  "load32 m a = word_of_bytes (mem_read m a 4)"

definition store32 :: "bytes \<Rightarrow> nat \<Rightarrow> u32 \<Rightarrow> bytes" where
  "store32 m a w = mem_write m a (bytes_of w)"

definition same_on :: "nat \<Rightarrow> nat \<Rightarrow> bytes \<Rightarrow> bytes \<Rightarrow> bool" where
  "same_on a n m m' \<longleftrightarrow> (\<forall>x. a \<le> x \<and> x < a + n \<longrightarrow> m x = m' x)"

lemma length_mem_read [simp]: "length (mem_read m a n) = n"
  by (simp add: mem_read_def)

lemma mem_read_cong: "same_on a n m m' \<Longrightarrow> mem_read m a n = mem_read m' a n"
  by (auto simp: mem_read_def same_on_def)

lemma mem_read_write_same [mem_simps]: "length bs = n \<Longrightarrow> mem_read (mem_write m a bs) a n = bs"
  by (auto simp: mem_read_def mem_write_def intro: nth_equalityI)

lemma mem_read_write_disj [mem_simps]:
  "a + length bs \<le> b \<or> b + n \<le> a \<Longrightarrow> mem_read (mem_write m a bs) b n = mem_read m b n"
  by (auto simp: mem_read_def mem_write_def)

lemma mem_read_fill_disj [mem_simps]:
  "a + k \<le> b \<or> b + n \<le> a \<Longrightarrow> mem_read (mem_fill m a k v) b n = mem_read m b n"
  by (auto simp: mem_read_def mem_fill_def)

lemma load64_store64_same [simp]: "load64 (store64 m a w) a = w"
  by (simp add: load64_def store64_def mem_read_write_same)

lemma load32_store32_same [simp]: "load32 (store32 m a w) a = w"
  by (simp add: load32_def store32_def mem_read_write_same)

lemma load_store_disj [mem_simps]:
  "a + 8 \<le> b \<or> b + 8 \<le> a \<Longrightarrow> load64 (store64 m a w) b = load64 m b"
  "a + 4 \<le> b \<or> b + 8 \<le> a \<Longrightarrow> load64 (store32 m a v) b = load64 m b"
  "a + 8 \<le> b \<or> b + 4 \<le> a \<Longrightarrow> load32 (store64 m a w) b = load32 m b"
  "a + 4 \<le> b \<or> b + 4 \<le> a \<Longrightarrow> load32 (store32 m a v) b = load32 m b"
  by (simp_all add: load64_def store64_def load32_def store32_def mem_read_write_disj)

lemma load64_cong: "same_on a 8 m m' \<Longrightarrow> load64 m a = load64 m' a"
  by (simp add: load64_def mem_read_cong [of a 8 m m'])

lemma load32_cong: "same_on a 4 m m' \<Longrightarrow> load32 m a = load32 m' a"
  by (simp add: load32_def mem_read_cong [of a 4 m m'])

lemma same_on_refl [simp]: "same_on a n m m"
  by (simp add: same_on_def)

lemma same_on_trans: "same_on a n m m' \<Longrightarrow> same_on a n m' m'' \<Longrightarrow> same_on a n m m''"
  by (simp add: same_on_def)

lemma same_on_sub: "same_on a n m m' \<Longrightarrow> a \<le> b \<Longrightarrow> b + k \<le> a + n \<Longrightarrow> same_on b k m m'"
  by (simp add: same_on_def)

lemma same_on_store64 [mem_simps]: "b + 8 \<le> a \<or> a + n \<le> b \<Longrightarrow> same_on a n m (store64 m b w)"
  by (auto simp: same_on_def store64_def mem_write_def)

lemma same_on_store32 [mem_simps]: "b + 4 \<le> a \<or> a + n \<le> b \<Longrightarrow> same_on a n m (store32 m b w)"
  by (auto simp: same_on_def store32_def mem_write_def)

lemma same_on_write [mem_simps]:
  "b + length bs \<le> a \<or> a + n \<le> b \<Longrightarrow> same_on a n m (mem_write m b bs)"
  by (auto simp: same_on_def mem_write_def)

section \<open>Writes confined to an interval\<close>

definition within :: "nat \<Rightarrow> nat \<Rightarrow> bytes \<Rightarrow> bytes \<Rightarrow> bool" where
  "within a z m m' \<longleftrightarrow> (\<forall>x. x < a \<or> z \<le> x \<longrightarrow> m' x = m x)"

lemma within_refl [simp]: "within a z m m"
  by (simp add: within_def)

lemma within_trans: "within a z m m' \<Longrightarrow> within a z m' m'' \<Longrightarrow> within a z m m''"
  by (simp add: within_def)

lemma within_mono: "within a z m m' \<Longrightarrow> a' \<le> a \<Longrightarrow> z \<le> z' \<Longrightarrow> within a' z' m m'"
  by (auto simp: within_def)

lemma within_write: "a \<le> p \<Longrightarrow> p + length bs \<le> z \<Longrightarrow> within a z m (mem_write m p bs)"
  by (auto simp: within_def mem_write_def)

lemma within_store:
  "a \<le> p \<Longrightarrow> p + 8 \<le> z \<Longrightarrow> within a z m (store64 m p w)"
  "a \<le> p \<Longrightarrow> p + 4 \<le> z \<Longrightarrow> within a z m (store32 m p v)"
  by (simp_all add: store64_def store32_def within_write)

lemma within_fill: "a \<le> p \<Longrightarrow> p + n \<le> z \<Longrightarrow> within a z m (mem_fill m p n v)"
  by (auto simp: within_def mem_fill_def)

lemma within_same_on: "within a z m m' \<Longrightarrow> z \<le> p \<or> p + n \<le> a \<Longrightarrow> same_on p n m m'"
  by (auto simp: within_def same_on_def)

end
