(* ===== verification/Mars_Crc32.thy ===== *)
theory Mars_Crc32
  imports Mars_Prelude
begin

unbundle bit_operations_syntax

text \<open>
  CRC32C, from \<^verbatim>\<open>src/mm_crc32.c\<close>: the literal table, the byte-wise software update, the
  SSE4.2 update over eight-byte chunks and the run-time dispatch between them.

  The two CPU instructions the hardware path executes are not code of the repository. They are
  arguments of the definitions (a pair of functions), and \<open>sse42_documented\<close> states what the
  processor manual documents of them: the eight-bit form is one byte of the reflected Castagnoli
  division, the sixty-four-bit form is eight of those, least significant byte first, with a result
  whose upper half is zero.
\<close>

section \<open>The table and the software update\<close>

definition kCrc32cTable :: "u32 list" where
  "kCrc32cTable = [
    0x00000000, 0xF26B8303, 0xE13B70F7, 0x1350F3F4,
    0xC79A971F, 0x35F1141C, 0x26A1E7E8, 0xD4CA64EB,
    0x8AD958CF, 0x78B2DBCC, 0x6BE22838, 0x9989AB3B,
    0x4D43CFD0, 0xBF284CD3, 0xAC78BF27, 0x5E133C24,
    0x105EC76F, 0xE235446C, 0xF165B798, 0x030E349B,
    0xD7C45070, 0x25AFD373, 0x36FF2087, 0xC494A384,
    0x9A879FA0, 0x68EC1CA3, 0x7BBCEF57, 0x89D76C54,
    0x5D1D08BF, 0xAF768BBC, 0xBC267848, 0x4E4DFB4B,
    0x20BD8EDE, 0xD2D60DDD, 0xC186FE29, 0x33ED7D2A,
    0xE72719C1, 0x154C9AC2, 0x061C6936, 0xF477EA35,
    0xAA64D611, 0x580F5512, 0x4B5FA6E6, 0xB93425E5,
    0x6DFE410E, 0x9F95C20D, 0x8CC531F9, 0x7EAEB2FA,
    0x30E349B1, 0xC288CAB2, 0xD1D83946, 0x23B3BA45,
    0xF779DEAE, 0x05125DAD, 0x1642AE59, 0xE4292D5A,
    0xBA3A117E, 0x4851927D, 0x5B016189, 0xA96AE28A,
    0x7DA08661, 0x8FCB0562, 0x9C9BF696, 0x6EF07595,
    0x417B1DBC, 0xB3109EBF, 0xA0406D4B, 0x522BEE48,
    0x86E18AA3, 0x748A09A0, 0x67DAFA54, 0x95B17957,
    0xCBA24573, 0x39C9C670, 0x2A993584, 0xD8F2B687,
    0x0C38D26C, 0xFE53516F, 0xED03A29B, 0x1F682198,
    0x5125DAD3, 0xA34E59D0, 0xB01EAA24, 0x42752927,
    0x96BF4DCC, 0x64D4CECF, 0x77843D3B, 0x85EFBE38,
    0xDBFC821C, 0x2997011F, 0x3AC7F2EB, 0xC8AC71E8,
    0x1C661503, 0xEE0D9600, 0xFD5D65F4, 0x0F36E6F7,
    0x61C69362, 0x93AD1061, 0x80FDE395, 0x72966096,
    0xA65C047D, 0x5437877E, 0x4767748A, 0xB50CF789,
    0xEB1FCBAD, 0x197448AE, 0x0A24BB5A, 0xF84F3859,
    0x2C855CB2, 0xDEEEDFB1, 0xCDBE2C45, 0x3FD5AF46,
    0x7198540D, 0x83F3D70E, 0x90A324FA, 0x62C8A7F9,
    0xB602C312, 0x44694011, 0x5739B3E5, 0xA55230E6,
    0xFB410CC2, 0x092A8FC1, 0x1A7A7C35, 0xE811FF36,
    0x3CDB9BDD, 0xCEB018DE, 0xDDE0EB2A, 0x2F8B6829,
    0x82F63B78, 0x709DB87B, 0x63CD4B8F, 0x91A6C88C,
    0x456CAC67, 0xB7072F64, 0xA457DC90, 0x563C5F93,
    0x082F63B7, 0xFA44E0B4, 0xE9141340, 0x1B7F9043,
    0xCFB5F4A8, 0x3DDE77AB, 0x2E8E845F, 0xDCE5075C,
    0x92A8FC17, 0x60C37F14, 0x73938CE0, 0x81F80FE3,
    0x55326B08, 0xA759E80B, 0xB4091BFF, 0x466298FC,
    0x1871A4D8, 0xEA1A27DB, 0xF94AD42F, 0x0B21572C,
    0xDFEB33C7, 0x2D80B0C4, 0x3ED04330, 0xCCBBC033,
    0xA24BB5A6, 0x502036A5, 0x4370C551, 0xB11B4652,
    0x65D122B9, 0x97BAA1BA, 0x84EA524E, 0x7681D14D,
    0x2892ED69, 0xDAF96E6A, 0xC9A99D9E, 0x3BC21E9D,
    0xEF087A76, 0x1D63F975, 0x0E330A81, 0xFC588982,
    0xB21572C9, 0x407EF1CA, 0x532E023E, 0xA145813D,
    0x758FE5D6, 0x87E466D5, 0x94B49521, 0x66DF1622,
    0x38CC2A06, 0xCAA7A905, 0xD9F75AF1, 0x2B9CD9F2,
    0xFF56BD19, 0x0D3D3E1A, 0x1E6DCDEE, 0xEC064EED,
    0xC38D26C4, 0x31E6A5C7, 0x22B65633, 0xD0DDD530,
    0x0417B1DB, 0xF67C32D8, 0xE52CC12C, 0x1747422F,
    0x49547E0B, 0xBB3FFD08, 0xA86F0EFC, 0x5A048DFF,
    0x8ECEE914, 0x7CA56A17, 0x6FF599E3, 0x9D9E1AE0,
    0xD3D3E1AB, 0x21B862A8, 0x32E8915C, 0xC083125F,
    0x144976B4, 0xE622F5B7, 0xF5720643, 0x07198540,
    0x590AB964, 0xAB613A67, 0xB831C993, 0x4A5A4A90,
    0x9E902E7B, 0x6CFBAD78, 0x7FAB5E8C, 0x8DC0DD8F,
    0xE330A81A, 0x115B2B19, 0x020BD8ED, 0xF0605BEE,
    0x24AA3F05, 0xD6C1BC06, 0xC5914FF2, 0x37FACCF1,
    0x69E9F0D5, 0x9B8273D6, 0x88D28022, 0x7AB90321,
    0xAE7367CA, 0x5C18E4C9, 0x4F48173D, 0xBD23943E,
    0xF36E6F75, 0x0105EC76, 0x12551F82, 0xE03E9C81,
    0x34F4F86A, 0xC69F7B69, 0xD5CF889D, 0x27A40B9E,
    0x79B737BA, 0x8BDCB4B9, 0x988C474D, 0x6AE7C44E,
    0xBE2DA0A5, 0x4C4623A6, 0x5F16D052, 0xAD7D5351]"

fun mm_crc32c_sw :: "u32 \<Rightarrow> u8 list \<Rightarrow> u32" where
  "mm_crc32c_sw crc [] = crc"
| "mm_crc32c_sw crc (b # bs) =
     mm_crc32c_sw (drop_bit 8 crc XOR kCrc32cTable ! unat ((crc XOR ucast b) AND 0xFF)) bs"

section \<open>The hardware update and the dispatch\<close>

type_synonym sse42 = "(u32 \<Rightarrow> u8 \<Rightarrow> u32) \<times> (u64 \<Rightarrow> u64 \<Rightarrow> u64)"

fun crc32c_tail :: "(u32 \<Rightarrow> u8 \<Rightarrow> u32) \<Rightarrow> u32 \<Rightarrow> u8 list \<Rightarrow> u32" where
  "crc32c_tail i8 crc [] = crc"
| "crc32c_tail i8 crc (b # bs) = crc32c_tail i8 (i8 crc b) bs"

function crc32c_sse42 :: "sse42 \<Rightarrow> u32 \<Rightarrow> u8 list \<Rightarrow> u32" where
  "crc32c_sse42 hw crc p =
     (if 8 \<le> length p
      then crc32c_sse42 hw
             (ucast (snd hw (ucast crc) (word_of_bytes (take 8 p)))) (drop 8 p)
      else crc32c_tail (fst hw) crc p)"
  by pat_completeness auto
termination
  by (relation "measure (\<lambda>(hw, crc, p). length p)") auto

declare crc32c_sse42.simps [simp del]

definition mm_crc32c_hw :: "sse42 option \<Rightarrow> u32 \<Rightarrow> u8 list \<Rightarrow> u32" where
  "mm_crc32c_hw cpu crc data =
     (case cpu of None \<Rightarrow> mm_crc32c_sw crc data | Some hw \<Rightarrow> crc32c_sse42 hw crc data)"

definition mm_crc32c_update :: "sse42 option \<Rightarrow> u32 \<Rightarrow> u8 list \<Rightarrow> u32" where
  "mm_crc32c_update cpu crc data =
     (case cpu of Some hw \<Rightarrow> crc32c_sse42 hw crc data | None \<Rightarrow> mm_crc32c_sw crc data)"

definition mm_crc32c_on :: "sse42 option \<Rightarrow> u8 list \<Rightarrow> u32" where
  "mm_crc32c_on cpu data = NOT (mm_crc32c_update cpu 0xFFFFFFFF data)"

definition mm_crc32c :: "u8 list \<Rightarrow> u32" where
  "mm_crc32c data = mm_crc32c_on None data"

section \<open>The reference: division by the Castagnoli polynomial, one bit at a time\<close>

definition crc_poly :: u32 where
  "crc_poly = 0x82F63B78"

definition crc_bit :: "u32 \<Rightarrow> u32" where
  "crc_bit crc = (if bit crc 0 then drop_bit 1 crc XOR crc_poly else drop_bit 1 crc)"

definition crc_byte :: "u32 \<Rightarrow> u8 \<Rightarrow> u32" where
  "crc_byte crc b = (crc_bit ^^ 8) (crc XOR ucast b)"

definition crc_ref :: "u32 \<Rightarrow> u8 list \<Rightarrow> u32" where
  "crc_ref crc bs = foldl crc_byte crc bs"

definition sse42_documented :: "sse42 \<Rightarrow> bool" where
  "sse42_documented hw \<longleftrightarrow>
     (\<forall>crc b. fst hw crc b = crc_byte crc b) \<and>
     (\<forall>crc bs. length bs = 8 \<longrightarrow>
        snd hw (ucast crc) (word_of_bytes bs) = ucast (crc_ref crc bs))"

section \<open>The bit step is linear, injective and keeps the parity\<close>

lemma bit_crc_bit:
  "bit (crc_bit x) n \<longleftrightarrow> (bit x (Suc n) \<noteq> (bit x 0 \<and> bit crc_poly n))"
  by (auto simp: crc_bit_def bit_xor_iff bit_drop_bit_eq)

lemma crc_bit_xor: "crc_bit (x XOR y) = crc_bit x XOR crc_bit y"
  by (rule bit_word_eqI) (auto simp: bit_crc_bit bit_xor_iff)

lemma crc_bits_xor: "(crc_bit ^^ n) (x XOR y) = (crc_bit ^^ n) x XOR (crc_bit ^^ n) y"
  by (induction n arbitrary: x y) (simp_all add: crc_bit_xor funpow_swap1)

lemma crc_bit_0 [simp]: "crc_bit 0 = 0"
  by (simp add: crc_bit_def)

lemma crc_bits_0 [simp]: "(crc_bit ^^ n) 0 = 0"
  by (induction n) simp_all

lemma crc_bit_inject [simp]: "crc_bit x = crc_bit y \<longleftrightarrow> x = y"
proof
  assume eq: "crc_bit x = crc_bit y"
  have low: "bit z 0 \<longleftrightarrow> bit (crc_bit z) 31" for z
    by (auto simp: bit_crc_bit crc_poly_def dest: bit_imp_le_length)
  show "x = y"
  proof (rule bit_word_eqI)
    fix n assume "n < LENGTH(32)"
    show "bit x n = bit y n"
    proof (cases n)
      case 0
      then show ?thesis using low [of x] low [of y] eq by simp
    next
      case (Suc k)
      have "bit (crc_bit x) k = bit (crc_bit y) k" and "bit x 0 = bit y 0"
        using eq low [of x] low [of y] by simp_all
      then show ?thesis using Suc by (auto simp: bit_crc_bit)
    qed
  qed
qed simp

lemma crc_bits_inject [simp]: "(crc_bit ^^ n) x = (crc_bit ^^ n) y \<longleftrightarrow> x = y"
  by (induction n arbitrary: x y) (simp_all add: funpow_swap1)

lemma crc_bits_shift: "take_bit n x = 0 \<Longrightarrow> (crc_bit ^^ n) x = drop_bit n x"
proof (induction n arbitrary: x)
  case 0
  then show ?case by simp
next
  case (Suc n)
  have bits: "\<not> bit x k" if "k < Suc n" for k
    using Suc.prems that by (metis bit_take_bit_iff bit_0_eq bot_apply bot_bool_def)
  then have "crc_bit x = drop_bit 1 x" by (simp add: crc_bit_def)
  moreover have "take_bit n (drop_bit 1 x) = 0"
    by (rule bit_word_eqI) (auto simp: bit_take_bit_iff bit_drop_bit_eq dest: bits [OF Suc_mono])
  ultimately show ?case using Suc.IH [of "drop_bit 1 x"]
    by (simp add: funpow_swap1 del: funpow.simps add: funpow_Suc_right)
qed

definition par :: "'a::len word \<Rightarrow> bool" where
  "par x = odd (card {n. bit x n})"

lemma finite_bits [simp]: "finite {n. bit (x::'a::len word) n}"
  by (rule finite_subset [of _ "{..<LENGTH('a)}"]) (auto dest: bit_imp_le_length)

lemma odd_card_sym_diff:
  assumes "finite A" "finite B"
  shows "odd (card {n. (n \<in> A) \<noteq> (n \<in> B)}) \<longleftrightarrow> odd (card A) \<noteq> odd (card B)"
proof -
  let ?D = "{n. (n \<in> A) \<noteq> (n \<in> B)}"
  have "?D \<union> (A \<inter> B) = A \<union> B" and "?D \<inter> (A \<inter> B) = {}" by auto
  moreover have "?D \<subseteq> A \<union> B" by auto
  then have "finite ?D" using assms by (meson finite_UnI finite_subset)
  ultimately have "card (A \<union> B) = card ?D + card (A \<inter> B)"
    using assms by (metis card_Un_disjoint finite_Int)
  then have "card A + card B = card ?D + 2 * card (A \<inter> B)"
    using card_Un_Int [OF assms] by simp
  then show ?thesis by presburger
qed

lemma par_xor: "par (x XOR y) \<longleftrightarrow> par x \<noteq> par y"
  using odd_card_sym_diff [of "{n. bit x n}" "{n. bit y n}"]
  by (simp add: par_def bit_xor_iff)

lemma par_0 [simp]: "\<not> par 0"
  by (simp add: par_def)

lemma par_poly: "par crc_poly"
proof -
  have "{n. bit crc_poly n} = set (filter (bit crc_poly) [0..<32])"
    by (auto dest: bit_imp_le_length)
  also have "card \<dots> = length (filter (bit crc_poly) [0..<32])"
    by (rule distinct_card) simp
  also have "\<dots> = 17" by (simp add: crc_poly_def upt_rec)
  finally show ?thesis by (simp add: par_def)
qed

lemma par_drop_bit1: "par (drop_bit 1 x) \<longleftrightarrow> par x \<noteq> bit x 0"
proof -
  have split: "{n. bit x n} = (if bit x 0 then {0} else {}) \<union> Suc ` {n. bit x (Suc n)}"
    by (auto split: if_splits) (metis image_eqI mem_Collect_eq not0_implies_Suc)+
  have fin: "finite {n. bit x (Suc n)}"
    by (rule finite_subset [of _ "{..<LENGTH('a)}"]) (auto dest: bit_imp_le_length)
  have "card {n. bit x n} = (if bit x 0 then 1 else 0) + card {n. bit x (Suc n)}"
    using fin by (subst split) (auto simp: card_image)
  then show ?thesis by (auto simp: par_def bit_drop_bit_eq)
qed

lemma par_crc_bit [simp]: "par (crc_bit x) = par x"
  using par_drop_bit1 [of x] by (auto simp: crc_bit_def par_xor par_poly)

lemma par_crc_bits [simp]: "par ((crc_bit ^^ n) x) = par x"
  by (induction n) simp_all

section \<open>The table is eight bit steps of every byte\<close>

definition crc_bit_int :: "int \<Rightarrow> int" where
  "crc_bit_int x = (if x mod 2 = 1 then (x div 2) XOR 0x82F63B78 else x div 2)"

lemma crc_bit_of_int:
  assumes "0 \<le> x" and "x < 2 ^ 32"
  shows "crc_bit (word_of_int x) = word_of_int (crc_bit_int x)"
proof (rule bit_word_eqI)
  fix n assume "n < LENGTH(32)"
  then have n: "n < 32" by simp
  have poly: "bit crc_poly n = bit (0x82F63B78 :: int) n"
    using n bit_word_of_int_iff [where 'a = 32, of "0x82F63B78" n] by (simp add: crc_poly_def)
  have top: "\<not> bit x 32" using assms by (simp add: bit_iff_odd)
  have int: "bit (crc_bit_int x) n \<longleftrightarrow> bit x (Suc n) \<noteq> (odd x \<and> bit (0x82F63B78 :: int) n)"
    by (auto simp: crc_bit_int_def bit_xor_iff bit_Suc odd_iff_mod_2_eq_one)
  have word: "bit (word_of_int x :: u32) (Suc n) = bit x (Suc n)"
    using n top by (cases "n = 31") (auto simp: bit_word_of_int_iff)
  have zero: "bit (word_of_int x :: u32) 0 = odd x"
    by (subst bit_word_of_int_iff) (simp add: bit_0)
  have "bit (crc_bit (word_of_int x)) n = bit (crc_bit_int x) n"
    by (simp only: bit_crc_bit poly int word zero)
  then show "bit (crc_bit (word_of_int x)) n = bit (word_of_int (crc_bit_int x) :: u32) n"
    using n by (simp add: bit_word_of_int_iff)
qed

lemma crc_bit_int_bounds: "0 \<le> x \<Longrightarrow> x < 2 ^ 32 \<Longrightarrow> 0 \<le> crc_bit_int x \<and> crc_bit_int x < 2 ^ 32"
  unfolding crc_bit_int_def
  using XOR_upper [of "x div 2" 32 "0x82F63B78"] by (auto simp: XOR_lower)

lemma crc_bits_of_int:
  "0 \<le> x \<Longrightarrow> x < 2 ^ 32 \<Longrightarrow> (crc_bit ^^ n) (word_of_int x) = word_of_int ((crc_bit_int ^^ n) x)"
proof (induction n arbitrary: x)
  case (Suc n)
  then show ?case using crc_bit_int_bounds [of x] crc_bit_of_int [of x]
    by (simp add: funpow_Suc_right del: funpow.simps)
qed simp

lemma crc_bit_int_simps:
  "crc_bit_int 0 = 0"
  "crc_bit_int 1 = 0x82F63B78"
  "crc_bit_int (numeral (num.Bit0 k)) = numeral k"
  "crc_bit_int (numeral (num.Bit1 k)) = numeral k XOR 0x82F63B78"
  by (simp_all add: crc_bit_int_def)

lemma crc_bit_int_8:
  "(crc_bit_int ^^ 8) x = crc_bit_int (crc_bit_int (crc_bit_int (crc_bit_int
     (crc_bit_int (crc_bit_int (crc_bit_int (crc_bit_int x)))))))"
  by (simp add: eval_nat_numeral)

lemma kCrc32cTable_ints:
  "map uint kCrc32cTable = map (crc_bit_int ^^ 8) [0..255]"
  by (simp add: kCrc32cTable_def crc_bit_int_8 crc_bit_int_simps upto_rec1)

lemma kCrc32cTable_nth: "i < 256 \<Longrightarrow> kCrc32cTable ! i = (crc_bit ^^ 8) (of_nat i)"
proof -
  assume i: "i < 256"
  have len: "length kCrc32cTable = 256"
    using arg_cong [OF kCrc32cTable_ints, of length] by simp
  have "uint (kCrc32cTable ! i) = (map uint kCrc32cTable) ! i" using i len by simp
  also have "\<dots> = (crc_bit_int ^^ 8) (int i)"
    unfolding kCrc32cTable_ints using i by (simp add: nth_upto)
  finally have "word_of_int (uint (kCrc32cTable ! i)) = (word_of_int ((crc_bit_int ^^ 8) (int i)) :: u32)"
    by simp
  then show ?thesis using i crc_bits_of_int [of "int i" 8] by simp
qed

section \<open>Software and hardware agree with the reference\<close>

lemma low_byte_mask: "(0xFF :: u32) = mask 8"
  by (simp add: mask_eq_exp_minus_1)

lemma word_split_byte: "(x::u32) = push_bit 8 (drop_bit 8 x) XOR (x AND 0xFF)"
  unfolding low_byte_mask
  by (rule bit_word_eqI)
    (auto simp: bit_xor_iff bit_and_iff bit_push_bit_iff bit_drop_bit_eq bit_mask_iff)

lemma take_push_bit8: "take_bit 8 (push_bit 8 (y::u32)) = 0"
  by (rule bit_word_eqI) (auto simp: bit_take_bit_iff bit_push_bit_iff)

lemma drop_push_drop8: "drop_bit 8 (push_bit 8 (drop_bit 8 (y::u32))) = drop_bit 8 y"
  by (rule bit_word_eqI) (auto simp: bit_push_bit_iff bit_drop_bit_eq dest: bit_imp_le_length)

lemma unat_low_byte: "unat ((x::u32) AND 0xFF) < 256"
  using word_and_le1 [of x "0xFF"] by (simp add: word_le_nat_alt)

lemma table_step:
  "drop_bit 8 crc XOR kCrc32cTable ! unat ((crc XOR ucast b) AND 0xFF) = crc_byte crc b"
proof -
  let ?x = "crc XOR ucast b"
  have "drop_bit 8 ?x = drop_bit 8 crc"
  proof (rule bit_word_eqI)
    fix n assume "n < LENGTH(32)"
    show "bit (drop_bit 8 ?x) n = bit (drop_bit 8 crc) n"
      by (auto simp: bit_drop_bit_eq bit_xor_iff bit_ucast_iff dest: bit_imp_le_length)
  qed
  moreover have "(crc_bit ^^ 8) (push_bit 8 (drop_bit 8 ?x)) = drop_bit 8 ?x"
    by (simp only: crc_bits_shift [OF take_push_bit8] drop_push_drop8)
  moreover have "kCrc32cTable ! unat (?x AND 0xFF) = (crc_bit ^^ 8) (?x AND 0xFF)"
    by (simp add: kCrc32cTable_nth [OF unat_low_byte])
  ultimately show ?thesis
    unfolding crc_byte_def by (metis crc_bits_xor word_split_byte)
qed

lemma mm_crc32c_sw_ref: "mm_crc32c_sw crc bs = crc_ref crc bs"
  by (induction bs arbitrary: crc) (simp_all add: crc_ref_def table_step)

lemma crc_ref_append: "crc_ref crc (xs @ ys) = crc_ref (crc_ref crc xs) ys"
  by (simp add: crc_ref_def)

lemma crc_ref_Cons [simp]: "crc_ref crc (b # bs) = crc_ref (crc_byte crc b) bs"
  by (simp add: crc_ref_def)

lemma crc_ref_Nil [simp]: "crc_ref crc [] = crc"
  by (simp add: crc_ref_def)

lemma crc32c_tail_ref: "sse42_documented hw \<Longrightarrow> crc32c_tail (fst hw) crc bs = crc_ref crc bs"
  by (induction bs arbitrary: crc) (simp_all add: sse42_documented_def)

lemma ucast_u32_u64 [simp]: "ucast (ucast (x::u32) :: u64) = x"
  by (rule bit_word_eqI) (simp add: bit_ucast_iff)

lemma crc32c_sse42_ref: "sse42_documented hw \<Longrightarrow> crc32c_sse42 hw crc bs = crc_ref crc bs"
proof (induction hw crc bs rule: crc32c_sse42.induct)
  case (1 hw crc p)
  show ?case
  proof (cases "8 \<le> length p")
    case True
    then have "snd hw (ucast crc) (word_of_bytes (take 8 p)) = ucast (crc_ref crc (take 8 p))"
      using "1.prems" by (simp add: sse42_documented_def)
    then show ?thesis
      using True 1 crc_ref_append [of crc "take 8 p" "drop 8 p"]
      by (simp add: crc32c_sse42.simps [of hw crc p])
  next
    case False
    then show ?thesis using "1.prems"
      by (simp add: crc32c_sse42.simps [of hw crc p] crc32c_tail_ref)
  qed
qed

section \<open>What a change of the message does to the checksum\<close>

lemma crc_byte_xor: "crc_byte (x XOR y) (b XOR d) = crc_byte x b XOR crc_byte y d"
proof -
  have "(ucast (b XOR d) :: u32) = ucast b XOR ucast d"
    by (rule bit_word_eqI) (simp add: bit_ucast_iff bit_xor_iff)
  then have "(x XOR y) XOR ucast (b XOR d) = (x XOR ucast b) XOR (y XOR ucast d)"
    by (simp add: ac_simps)
  then show ?thesis by (simp add: crc_byte_def crc_bits_xor)
qed

lemma crc_ref_xor:
  "length bs = length ds \<Longrightarrow>
   crc_ref (x XOR y) (map2 (XOR) bs ds) = crc_ref x bs XOR crc_ref y ds"
  by (induction bs ds arbitrary: x y rule: list_induct2) (simp_all add: crc_byte_xor)

lemma par_ucast_byte: "par (ucast (b::u8) :: u32) = par b"
proof -
  have "{n. bit (ucast b :: u32) n} = {n. bit b n}"
    by (auto simp: bit_ucast_iff dest: bit_imp_le_length)
  then show ?thesis by (simp add: par_def)
qed

lemma par_crc_byte: "par (crc_byte crc b) \<longleftrightarrow> par crc \<noteq> par b"
  by (simp add: crc_byte_def par_xor par_ucast_byte)

fun par_bytes :: "u8 list \<Rightarrow> bool" where
  "par_bytes [] = False"
| "par_bytes (b # bs) = (par b \<noteq> par_bytes bs)"

lemma par_crc_ref: "par (crc_ref crc bs) \<longleftrightarrow> par crc \<noteq> par_bytes bs"
  by (induction bs arbitrary: crc) (auto simp: par_crc_byte)

lemma crc_ref_zeros: "crc_ref s (replicate k 0) = (crc_bit ^^ (8 * k)) s"
proof (induction k arbitrary: s)
  case (Suc k)
  have "crc_ref s (replicate (Suc k) 0) = (crc_bit ^^ (8 * k)) ((crc_bit ^^ 8) s)"
    by (simp add: Suc.IH crc_byte_def)
  also have "\<dots> = (crc_bit ^^ (8 * Suc k)) s"
    by (simp only: mult_Suc_right funpow_add [of "8 * k" 8, simplified add.commute] o_apply)
  finally show ?case .
qed simp

lemma crc_single: "j < 32 \<Longrightarrow> (crc_bit ^^ j) (push_bit j 1) = 1"
proof -
  assume "j < 32"
  then have "take_bit j (push_bit j 1 :: u32) = 0" and "drop_bit j (push_bit j 1 :: u32) = 1"
    by (auto intro!: bit_word_eqI simp: bit_take_bit_iff bit_drop_bit_eq bit_push_bit_iff bit_exp_iff bit_1_iff)
  then show ?thesis by (simp add: crc_bits_shift)
qed

fun orbit_avoids :: "nat \<Rightarrow> int \<Rightarrow> bool" where
  "orbit_avoids 0 x = True"
| "orbit_avoids (Suc n) x = (let y = crc_bit_int x in y \<noteq> 1 \<and> orbit_avoids n y)"

lemma orbit_avoidsD:
  "orbit_avoids n x \<Longrightarrow> 0 < d \<Longrightarrow> d \<le> n \<Longrightarrow> (crc_bit_int ^^ d) x \<noteq> 1"
proof (induction n arbitrary: x d)
  case (Suc n)
  then show ?case
    by (cases d) (auto simp: Let_def funpow_Suc_right simp del: funpow.simps split: nat.splits,
        metis funpow_0 neq0_conv)
qed simp

lemma crc_orbit_287: "orbit_avoids 287 1"
  by code_simp

lemma crc_bits_one_inject:
  assumes "a \<le> 287" and "b \<le> 287" and "(crc_bit ^^ a) 1 = (crc_bit ^^ b) 1"
  shows "a = b"
proof -
  have no_cycle: "(crc_bit ^^ d) 1 \<noteq> 1" if "0 < d" "d \<le> 287" for d
  proof
    assume "(crc_bit ^^ d) 1 = 1"
    then have "uint (word_of_int ((crc_bit_int ^^ d) 1) :: u32) = 1"
      using crc_bits_of_int [of 1 d] by simp
    then have "take_bit 32 ((crc_bit_int ^^ d) 1) = 1"
      by (simp only: uint_word_of_int_eq) simp
    moreover have "0 \<le> (crc_bit_int ^^ d) 1 \<and> (crc_bit_int ^^ d) 1 < 2 ^ 32"
      by (induction d) (simp_all add: crc_bit_int_bounds [simplified])
    ultimately have "(crc_bit_int ^^ d) 1 = 1" by (simp add: take_bit_int_eq_self)
    then show False using orbit_avoidsD [OF crc_orbit_287] that by blast
  qed
  have ordered: "u = v" if "u \<le> v" "v \<le> 287" "(crc_bit ^^ u) 1 = (crc_bit ^^ v) 1" for u v
  proof (rule ccontr)
    assume "u \<noteq> v"
    have "(crc_bit ^^ v) 1 = (crc_bit ^^ u) ((crc_bit ^^ (v - u)) 1)"
      using that(1) by (metis funpow_add le_add_diff_inverse o_apply)
    then have "(crc_bit ^^ (v - u)) 1 = 1" using that(3) by (metis crc_bits_inject)
    then show False using no_cycle [of "v - u"] that(1,2) \<open>u \<noteq> v\<close> by simp
  qed
  show ?thesis using assms ordered [of a b] ordered [of b a] by (metis nle_le)
qed

lemma mm_crc32c_ref: "mm_crc32c data = NOT (crc_ref 0xFFFFFFFF data)"
  by (simp add: mm_crc32c_def mm_crc32c_on_def mm_crc32c_update_def mm_crc32c_sw_ref)

lemma crc_byte_single: "j < 8 \<Longrightarrow> crc_byte 0 (push_bit j 1) = (crc_bit ^^ (8 - j)) 1"
proof -
  assume j: "j < 8"
  have "(ucast (push_bit j 1 :: u8) :: u32) = push_bit j 1"
    using j by (intro bit_word_eqI) (auto simp: bit_ucast_iff bit_exp_iff)
  moreover have "(crc_bit ^^ 8) x = (crc_bit ^^ (8 - j)) ((crc_bit ^^ j) x)" for x
    using j by (metis funpow_add le_add_diff_inverse2 less_imp_le o_apply)
  ultimately show ?thesis using j crc_single [of j] by (simp add: crc_byte_def)
qed

lemma mm_crc32c_flip:
  assumes "k < length msg" and "j < 8"
  shows "mm_crc32c (msg[k := msg ! k XOR push_bit j 1]) =
         mm_crc32c msg XOR (crc_bit ^^ (8 * (length msg - k) - j)) 1"
proof -
  let ?n = "length msg - Suc k"
  let ?e = "replicate k 0 @ push_bit j 1 # replicate ?n (0::u8)"
  have len: "length ?e = length msg" using assms(1) by simp
  have "msg[k := msg ! k XOR push_bit j 1] = map2 (XOR) msg ?e"
    using assms(1) by (intro nth_equalityI) (auto simp: nth_list_update nth_append nth_Cons')
  moreover have "crc_ref 0 ?e = (crc_bit ^^ (8 * (length msg - k) - j)) 1"
  proof -
    have "crc_ref 0 ?e = (crc_bit ^^ (8 * ?n)) ((crc_bit ^^ (8 - j)) 1)"
      using assms(2) by (simp only: crc_ref_append crc_ref_zeros crc_bits_0 crc_ref_Cons crc_byte_single)
    also have "\<dots> = (crc_bit ^^ (8 * ?n + (8 - j))) 1" by (simp add: funpow_add)
    also have "8 * ?n + (8 - j) = 8 * (length msg - k) - j" using assms by linarith
    finally show ?thesis .
  qed
  moreover have "NOT (x XOR y) = NOT x XOR y" for x y :: u32
    by (rule bit_word_eqI) (simp add: bit_not_iff bit_xor_iff)
  ultimately show ?thesis
    using crc_ref_xor [of msg ?e "0xFFFFFFFF" 0] len by (simp add: mm_crc32c_ref)
qed

section \<open>Properties\<close>

text \<open>C26 (equivalence). The 256-entry table literal is the CRC32C of every byte value: the
  byte-wise table loop computes exactly the bit-serial division by the reflected Castagnoli
  polynomial 0x82F63B78, from any register state and over any buffer.\<close>

theorem crc32c_sw_correct: "mm_crc32c_sw crc data = foldl (\<lambda>c b. (crc_bit ^^ 8) (c XOR ucast b)) crc data"
  using mm_crc32c_sw_ref [of crc data] unfolding crc_ref_def crc_byte_def .

text \<open>C27 (equivalence). Dispatching to the hardware path never changes an answer: on a CPU whose
  two CRC32 instructions behave as documented, \<^verbatim>\<open>mm_crc32c_hw\<close>, \<^verbatim>\<open>mm_crc32c_update\<close> and the
  one-shot checksum agree bit for bit with the software path, for every buffer length.\<close>

theorem crc32c_hw_agrees:
  assumes "sse42_documented hw"
  shows "mm_crc32c_hw (Some hw) crc data = mm_crc32c_sw crc data \<and>
    mm_crc32c_update (Some hw) crc data = mm_crc32c_update None crc data \<and>
    mm_crc32c_on (Some hw) data = mm_crc32c data"
  using crc32c_sse42_ref [OF assms]
  by (simp_all add: mm_crc32c_hw_def mm_crc32c_update_def mm_crc32c_def mm_crc32c_on_def mm_crc32c_sw_ref)

definition sse42_reference :: sse42 where
  "sse42_reference = (crc_byte, \<lambda>crc w. ucast (crc_ref (ucast crc) (bytes_of w)))"

theorem crc32c_hw_agrees_witness:
  "sse42_documented sse42_reference \<and>
   mm_crc32c_on (Some sse42_reference) [0x31, 0x32, 0x33, 0x34, 0x35, 0x36, 0x37, 0x38, 0x39] =
   mm_crc32c [0x31, 0x32, 0x33, 0x34, 0x35, 0x36, 0x37, 0x38, 0x39]"
proof -
  have doc: "sse42_documented sse42_reference"
    by (simp add: sse42_documented_def sse42_reference_def)
  show ?thesis using doc crc32c_hw_agrees [OF doc] by blast
qed

end
