(* ===== verification/Mars_Layout.thy ===== *)
theory Mars_Layout
  imports Mars_Prelude Mars_Crc32
begin

unbundle bit_operations_syntax

text \<open>
  Block layout: \<^verbatim>\<open>src/mm_layout.h\<close>, with \<^verbatim>\<open>mm_round_up\<close> of \<^verbatim>\<open>src/mm_internal.h\<close> and
  \<^verbatim>\<open>mm_size_for\<close>, \<^verbatim>\<open>mm_alignment\<close>, \<^verbatim>\<open>mm_min_arena\<close> of \<^verbatim>\<open>src/mm_core.c\<close>.

  The profile and the other compile-time switches (counters, zero-on-free, locking strategy) are a record \<open>mm_config\<close> that every
  profile-dependent definition takes as its first argument. The control word is a \<open>u64\<close>; its
  accessors come in two layers, one on the word itself (\<open>w_...\<close>) and one on a block in memory
  (the source's names), which reads or writes the word at the block's address. A block is the
  address of its header; the header is the word at offset 0 and, where the profile has a checksum,
  \<^verbatim>\<open>hdr_crc\<close> at offset 8 and \<^verbatim>\<open>payload_crc\<close> at offset 12.
\<close>

section \<open>Profile and sizes\<close>

datatype mm_profile = Fast | Hardened | Paranoid

datatype mm_lock = MM_LOCK_NONE | MM_LOCK_GLOBAL | MM_LOCK_ARENA

record mm_config =
  profile :: mm_profile
  cfg_stats :: bool
  cfg_zero_on_free :: bool
  cfg_lock :: mm_lock

text \<open>A build of the given profile with counters on and the default locking strategy.\<close>

abbreviation build :: "mm_profile \<Rightarrow> mm_config" where
  "build p \<equiv> \<lparr>profile = p, cfg_stats = True, cfg_zero_on_free = False, cfg_lock = MM_LOCK_ARENA\<rparr>"

definition MM_HAS_CRC :: "mm_config \<Rightarrow> bool" where
  [layout_defs]: "MM_HAS_CRC c \<longleftrightarrow> profile c \<noteq> Fast"

definition MM_HAS_CANARY :: "mm_config \<Rightarrow> bool" where
  [layout_defs]: "MM_HAS_CANARY c \<longleftrightarrow> profile c \<noteq> Fast"

definition MM_HAS_MIRROR :: "mm_config \<Rightarrow> bool" where
  [layout_defs]: "MM_HAS_MIRROR c \<longleftrightarrow> profile c = Paranoid"

definition mm_profile_name :: "mm_config \<Rightarrow> string" where
  "mm_profile_name c =
     (case profile c of Fast \<Rightarrow> ''fast'' | Hardened \<Rightarrow> ''hardened'' | Paranoid \<Rightarrow> ''paranoid'')"

definition MM_ALIGNMENT :: nat where
  [layout_defs]: "MM_ALIGNMENT = 16"

definition MM_HDR_SIZE :: "mm_config \<Rightarrow> nat" where
  [layout_defs]: "MM_HDR_SIZE c = (if MM_HAS_CRC c then 16 else 8)"

definition MM_CANARY_SIZE :: "mm_config \<Rightarrow> nat" where
  [layout_defs]: "MM_CANARY_SIZE c = (if MM_HAS_CANARY c then 8 else 0)"

definition MM_MIRROR_SIZE :: "mm_config \<Rightarrow> nat" where
  [layout_defs]: "MM_MIRROR_SIZE c = (if MM_HAS_MIRROR c then MM_HDR_SIZE c else 0)"

definition MM_TRAIL :: "mm_config \<Rightarrow> nat" where
  [layout_defs]: "MM_TRAIL c = MM_CANARY_SIZE c + MM_MIRROR_SIZE c"

definition MM_FREE_MIN :: "mm_config \<Rightarrow> nat" where
  [layout_defs]: "MM_FREE_MIN c = MM_HDR_SIZE c + 2 * 8 + 8"

definition MM_USED_MIN :: "mm_config \<Rightarrow> nat" where
  [layout_defs]: "MM_USED_MIN c = MM_HDR_SIZE c + 1 + MM_TRAIL c"

definition MM_MIN_BLOCK :: "mm_config \<Rightarrow> nat" where
  [layout_defs]: "MM_MIN_BLOCK c =
     ((if MM_FREE_MIN c > MM_USED_MIN c then MM_FREE_MIN c else MM_USED_MIN c) + MM_ALIGNMENT - 1)
       div MM_ALIGNMENT * MM_ALIGNMENT"

definition MM_BLOCK_OFFSET :: "mm_config \<Rightarrow> nat" where
  [layout_defs]: "MM_BLOCK_OFFSET c = (MM_ALIGNMENT - MM_HDR_SIZE c mod MM_ALIGNMENT) mod MM_ALIGNMENT"

definition mm_alignment :: nat where
  "mm_alignment = MM_ALIGNMENT"

definition mm_min_arena :: "mm_config \<Rightarrow> nat" where
  "mm_min_arena c = MM_BLOCK_OFFSET c + MM_MIN_BLOCK c"

definition mm_metadata_overhead :: "mm_config \<Rightarrow> nat" where
  "mm_metadata_overhead c = MM_HDR_SIZE c + MM_TRAIL c"

section \<open>The control word\<close>

definition MM_W_IN_USE :: u64 where "MM_W_IN_USE = push_bit 0 1"
definition MM_W_PREV_IN_USE :: u64 where "MM_W_PREV_IN_USE = push_bit 1 1"
definition MM_W_QUARANTINED :: u64 where "MM_W_QUARANTINED = push_bit 2 1"
definition MM_W_SLACK_SHIFT :: nat where "MM_W_SLACK_SHIFT = 3"
definition MM_W_SLACK_BITS :: nat where "MM_W_SLACK_BITS = 7"
definition MM_W_SLACK_MASK :: u64 where "MM_W_SLACK_MASK = push_bit MM_W_SLACK_BITS 1 - 1"
definition MM_W_SIZE_SHIFT :: nat where "MM_W_SIZE_SHIFT = MM_W_SLACK_SHIFT + MM_W_SLACK_BITS"
definition MM_W_FLAGS_MASK :: u64 where "MM_W_FLAGS_MASK = push_bit MM_W_SIZE_SHIFT 1 - 1"

definition MM_SLACK_ROUNDING :: "mm_config \<Rightarrow> nat" where
  [layout_defs]: "MM_SLACK_ROUNDING c = MM_TRAIL c + MM_ALIGNMENT - 1"

definition MM_SLACK_FLOOR :: "mm_config \<Rightarrow> nat" where
  [layout_defs]: "MM_SLACK_FLOOR c = MM_MIN_BLOCK c - MM_HDR_SIZE c - 1"

definition MM_SLACK_CARVED :: "mm_config \<Rightarrow> nat" where
  [layout_defs]: "MM_SLACK_CARVED c =
     (if MM_SLACK_FLOOR c > MM_SLACK_ROUNDING c then MM_SLACK_FLOOR c else MM_SLACK_ROUNDING c)"

definition MM_SLACK_MAX :: "mm_config \<Rightarrow> nat" where
  [layout_defs]: "MM_SLACK_MAX c = MM_SLACK_CARVED c + MM_MIN_BLOCK c - MM_ALIGNMENT"

definition w_block_size :: "u64 \<Rightarrow> nat" where
  "w_block_size w = unat (drop_bit MM_W_SIZE_SHIFT w) * MM_ALIGNMENT"

definition w_set_block_size :: "u64 \<Rightarrow> nat \<Rightarrow> u64" where
  "w_set_block_size w n =
     (w AND MM_W_FLAGS_MASK) OR push_bit MM_W_SIZE_SHIFT (of_nat (n div MM_ALIGNMENT))"

definition w_is_used :: "u64 \<Rightarrow> bool" where
  "w_is_used w \<longleftrightarrow> w AND MM_W_IN_USE \<noteq> 0"

definition w_prev_in_use :: "u64 \<Rightarrow> bool" where
  "w_prev_in_use w \<longleftrightarrow> w AND MM_W_PREV_IN_USE \<noteq> 0"

definition w_is_quarantined :: "u64 \<Rightarrow> bool" where
  "w_is_quarantined w \<longleftrightarrow> w AND MM_W_QUARANTINED \<noteq> 0"

definition w_set_prev_in_use :: "u64 \<Rightarrow> bool \<Rightarrow> u64" where
  "w_set_prev_in_use w used =
     (if used then w OR MM_W_PREV_IN_USE else w AND NOT MM_W_PREV_IN_USE)"

definition w_slack :: "u64 \<Rightarrow> nat" where
  "w_slack w = unat (drop_bit MM_W_SLACK_SHIFT w AND MM_W_SLACK_MASK)"

definition w_requested_size :: "mm_config \<Rightarrow> u64 \<Rightarrow> nat" where
  "w_requested_size c w =
     (if \<not> w_is_used w then 0
      else let avail = sub64 (w_block_size w) (MM_HDR_SIZE c); slack = w_slack w
           in if slack \<le> avail then avail - slack else 0)"

definition w_set_word :: "u64 \<Rightarrow> nat \<Rightarrow> nat \<Rightarrow> bool \<Rightarrow> bool \<Rightarrow> u64" where
  "w_set_word w block_size slack used quarantined =
     (let prev = w AND MM_W_PREV_IN_USE
      in push_bit MM_W_SIZE_SHIFT (of_nat (block_size div MM_ALIGNMENT)) OR
         push_bit MM_W_SLACK_SHIFT (of_nat slack AND MM_W_SLACK_MASK) OR
         (if quarantined then MM_W_QUARANTINED else 0) OR
         (if used then MM_W_IN_USE else 0) OR prev)"

section \<open>Headers in memory\<close>

definition mm_word :: "bytes \<Rightarrow> nat \<Rightarrow> u64" where
  "mm_word m b = load64 m b"

definition set_word_at :: "bytes \<Rightarrow> nat \<Rightarrow> u64 \<Rightarrow> bytes" where
  "set_word_at m b w = store64 m b w"

definition hdr_crc :: "bytes \<Rightarrow> nat \<Rightarrow> u32" where
  "hdr_crc m b = load32 m (b + 8)"

definition set_hdr_crc :: "bytes \<Rightarrow> nat \<Rightarrow> u32 \<Rightarrow> bytes" where
  "set_hdr_crc m b v = store32 m (b + 8) v"

definition payload_crc :: "bytes \<Rightarrow> nat \<Rightarrow> u32" where
  "payload_crc m b = load32 m (b + 12)"

definition set_payload_crc :: "bytes \<Rightarrow> nat \<Rightarrow> u32 \<Rightarrow> bytes" where
  "set_payload_crc m b v = store32 m (b + 12) v"

definition mm_block_size :: "bytes \<Rightarrow> nat \<Rightarrow> nat" where
  "mm_block_size m b = w_block_size (mm_word m b)"

definition mm_set_block_size :: "bytes \<Rightarrow> nat \<Rightarrow> nat \<Rightarrow> bytes" where
  "mm_set_block_size m b n = set_word_at m b (w_set_block_size (mm_word m b) n)"

definition mm_is_used :: "bytes \<Rightarrow> nat \<Rightarrow> bool" where
  "mm_is_used m b = w_is_used (mm_word m b)"

definition mm_prev_in_use :: "bytes \<Rightarrow> nat \<Rightarrow> bool" where
  "mm_prev_in_use m b = w_prev_in_use (mm_word m b)"

definition mm_is_quarantined :: "bytes \<Rightarrow> nat \<Rightarrow> bool" where
  "mm_is_quarantined m b = w_is_quarantined (mm_word m b)"

definition mm_set_prev_in_use :: "bytes \<Rightarrow> nat \<Rightarrow> bool \<Rightarrow> bytes" where
  "mm_set_prev_in_use m b used = set_word_at m b (w_set_prev_in_use (mm_word m b) used)"

definition mm_slack :: "bytes \<Rightarrow> nat \<Rightarrow> nat" where
  "mm_slack m b = w_slack (mm_word m b)"

definition mm_requested_size :: "mm_config \<Rightarrow> bytes \<Rightarrow> nat \<Rightarrow> nat" where
  "mm_requested_size c m b = w_requested_size c (mm_word m b)"

definition mm_set_word :: "bytes \<Rightarrow> nat \<Rightarrow> nat \<Rightarrow> nat \<Rightarrow> bool \<Rightarrow> bool \<Rightarrow> bytes" where
  "mm_set_word m b block_size slack used quarantined =
     set_word_at m b (w_set_word (mm_word m b) block_size slack used quarantined)"

section \<open>Geometry, free-block interior, checksums\<close>

definition mm_payload_of :: "mm_config \<Rightarrow> nat \<Rightarrow> nat" where
  "mm_payload_of c b = b + MM_HDR_SIZE c"

definition mm_block_end :: "bytes \<Rightarrow> nat \<Rightarrow> nat" where
  "mm_block_end m b = b + mm_block_size m b"

definition mm_next_block :: "bytes \<Rightarrow> nat \<Rightarrow> nat" where
  "mm_next_block m b = mm_block_end m b"

definition MM_LINK_NEXT :: nat where "MM_LINK_NEXT = 0"
definition MM_LINK_PREV :: nat where "MM_LINK_PREV = 1"

definition mm_free_link_get :: "mm_config \<Rightarrow> bytes \<Rightarrow> nat \<Rightarrow> nat \<Rightarrow> u64 \<Rightarrow> nat" where
  "mm_free_link_get c m b which secret =
     (let raw = load64 m (mm_payload_of c b + which * 8); v = raw XOR secret in unat v)"

definition mm_free_link_set :: "mm_config \<Rightarrow> bytes \<Rightarrow> nat \<Rightarrow> nat \<Rightarrow> nat \<Rightarrow> u64 \<Rightarrow> bytes" where
  "mm_free_link_set c m b which p secret =
     (let raw = of_nat p XOR secret in store64 m (mm_payload_of c b + which * 8) raw)"

definition mm_write_free_footer :: "bytes \<Rightarrow> nat \<Rightarrow> bytes" where
  "mm_write_free_footer m b =
     (let n = of_nat (mm_block_size m b) in store64 m (mm_block_end m b - 8) n)"

definition mm_read_prev_footer :: "bytes \<Rightarrow> nat \<Rightarrow> nat" where
  "mm_read_prev_footer m b = unat (load64 m (b - 8))"

definition mm_hdr_crc_of :: "bytes \<Rightarrow> nat \<Rightarrow> u64 \<Rightarrow> u64 \<Rightarrow> u32" where
  "mm_hdr_crc_of m b index secret =
     mm_crc32c (bytes_of (mm_word m b) @ bytes_of (ucast (payload_crc m b) :: u64) @
                bytes_of index @ bytes_of secret)"

definition mm_payload_crc :: "u8 list \<Rightarrow> u32" where
  "mm_payload_crc payload = (let c = mm_crc32c payload in if c = 0 then 1 else c)"

definition MM_CANARY :: u64 where
  "MM_CANARY = 0xCAFEBABECAFEBABE"

definition mm_canary_value :: "u64 \<Rightarrow> u64 \<Rightarrow> u64" where
  "mm_canary_value index secret = MM_CANARY XOR secret XOR (index * 0x9E3779B97F4A7C15)"

section \<open>Sizes for requests\<close>

definition mm_round_up :: "nat \<Rightarrow> nat \<Rightarrow> nat" where
  "mm_round_up n to = unat ((of_nat n + of_nat to - 1 :: u64) AND NOT (of_nat to - 1))"

definition mm_size_for :: "mm_config \<Rightarrow> nat \<Rightarrow> nat" where
  "mm_size_for c payload =
     (if payload > SIZE_MAX - MM_HDR_SIZE c - MM_TRAIL c - MM_ALIGNMENT then 0
      else let need = mm_round_up (payload + MM_HDR_SIZE c + MM_TRAIL c) MM_ALIGNMENT
           in if need < MM_MIN_BLOCK c then MM_MIN_BLOCK c else need)"

section \<open>The constants of each profile\<close>

lemma layout_cases:
  obtains (fast) "profile c = Fast" "\<not> MM_HAS_CRC c" "\<not> MM_HAS_CANARY c" "\<not> MM_HAS_MIRROR c"
      "MM_HDR_SIZE c = 8" "MM_TRAIL c = 0" "MM_MIN_BLOCK c = 32" "MM_BLOCK_OFFSET c = 8"
      "MM_CANARY_SIZE c = 0" "MM_MIRROR_SIZE c = 0" "MM_SLACK_CARVED c = 23" "MM_SLACK_MAX c = 39"
    | (hardened) "profile c = Hardened" "MM_HAS_CRC c" "MM_HAS_CANARY c" "\<not> MM_HAS_MIRROR c"
      "MM_HDR_SIZE c = 16" "MM_TRAIL c = 8" "MM_MIN_BLOCK c = 48" "MM_BLOCK_OFFSET c = 0"
      "MM_CANARY_SIZE c = 8" "MM_MIRROR_SIZE c = 0" "MM_SLACK_CARVED c = 31" "MM_SLACK_MAX c = 63"
    | (paranoid) "profile c = Paranoid" "MM_HAS_CRC c" "MM_HAS_CANARY c" "MM_HAS_MIRROR c"
      "MM_HDR_SIZE c = 16" "MM_TRAIL c = 24" "MM_MIN_BLOCK c = 48" "MM_BLOCK_OFFSET c = 0"
      "MM_CANARY_SIZE c = 8" "MM_MIRROR_SIZE c = 16" "MM_SLACK_CARVED c = 39" "MM_SLACK_MAX c = 71"
proof (cases "profile c")
  case Fast
  then show ?thesis by (intro fast) (simp_all add: layout_defs)
next
  case Hardened
  then show ?thesis by (intro hardened) (simp_all add: layout_defs)
next
  case Paranoid
  then show ?thesis by (intro paranoid) (simp_all add: layout_defs)
qed

lemma MM_ALIGNMENT_16 [simp]: "MM_ALIGNMENT = 16"
  by (simp add: MM_ALIGNMENT_def)

lemma layout_bounds:
  "8 \<le> MM_HDR_SIZE c" "MM_HDR_SIZE c \<le> 16" "MM_HDR_SIZE c + 24 \<le> MM_MIN_BLOCK c"
  "MM_HDR_SIZE c + MM_TRAIL c < MM_MIN_BLOCK c" "MM_MIN_BLOCK c \<le> 48" "32 \<le> MM_MIN_BLOCK c"
  "16 dvd MM_MIN_BLOCK c" "MM_SLACK_MAX c < 128" "MM_TRAIL c \<le> 24" "MM_BLOCK_OFFSET c \<le> 8"
  "MM_MIRROR_SIZE c \<le> MM_TRAIL c" "(MM_BLOCK_OFFSET c + MM_HDR_SIZE c) mod 16 = 0"
  "MM_HDR_SIZE c + 8 \<le> MM_MIN_BLOCK c"
  by (cases c rule: layout_cases; simp)+

section \<open>The control word codec\<close>

lemma bit_flags [simp]:
  "bit MM_W_IN_USE i \<longleftrightarrow> i = 0" "bit MM_W_PREV_IN_USE i \<longleftrightarrow> i = 1" "bit MM_W_QUARANTINED i \<longleftrightarrow> i = 2"
  unfolding MM_W_IN_USE_def MM_W_PREV_IN_USE_def MM_W_QUARANTINED_def bit_push_bit_iff bit_1_iff
  by auto

lemma bit_of_nat_word: "bit (of_nat k :: 'a::len word) i \<longleftrightarrow> i < LENGTH('a) \<and> bit k i"
  using bit_word_of_int_iff [where 'a = 'a, of "int k" i] by (simp add: bit_of_nat_iff)

lemma word_and_nonzero: "(w AND f \<noteq> 0) \<longleftrightarrow> (\<exists>i. bit (w::u64) i \<and> bit f i)"
proof
  assume "w AND f \<noteq> 0"
  then obtain i where "bit (w AND f) i" using bit_word_eqI [of "w AND f" 0] by auto
  then show "\<exists>i. bit w i \<and> bit f i" by (auto simp: bit_and_iff)
next
  assume "\<exists>i. bit w i \<and> bit f i"
  then obtain i where "bit (w AND f) i" by (auto simp: bit_and_iff)
  then show "w AND f \<noteq> 0" by auto
qed

lemma flag_masks:
  "w AND MM_W_IN_USE \<noteq> 0 \<longleftrightarrow> bit w 0"
  "w AND MM_W_PREV_IN_USE \<noteq> 0 \<longleftrightarrow> bit w 1"
  "w AND MM_W_QUARANTINED \<noteq> 0 \<longleftrightarrow> bit w 2"
  by (simp_all add: word_and_nonzero)

lemma w_flags_bit:
  "w_is_used w = bit w 0" "w_prev_in_use w = bit w 1" "w_is_quarantined w = bit w 2"
  by (simp_all add: w_is_used_def w_prev_in_use_def w_is_quarantined_def flag_masks)

lemma word_masks: "MM_W_SLACK_MASK = mask 7" "MM_W_FLAGS_MASK = mask 10"
  "MM_W_SIZE_SHIFT = 10" "MM_W_SLACK_SHIFT = 3"
  by (simp_all add: MM_W_SLACK_MASK_def MM_W_SLACK_BITS_def MM_W_FLAGS_MASK_def MM_W_SIZE_SHIFT_def
      MM_W_SLACK_SHIFT_def mask_eq_exp_minus_1)

lemma bit_set_word:
  "bit (w_set_word w n s used quar) i \<longleftrightarrow>
     (i = 0 \<and> used) \<or> (i = 1 \<and> bit w 1) \<or> (i = 2 \<and> quar) \<or>
     (3 \<le> i \<and> i < 10 \<and> bit s (i - 3)) \<or> (10 \<le> i \<and> i < 64 \<and> bit (n div 16) (i - 10))"
  unfolding w_set_word_def Let_def word_masks
  by (auto simp: bit_or_iff bit_push_bit_iff bit_and_iff bit_mask_iff bit_of_nat_word)

lemma bit_set_block_size:
  "bit (w_set_block_size w n) i \<longleftrightarrow>
     (i < 10 \<and> bit w i) \<or> (10 \<le> i \<and> i < 64 \<and> bit (n div 16) (i - 10))"
  unfolding w_set_block_size_def word_masks
  by (auto simp: bit_or_iff bit_push_bit_iff bit_and_iff bit_mask_iff bit_of_nat_word)

lemma bit_set_prev_in_use:
  "bit (w_set_prev_in_use w used) i \<longleftrightarrow> (if i = 1 then used else bit w i)"
  unfolding w_set_prev_in_use_def
  by (auto simp: bit_or_iff bit_and_iff bit_not_iff dest: bit_imp_le_length)

lemma unat_eqI: "(\<And>i. i < 64 \<Longrightarrow> bit (w::u64) i = bit k i) \<Longrightarrow> k < 2 ^ 64 \<Longrightarrow> unat w = k"
proof -
  assume bits: "\<And>i. i < 64 \<Longrightarrow> bit w i = bit k i" and k: "k < 2 ^ 64"
  have "w = of_nat k" by (rule bit_word_eqI) (simp add: bits bit_of_nat_word)
  then show ?thesis using k by (simp add: unat_of_nat take_bit_nat_eq_self)
qed

lemma high_bits_nat: "(k::nat) < 2 ^ n \<Longrightarrow> bit k i \<Longrightarrow> i < n"
  by (metis bit_take_bit_iff take_bit_nat_eq_self_iff)

lemma w_block_size_eqI:
  assumes "\<And>i. i < 54 \<Longrightarrow> bit w (i + 10) = bit (n div 16) i" and "n < 2 ^ 58" and "16 dvd n"
  shows "w_block_size w = n"
proof -
  have small: "n div 16 < 2 ^ 54" using assms(2) by simp
  have "unat (drop_bit 10 w) = n div 16"
  proof (rule unat_eqI)
    fix i assume "i < (64::nat)"
    show "bit (drop_bit 10 w) i = bit (n div 16) i"
    proof (cases "i < 54")
      case True
      then show ?thesis using assms(1) [of i] by (simp add: bit_drop_bit_eq add.commute)
    next
      case False
      then have "\<not> bit w (10 + i)" "\<not> bit (n div 16) i"
        using high_bits_nat [OF small, of i] by (auto dest: bit_imp_le_length)
      then show ?thesis by (simp add: bit_drop_bit_eq)
    qed
  next
    show "n div 16 < 2 ^ 64" using small by (rule order_less_trans) simp
  qed
  then show ?thesis using assms(3) by (simp add: w_block_size_def word_masks)
qed

lemma w_slack_eqI:
  assumes "\<And>i. i < 7 \<Longrightarrow> bit w (i + 3) = bit s i" and "s < 128"
  shows "w_slack w = s"
proof -
  have small: "s < 2 ^ 7" using assms(2) by simp
  have "unat (drop_bit 3 w AND mask 7) = s"
  proof (rule unat_eqI)
    fix i assume "i < (64::nat)"
    show "bit (drop_bit 3 w AND mask 7) i = bit s i"
      using assms(1) [of i] high_bits_nat [OF small, of i]
      by (auto simp: bit_and_iff bit_mask_iff bit_drop_bit_eq add.commute)
  qed (use assms(2) in simp)
  then show ?thesis by (simp add: w_slack_def word_masks)
qed

lemma w_slack_lt [simp]: "w_slack w < 128"
proof -
  have "drop_bit 3 w AND mask 7 \<le> mask 7" by (rule word_and_le1)
  then show ?thesis by (simp add: w_slack_def word_masks word_le_nat_alt mask_eq_exp_minus_1)
qed

lemma set_word_fields:
  assumes "n < 2 ^ 58" and "16 dvd n" and "s < 128"
  shows "w_block_size (w_set_word w n s used quar) = n"
    and "w_slack (w_set_word w n s used quar) = s"
    and "w_is_used (w_set_word w n s used quar) = used"
    and "w_is_quarantined (w_set_word w n s used quar) = quar"
    and "w_prev_in_use (w_set_word w n s used quar) = w_prev_in_use w"
  using assms by (auto intro!: w_block_size_eqI w_slack_eqI simp: w_flags_bit bit_set_word)

lemma w_size_cong: "(\<And>i. 10 \<le> i \<Longrightarrow> bit w i = bit v i) \<Longrightarrow> w_block_size w = w_block_size v"
proof -
  assume *: "\<And>i. 10 \<le> i \<Longrightarrow> bit w i = bit v i"
  have "drop_bit 10 w = drop_bit 10 v" by (rule bit_word_eqI) (simp add: bit_drop_bit_eq *)
  then show ?thesis by (simp add: w_block_size_def word_masks)
qed

lemma w_slack_cong: "(\<And>i. 3 \<le> i \<Longrightarrow> i < 10 \<Longrightarrow> bit w i = bit v i) \<Longrightarrow> w_slack w = w_slack v"
proof -
  assume *: "\<And>i. 3 \<le> i \<Longrightarrow> i < 10 \<Longrightarrow> bit w i = bit v i"
  have "drop_bit 3 w AND mask 7 = drop_bit 3 v AND mask 7"
    by (rule bit_word_eqI) (auto simp: bit_and_iff bit_mask_iff bit_drop_bit_eq *)
  then show ?thesis by (simp add: w_slack_def word_masks)
qed

lemma set_block_size_fields:
  assumes "n < 2 ^ 58" and "16 dvd n"
  shows "w_block_size (w_set_block_size w n) = n"
    and "w_slack (w_set_block_size w n) = w_slack w"
    and "w_is_used (w_set_block_size w n) = w_is_used w"
    and "w_is_quarantined (w_set_block_size w n) = w_is_quarantined w"
    and "w_prev_in_use (w_set_block_size w n) = w_prev_in_use w"
  using assms by (auto intro!: w_block_size_eqI w_slack_cong simp: w_flags_bit bit_set_block_size)

lemma set_prev_in_use_fields [simp]:
  "w_block_size (w_set_prev_in_use w p) = w_block_size w"
  "w_slack (w_set_prev_in_use w p) = w_slack w"
  "w_is_used (w_set_prev_in_use w p) = w_is_used w"
  "w_is_quarantined (w_set_prev_in_use w p) = w_is_quarantined w"
  "w_prev_in_use (w_set_prev_in_use w p) = p"
  by (auto intro!: w_size_cong w_slack_cong simp: w_flags_bit bit_set_prev_in_use)

lemma w_block_size_bounds: "w_block_size w < 2 ^ 58" "16 dvd w_block_size w"
proof -
  have "unat (drop_bit 10 w) < 2 ^ 54"
    using unsigned_less [of w, where 'a = nat] by (simp add: unat_div less_mult_imp_div_less drop_bit_eq_div)
  then show "w_block_size w < 2 ^ 58" by (simp add: w_block_size_def word_masks)
qed (simp add: w_block_size_def)

section \<open>Rounding and request sizes\<close>

lemma unat_and_not_mask: "k < 64 \<Longrightarrow> unat ((x::u64) AND NOT (mask k)) = unat x div 2 ^ k * 2 ^ k"
proof -
  assume k: "k < 64"
  have eq: "x AND NOT (mask k) = push_bit k (drop_bit k x)"
    by (rule bit_word_eqI) (auto simp: bit_and_iff bit_not_iff bit_mask_iff bit_push_bit_iff bit_drop_bit_eq)
  have "unat x div 2 ^ k * 2 ^ k \<le> unat x" by simp
  moreover have "unat x < 2 ^ 64" using unsigned_less [of x, where 'a = nat] by simp
  ultimately have lt: "unat x div 2 ^ k * 2 ^ k < 2 ^ 64" by (rule le_less_trans)
  have "unat (push_bit k (drop_bit k x)) = take_bit 64 (push_bit k (drop_bit k (unat x)))"
    using \<open>unat x < 2 ^ 64\<close> by (simp only: unsigned_push_bit_eq unsigned_drop_bit_eq) (simp add: take_bit_nat_eq_self)
  also have "\<dots> = unat x div 2 ^ k * 2 ^ k"
    using lt by (simp only: push_bit_eq_mult drop_bit_eq_div take_bit_nat_eq_self)
  finally show ?thesis unfolding eq .
qed

lemma of_nat_pow_mask: "of_nat (2 ^ k) - 1 = (mask k :: u64)"
  by (simp add: mask_eq_exp_minus_1)

lemma mm_round_up_pow2:
  assumes "k < 64" and "n + 2 ^ k - 1 < 2 ^ 64"
  shows "mm_round_up n (2 ^ k) = (n + 2 ^ k - 1) div 2 ^ k * 2 ^ k"
proof -
  have "of_nat n + of_nat (2 ^ k) - 1 = (of_nat (n + 2 ^ k - 1) :: u64)"
    by (subst of_nat_diff) (simp_all add: Suc_le_eq)
  moreover have "unat (of_nat (n + 2 ^ k - 1) :: u64) = n + 2 ^ k - 1"
    using assms(2) by (simp only: unat_of_nat take_bit_nat_eq_self len_bit0) simp
  ultimately show ?thesis
    unfolding mm_round_up_def of_nat_pow_mask using assms(1) by (simp add: unat_and_not_mask)
qed

lemma mm_round_up_16: "n + 15 < 2 ^ 64 \<Longrightarrow> mm_round_up n 16 = (n + 15) div 16 * 16"
  using mm_round_up_pow2 [of 4 n] by simp

lemma mm_size_for_eq:
  assumes "p \<le> SIZE_MAX - MM_HDR_SIZE c - MM_TRAIL c - 16"
  shows "mm_size_for c p = max (MM_MIN_BLOCK c) ((p + MM_HDR_SIZE c + MM_TRAIL c + 15) div 16 * 16)"
proof -
  have "MM_HDR_SIZE c + MM_TRAIL c + 16 \<le> 56" using layout_bounds [of c] by linarith
  then have "p + MM_HDR_SIZE c + MM_TRAIL c + 15 < 2 ^ 64" using assms by (simp add: SIZE_MAX_def)
  then show ?thesis using assms mm_round_up_16 [of "p + MM_HDR_SIZE c + MM_TRAIL c"]
    by (simp add: mm_size_for_def Let_def)
qed

lemma mm_size_for_zero_iff: "mm_size_for c p = 0 \<longleftrightarrow> p > SIZE_MAX - MM_HDR_SIZE c - MM_TRAIL c - 16"
proof (cases "p > SIZE_MAX - MM_HDR_SIZE c - MM_TRAIL c - 16")
  case False
  then show ?thesis using mm_size_for_eq [of p c] layout_bounds(6) [of c] by simp
qed (simp add: mm_size_for_def)

lemma mm_size_for_bounds:
  assumes "mm_size_for c p \<noteq> 0"
  shows "16 dvd mm_size_for c p" and "MM_MIN_BLOCK c \<le> mm_size_for c p"
    and "p + MM_HDR_SIZE c + MM_TRAIL c \<le> mm_size_for c p"
    and "0 < p \<Longrightarrow> mm_size_for c p - MM_HDR_SIZE c - p \<le> MM_SLACK_CARVED c"
    and "mm_size_for c p < 2 ^ 64"
proof -
  let ?n = "(p + MM_HDR_SIZE c + MM_TRAIL c + 15) div 16 * 16"
  have p: "p \<le> SIZE_MAX - MM_HDR_SIZE c - MM_TRAIL c - 16"
    using assms mm_size_for_zero_iff [of c p] by simp
  note eq = mm_size_for_eq [OF p]
  have n: "p + MM_HDR_SIZE c + MM_TRAIL c \<le> ?n" "?n \<le> p + MM_HDR_SIZE c + MM_TRAIL c + 15"
    by linarith+
  show "16 dvd mm_size_for c p" using layout_bounds(7) [of c] by (simp add: eq max_def)
  show "MM_MIN_BLOCK c \<le> mm_size_for c p" by (simp add: eq)
  show "p + MM_HDR_SIZE c + MM_TRAIL c \<le> mm_size_for c p" using n by (simp add: eq)
  have "MM_HDR_SIZE c + MM_TRAIL c + 16 \<le> 56" using layout_bounds [of c] by linarith
  then have "p + MM_HDR_SIZE c + MM_TRAIL c + 15 < 2 ^ 64" using p by (simp add: SIZE_MAX_def)
  then have "?n < 2 ^ 64" using n by linarith
  then show "mm_size_for c p < 2 ^ 64" using layout_bounds(5) [of c] by (simp only: eq) simp
  assume "0 < p"
  then have "MM_MIN_BLOCK c - MM_HDR_SIZE c - p \<le> MM_SLACK_CARVED c"
    and "MM_TRAIL c + 15 \<le> MM_SLACK_CARVED c"
    by (cases c rule: layout_cases; simp)+
  then show "mm_size_for c p - MM_HDR_SIZE c - p \<le> MM_SLACK_CARVED c"
    using n eq by linarith
qed

section \<open>Reading headers and links back\<close>

lemma set_word_at_word [simp]: "mm_word (set_word_at m b w) b = w"
  by (simp add: mm_word_def set_word_at_def)

lemma crc_fields_frame [mem_simps]:
  "mm_word (set_hdr_crc m b v) b = mm_word m b"
  "mm_word (set_payload_crc m b v) b = mm_word m b"
  "payload_crc (set_word_at m b w) b = payload_crc m b"
  "hdr_crc (set_word_at m b w) b = hdr_crc m b"
  "payload_crc (set_hdr_crc m b v) b = payload_crc m b"
  "hdr_crc (set_payload_crc m b v) b = hdr_crc m b"
  "hdr_crc (set_hdr_crc m b v) b = v"
  "payload_crc (set_payload_crc m b v) b = v"
  by (simp_all add: mm_word_def set_hdr_crc_def set_payload_crc_def payload_crc_def hdr_crc_def
      set_word_at_def mem_simps)

lemma free_link_roundtrip [simp]:
  assumes "p < 2 ^ 64"
  shows "mm_free_link_get c (mm_free_link_set c m b which p s) b which s = p"
proof -
  have "(of_nat p XOR s) XOR s = (of_nat p :: u64)"
    by (rule bit_word_eqI) (auto simp: bit_xor_iff)
  moreover have "unat (of_nat p :: u64) = p" using assms by (simp add: unat_of_nat take_bit_nat_eq_self)
  ultimately have "unat ((of_nat p XOR s) XOR s) = p" by simp
  then show ?thesis by (simp add: mm_free_link_get_def mm_free_link_set_def Let_def)
qed

lemma dvd_gap:
  fixes a :: nat
  assumes "d dvd a" "d dvd b" "d dvd e" "b \<le> a" "a < b + e"
  shows "a - b + d \<le> e"
proof -
  have "d dvd b + e - a" using assms by (simp add: dvd_diff_nat)
  then have "d \<le> b + e - a" using assms(5) by (intro dvd_imp_le) simp_all
  then show ?thesis using assms(4,5) by simp
qed

lemma mm_requested_in_block:
  assumes "MM_HDR_SIZE c \<le> w_block_size w"
  shows "MM_HDR_SIZE c + w_requested_size c w \<le> w_block_size w"
  using assms by (auto simp: w_requested_size_def Let_def)

section \<open>Properties\<close>

text \<open>C28 (functional). \<^verbatim>\<open>mm_size_for\<close> on every branch: it returns 0 exactly when adding header,
  trailer and rounding would overflow a \<^verbatim>\<open>size_t\<close>; otherwise the block size is a multiple of 16, at
  least \<^verbatim>\<open>MM_MIN_BLOCK\<close>, below 2^64, large enough for header, payload and trailer, and for a
  non-empty request wastes at most \<^verbatim>\<open>MM_SLACK_CARVED\<close> bytes.\<close>

theorem size_for_correct:
  "(mm_size_for c p = 0 \<longleftrightarrow> p + MM_HDR_SIZE c + MM_TRAIL c + 16 > SIZE_MAX) \<and>
   (mm_size_for c p \<noteq> 0 \<longrightarrow>
      16 dvd mm_size_for c p \<and> MM_MIN_BLOCK c \<le> mm_size_for c p \<and> mm_size_for c p < 2 ^ 64 \<and>
      p + MM_HDR_SIZE c + MM_TRAIL c \<le> mm_size_for c p \<and>
      (0 < p \<longrightarrow> mm_size_for c p - MM_HDR_SIZE c - p \<le> MM_SLACK_CARVED c))"
proof -
  have "MM_HDR_SIZE c + MM_TRAIL c + 16 \<le> SIZE_MAX"
    using layout_bounds [of c] by (simp add: SIZE_MAX_def)
  then have "(p > SIZE_MAX - MM_HDR_SIZE c - MM_TRAIL c - 16) =
      (p + MM_HDR_SIZE c + MM_TRAIL c + 16 > SIZE_MAX)" by linarith
  then show ?thesis using mm_size_for_zero_iff [of c p] mm_size_for_bounds [of c p] by blast
qed

theorem size_for_correct_witness:
  "mm_size_for (build Hardened) 100 = 128 \<and>
   16 dvd mm_size_for (build Hardened) 100"
proof -
  let ?c = "build Hardened"
  have eq: "mm_size_for ?c 100 = 128"
    by (simp add: mm_size_for_def layout_defs SIZE_MAX_def mm_round_up_16)
  show ?thesis using eq size_for_correct [of ?c 100] by simp
qed

text \<open>C29 (roundtrip). The caller's exact request survives being stored only as a 7-bit slack: for
  every non-empty request and every extent the splitting rule can leave it in (at least the size
  \<^verbatim>\<open>mm_size_for\<close> asks for, less than \<^verbatim>\<open>MM_MIN_BLOCK\<close> above it), the slack fits the field and
  \<^verbatim>\<open>mm_requested_size\<close> recovers the request from the control word \<^verbatim>\<open>mm_set_word\<close> built, together
  with the extent and both flags.\<close>

theorem requested_size_roundtrip:
  assumes "0 < p" and "mm_size_for c p \<noteq> 0"
    and "mm_size_for c p \<le> tot" and "tot < mm_size_for c p + MM_MIN_BLOCK c"
    and "16 dvd tot" and "tot < 2 ^ 58"
  shows "tot - MM_HDR_SIZE c - p \<le> MM_SLACK_MAX c \<and>
    w_requested_size c (w_set_word w tot (tot - MM_HDR_SIZE c - p) True quar) = p \<and>
    w_block_size (w_set_word w tot (tot - MM_HDR_SIZE c - p) True quar) = tot \<and>
    w_is_used (w_set_word w tot (tot - MM_HDR_SIZE c - p) True quar) \<and>
    w_prev_in_use (w_set_word w tot (tot - MM_HDR_SIZE c - p) True quar) = w_prev_in_use w"
proof -
  note b = mm_size_for_bounds [OF assms(2)]
  have "tot - mm_size_for c p \<le> MM_MIN_BLOCK c - 16"
    using dvd_gap [OF assms(5) b(1) layout_bounds(7) [of c]] assms(3,4) by linarith
  then have slack: "tot - MM_HDR_SIZE c - p \<le> MM_SLACK_MAX c"
    using b(3) b(4) [OF assms(1)] assms(3) layout_bounds(6) [of c] by (simp add: MM_SLACK_MAX_def)
  then have "tot - MM_HDR_SIZE c - p < 128" using layout_bounds(8) [of c] by linarith
  note fields = set_word_fields [OF assms(6,5) this, of w True quar]
  have "MM_HDR_SIZE c + p \<le> tot" using b(3) assms(3) by linarith
  then show ?thesis using slack fields by (auto simp: w_requested_size_def Let_def)
qed

theorem requested_size_roundtrip_witness:
  "w_requested_size (build Paranoid)
     (w_set_word 0 80 63 True False) = 1"
proof -
  let ?c = "build Paranoid"
  have eq: "mm_size_for ?c 1 = 48" "MM_HDR_SIZE ?c = 16" "MM_MIN_BLOCK ?c = 48"
    by (simp_all add: mm_size_for_def layout_defs SIZE_MAX_def mm_round_up_16)
  show ?thesis using requested_size_roundtrip [of 1 ?c 80 0 False] eq by simp
qed



end
