(* ===== verification/Mars_State.thy ===== *)
theory Mars_State
  imports Mars_Layout
begin

unbundle bit_operations_syntax

text \<open>
  The state every operation of the allocator works on, from \<^verbatim>\<open>src/mm_internal.h\<close> (spans, arenas),
  \<^verbatim>\<open>include/mars/allocator.h\<close> (statuses, modes, counters), the file-scope variables of
  \<^verbatim>\<open>src/mm_arena.c\<close>, \<^verbatim>\<open>src/mm_integrity.c\<close>, \<^verbatim>\<open>src/mm_core.c\<close> and \<^verbatim>\<open>src/mm_lock.c\<close>, the counters of
  \<^verbatim>\<open>src/mm_stats.c\<close>, and the platform provider at the top of \<^verbatim>\<open>src/mm_arena.c\<close>.

  A pointer is a natural number and \<^verbatim>\<open>NULL\<close> is 0. Blocks live in the byte memory \<open>mem\<close>; span
  descriptors and arenas are outside it, in the maps \<open>descs\<close> and \<open>arenas\<close> from address to record,
  because the program keeps them in memory no block overlaps. The \<^verbatim>\<open>next\<close> chains of spans, of
  pooled descriptors, of arenas and of orphans are lists. \<open>mm_self\<close> is the calling thread's arena;
  where the program is built with a single arena it is that arena throughout. What the operating
  system answers is part of the state: the addresses \<^verbatim>\<open>mmap\<close> will return (0 for
  \<^verbatim>\<open>MAP_FAILED\<close>), the page size, whether \<^verbatim>\<open>madvise\<close> succeeds, and the three values the secret is drawn
  from.
\<close>

section \<open>Statuses, modes, counters\<close>

datatype mm_status =
    MM_OK | MM_ERR_NOT_INITIALIZED | MM_ERR_BAD_ARENA | MM_ERR_INVALID_PTR | MM_ERR_OOB
  | MM_ERR_CORRUPT_HEADER | MM_ERR_CORRUPT_CANARY | MM_ERR_CORRUPT_PAYLOAD | MM_ERR_CORRUPT_LINKS
  | MM_ERR_DOUBLE_FREE | MM_ERR_NOMEM | MM_ERR_QUARANTINED | MM_ERR_DEGRADED

datatype mm_mode = MM_MODE_MANAGED | MM_MODE_LIBC

record mm_stats =
  alloc_calls :: u64
  alloc_failures :: u64
  free_calls :: u64
  realloc_calls :: u64
  live_blocks :: u64
  live_payload_bytes :: u64
  live_block_bytes :: u64
  peak_block_bytes :: u64
  peak_payload_bytes :: u64
  peak_blocks :: u64
  quarantined_blocks :: u64
  quarantined_bytes :: u64
  repaired_blocks :: u64
  repaired_bytes :: u64
  scrub_passes :: u64
  scrub_blocks :: u64
  scrub_detections :: u64

definition stats_zero :: mm_stats where
  "stats_zero = \<lparr>alloc_calls = 0, alloc_failures = 0, free_calls = 0, realloc_calls = 0,
     live_blocks = 0, live_payload_bytes = 0, live_block_bytes = 0, peak_block_bytes = 0,
     peak_payload_bytes = 0, peak_blocks = 0, quarantined_blocks = 0, quarantined_bytes = 0,
     repaired_blocks = 0, repaired_bytes = 0, scrub_passes = 0, scrub_blocks = 0,
     scrub_detections = 0\<rparr>"

datatype mm_stats_event =
    MM_STAT_ALLOC | MM_STAT_ALLOC_FAILED | MM_STAT_FREE | MM_STAT_REALLOC
  | MM_STAT_QUARANTINE | MM_STAT_REPAIR | MM_STAT_SCRUB | MM_STAT_SCRUB_HIT

section \<open>Spans and arenas\<close>

datatype mm_span_kind = MM_SPAN_USER | MM_SPAN_CHUNK | MM_SPAN_LARGE

record mm_span =
  magic :: u64
  lo :: nat
  hi :: nat
  owner :: nat
  index_base :: u64
  map_base :: nat
  map_size :: nat
  kind :: mm_span_kind
  fresh :: bool
  trim_after :: u64

definition MM_SPAN_MAGIC :: u64 where
  "MM_SPAN_MAGIC = 0x5350414E5F4D4152"

definition mm_span_magic_for :: "nat \<Rightarrow> u64" where
  "mm_span_magic_for s = MM_SPAN_MAGIC XOR of_nat s"

definition span_zero :: mm_span where
  "span_zero = \<lparr>magic = 0, lo = 0, hi = 0, owner = 0, index_base = 0, map_base = 0, map_size = 0,
     kind = MM_SPAN_USER, fresh = False, trim_after = 0\<rparr>"

record mm_remote_cell =
  seq :: u32
  ptr :: nat

record mm_arena =
  spans :: "nat list"
  span_count :: nat
  total_bytes :: nat
  span_cache :: nat
  next_index_base :: u64
  bins :: "nat \<Rightarrow> nat"
  bin_bitmap :: "nat \<Rightarrow> u64"
  secret :: u64
  lost_bytes :: nat
  scrub_span :: nat
  scrub_at :: nat
  growable :: bool
  fresh_spans :: nat
  ops :: u64
  mode :: mm_mode
  stats :: mm_stats
  ops_since_scrub :: nat
  remote_head :: u32
  remote_tail :: u32
  remote :: "nat \<Rightarrow> mm_remote_cell"
  claimed :: bool
  epoch :: u64

definition arena_zero :: mm_arena where
  "arena_zero = \<lparr>spans = [], span_count = 0, total_bytes = 0, span_cache = 0, next_index_base = 0,
     bins = (\<lambda>_. 0), bin_bitmap = (\<lambda>_. 0), secret = 0, lost_bytes = 0, scrub_span = 0,
     scrub_at = 0, growable = False, fresh_spans = 0, ops = 0, mode = MM_MODE_MANAGED,
     stats = stats_zero, ops_since_scrub = 0, remote_head = 0, remote_tail = 0,
     remote = (\<lambda>_. \<lparr>seq = 0, ptr = 0\<rparr>), claimed = False, epoch = 0\<rparr>"

section \<open>The machine state\<close>

record mm_unit_slot =
  unit_no :: u64
  unit_span :: nat

record mm_index =
  slot :: "nat \<Rightarrow> mm_unit_slot"
  cap :: nat

record mm_state =
  mem :: bytes
  descs :: "nat \<Rightarrow> mm_span"
  arenas :: "nat \<Rightarrow> mm_arena"
  mm_self :: nat
  g_arenas :: "nat list"
  g_orphans :: "nat list"
  g_arena_count :: nat
  g_arena_epoch :: u64
  g_user :: nat
  g_index :: mm_index
  g_index_used :: nat
  g_index_live :: nat
  g_span_pool :: "nat list"
  g_span_slab :: nat
  g_span_slab_left :: nat
  g_last_error :: mm_status
  g_mode_default :: mm_mode
  g_scrub_interval :: nat
  g_scrub_budget :: nat
  g_pinned_secret :: u64
  os_map :: "nat list"
  os_page :: int
  os_madvise_ok :: bool
  os_unmapped :: "(nat \<times> nat) list"
  os_entropy :: "u64 \<times> u64 \<times> u64"

text \<open>The address of the arena the process starts on, and of the static descriptor of a
  caller-supplied buffer.\<close>

definition g_main_arena :: nat where
  "g_main_arena = 1"

definition user_desc :: nat where
  "user_desc = 2"

definition g_arena :: "mm_state \<Rightarrow> mm_arena" where
  "g_arena st = arenas st (mm_self st)"

definition upd_arena :: "(mm_arena \<Rightarrow> mm_arena) \<Rightarrow> mm_state \<Rightarrow> mm_state" where
  "upd_arena f st = st\<lparr>arenas := (arenas st)(mm_self st := f (g_arena st))\<rparr>"

definition upd_mem :: "(bytes \<Rightarrow> bytes) \<Rightarrow> mm_state \<Rightarrow> mm_state" where
  "upd_mem f st = st\<lparr>mem := f (mem st)\<rparr>"

definition upd_desc :: "nat \<Rightarrow> (mm_span \<Rightarrow> mm_span) \<Rightarrow> mm_state \<Rightarrow> mm_state" where
  "upd_desc s f st = st\<lparr>descs := (descs st)(s := f (descs st s))\<rparr>"

definition mm_arena_live :: "mm_state \<Rightarrow> bool" where
  "mm_arena_live st \<longleftrightarrow> spans (g_arena st) \<noteq> []"

definition mm_sole_span :: "mm_state \<Rightarrow> nat" where
  "mm_sole_span st = (case spans (g_arena st) of [] \<Rightarrow> 0 | s # _ \<Rightarrow> s)"

section \<open>Status reporting\<close>

definition mm_last_error :: "mm_state \<Rightarrow> mm_status" where
  "mm_last_error st = g_last_error st"

definition mm_fail :: "mm_status \<Rightarrow> mm_state \<Rightarrow> mm_state" where
  "mm_fail e st = st\<lparr>g_last_error := e\<rparr>"

definition mm_clear_error :: "mm_state \<Rightarrow> mm_state" where
  "mm_clear_error st = st\<lparr>g_last_error := MM_OK\<rparr>"

fun mm_strerror :: "mm_status \<Rightarrow> string" where
  "mm_strerror MM_OK = ''ok''"
| "mm_strerror MM_ERR_NOT_INITIALIZED = ''allocator not initialized''"
| "mm_strerror MM_ERR_BAD_ARENA = ''arena rejected''"
| "mm_strerror MM_ERR_INVALID_PTR = ''pointer not from this arena''"
| "mm_strerror MM_ERR_OOB = ''range outside payload''"
| "mm_strerror MM_ERR_CORRUPT_HEADER = ''block header corrupted''"
| "mm_strerror MM_ERR_CORRUPT_CANARY = ''payload overflowed its block''"
| "mm_strerror MM_ERR_CORRUPT_PAYLOAD = ''payload does not match checksum''"
| "mm_strerror MM_ERR_CORRUPT_LINKS = ''block list inconsistent''"
| "mm_strerror MM_ERR_DOUBLE_FREE = ''block already free''"
| "mm_strerror MM_ERR_NOMEM = ''no block large enough''"
| "mm_strerror MM_ERR_QUARANTINED = ''block quarantined''"
| "mm_strerror MM_ERR_DEGRADED = ''intact; payload unchecked in this mode''"

definition mm_mode_default :: "mm_state \<Rightarrow> mm_mode" where
  "mm_mode_default st = g_mode_default st"

definition mm_payload_crc_live :: "mm_config \<Rightarrow> mm_state \<Rightarrow> bool" where
  "mm_payload_crc_live c st \<longleftrightarrow> MM_HAS_CRC c \<and> mode (g_arena st) = MM_MODE_MANAGED"

section \<open>Counters\<close>

definition mm_stats_block_added :: "nat \<Rightarrow> nat \<Rightarrow> mm_stats \<Rightarrow> mm_stats" where
  "mm_stats_block_added block_bytes payload_bytes s =
     (let s = s\<lparr>live_blocks := live_blocks s + 1,
                live_payload_bytes := live_payload_bytes s + of_nat payload_bytes,
                live_block_bytes := live_block_bytes s + of_nat block_bytes\<rparr>
      in if live_block_bytes s > peak_block_bytes s
         then s\<lparr>peak_block_bytes := live_block_bytes s,
                peak_payload_bytes := live_payload_bytes s,
                peak_blocks := live_blocks s\<rparr>
         else s)"

definition mm_stats_block_removed :: "nat \<Rightarrow> nat \<Rightarrow> mm_stats \<Rightarrow> mm_stats" where
  "mm_stats_block_removed block_bytes payload_bytes s =
     s\<lparr>live_blocks := (if live_blocks s > 0 then live_blocks s - 1 else live_blocks s),
       live_payload_bytes :=
         (if live_payload_bytes s \<ge> of_nat payload_bytes
          then live_payload_bytes s - of_nat payload_bytes else 0),
       live_block_bytes :=
         (if live_block_bytes s \<ge> of_nat block_bytes
          then live_block_bytes s - of_nat block_bytes else 0)\<rparr>"

fun mm_stats_note :: "mm_stats_event \<Rightarrow> nat \<Rightarrow> mm_stats \<Rightarrow> mm_stats" where
  "mm_stats_note MM_STAT_ALLOC n s = s\<lparr>alloc_calls := alloc_calls s + 1\<rparr>"
| "mm_stats_note MM_STAT_ALLOC_FAILED n s = s\<lparr>alloc_failures := alloc_failures s + 1\<rparr>"
| "mm_stats_note MM_STAT_FREE n s = s\<lparr>free_calls := free_calls s + 1\<rparr>"
| "mm_stats_note MM_STAT_REALLOC n s = s\<lparr>realloc_calls := realloc_calls s + 1\<rparr>"
| "mm_stats_note MM_STAT_QUARANTINE n s =
     s\<lparr>quarantined_blocks := quarantined_blocks s + 1,
       quarantined_bytes := quarantined_bytes s + of_nat n\<rparr>"
| "mm_stats_note MM_STAT_REPAIR n s =
     s\<lparr>repaired_blocks := repaired_blocks s + 1, repaired_bytes := repaired_bytes s + of_nat n\<rparr>"
| "mm_stats_note MM_STAT_SCRUB n s =
     s\<lparr>scrub_passes := scrub_passes s + 1, scrub_blocks := scrub_blocks s + of_nat n\<rparr>"
| "mm_stats_note MM_STAT_SCRUB_HIT n s = s\<lparr>scrub_detections := scrub_detections s + of_nat n\<rparr>"

definition upd_stats :: "mm_config \<Rightarrow> (mm_stats \<Rightarrow> mm_stats) \<Rightarrow> mm_state \<Rightarrow> mm_state" where
  "upd_stats c f st = (if cfg_stats c then upd_arena (\<lambda>a. a\<lparr>stats := f (stats a)\<rparr>) st else st)"

definition MM_STAT_ADD :: "mm_config \<Rightarrow> nat \<Rightarrow> mm_state \<Rightarrow> mm_state" where
  "MM_STAT_ADD c b st =
     upd_stats c (mm_stats_block_added (mm_block_size (mem st) b) (mm_requested_size c (mem st) b)) st"

definition MM_STAT_SUB :: "mm_config \<Rightarrow> nat \<Rightarrow> mm_state \<Rightarrow> mm_state" where
  "MM_STAT_SUB c b st =
     upd_stats c (mm_stats_block_removed (mm_block_size (mem st) b) (mm_requested_size c (mem st) b)) st"

definition MM_STAT_NOTE :: "mm_config \<Rightarrow> mm_stats_event \<Rightarrow> nat \<Rightarrow> mm_state \<Rightarrow> mm_state" where
  "MM_STAT_NOTE c e n st = upd_stats c (mm_stats_note e n) st"

definition stats_add :: "mm_stats \<Rightarrow> mm_stats \<Rightarrow> mm_stats" where
  "stats_add out s =
     out\<lparr>alloc_calls := alloc_calls out + alloc_calls s,
         alloc_failures := alloc_failures out + alloc_failures s,
         free_calls := free_calls out + free_calls s,
         realloc_calls := realloc_calls out + realloc_calls s,
         live_blocks := live_blocks out + live_blocks s,
         live_payload_bytes := live_payload_bytes out + live_payload_bytes s,
         live_block_bytes := live_block_bytes out + live_block_bytes s,
         peak_block_bytes := peak_block_bytes out + peak_block_bytes s,
         peak_payload_bytes := peak_payload_bytes out + peak_payload_bytes s,
         peak_blocks := peak_blocks out + peak_blocks s,
         quarantined_blocks := quarantined_blocks out + quarantined_blocks s,
         quarantined_bytes := quarantined_bytes out + quarantined_bytes s,
         repaired_blocks := repaired_blocks out + repaired_blocks s,
         repaired_bytes := repaired_bytes out + repaired_bytes s,
         scrub_passes := scrub_passes out + scrub_passes s,
         scrub_blocks := scrub_blocks out + scrub_blocks s,
         scrub_detections := scrub_detections out + scrub_detections s\<rparr>"

text \<open>The arenas, oldest first; one only where the build has no per-thread arenas.\<close>

definition mm_arena_list :: "mm_config \<Rightarrow> mm_state \<Rightarrow> nat list" where
  "mm_arena_list c st = (if cfg_lock c = MM_LOCK_ARENA then g_arenas st else [g_main_arena])"

definition mm_stats_get :: "mm_config \<Rightarrow> mm_state \<Rightarrow> mm_stats" where
  "mm_stats_get c st =
     (if cfg_stats c
      then foldl (\<lambda>out a. stats_add out (stats (arenas st a))) stats_zero (mm_arena_list c st)
      else stats_zero)"

definition mm_stats_reset :: "mm_config \<Rightarrow> mm_state \<Rightarrow> mm_state" where
  "mm_stats_reset c st =
     (if cfg_stats c
      then foldl (\<lambda>st a. st\<lparr>arenas := (arenas st)(a := (arenas st a)\<lparr>stats := stats_zero\<rparr>)\<rparr>) st
             (mm_arena_list c st)
      else st)"

section \<open>The platform provider\<close>

definition sys_map :: "nat \<Rightarrow> mm_state \<Rightarrow> nat \<times> mm_state" where
  "sys_map n st =
     (case os_map st of
        [] \<Rightarrow> (0, st)
      | p # ps \<Rightarrow> (p, (if p = 0 then st else upd_mem (\<lambda>m. mem_fill m p n 0) st)\<lparr>os_map := ps\<rparr>))"

definition sys_unmap :: "nat \<Rightarrow> nat \<Rightarrow> mm_state \<Rightarrow> mm_state" where
  "sys_unmap p n st = (if p \<noteq> 0 \<and> n \<noteq> 0 then st\<lparr>os_unmapped := (p, n) # os_unmapped st\<rparr> else st)"

definition sys_page_size :: "mm_state \<Rightarrow> nat" where
  "sys_page_size st = (if os_page st > 0 then nat (os_page st) else 4096)"

definition mm_arena_can_grow :: bool where
  "mm_arena_can_grow \<longleftrightarrow> True"

definition mm_arena_release_pages :: "nat \<Rightarrow> nat \<Rightarrow> mm_state \<Rightarrow> mm_state" where
  "mm_arena_release_pages from to st =
     (if from = 0 \<or> to \<le> from then st
      else let page = sys_page_size st;
               first = mm_round_up from page;
               last = unat ((of_nat to :: u64) AND NOT (of_nat page - 1))
           in if last \<le> first then st
              else if os_madvise_ok st then upd_mem (\<lambda>m. mem_fill m first (last - first) 0) st
              else st)"

definition mm_sys_alloc :: "nat \<Rightarrow> mm_state \<Rightarrow> nat \<times> mm_state" where
  "mm_sys_alloc n st = sys_map (mm_round_up n (sys_page_size st)) st"

end
