(* ===== verification/Mars_Registry.thy ===== *)
theory Mars_Registry
  imports Mars_State
begin

unbundle bit_operations_syntax

text \<open>
  The span registry of \<^verbatim>\<open>src/mm_arena.c\<close>: the open-addressed unit index with its tombstones and its
  rehash, the pool of span descriptors, registration, and the lookup every operation starts from,
  with the geometry helpers of \<^verbatim>\<open>src/mm_internal.h\<close> that read a descriptor.

  The table is read by a single reader here, so the outer loop of \<^verbatim>\<open>index_find\<close>, which retries when
  the table was replaced during the probe, ends at its first iteration. \<^verbatim>\<open>index_put\<close> has no bound on
  its probe; \<open>index_put_at\<close> has one probe per slot and answers \<^const>\<open>None\<close> where the source would
  loop for ever, and \<open>index_put_returns\<close> shows that this does not happen while one slot is
  empty.
  \<^verbatim>\<open>mm_span_of\<close> is modelled as the answer alone; the cache write of \<^verbatim>\<open>mm_span_lookup\<close> is a
  separate definition and is shown not to change any later answer.
\<close>

section \<open>The unit index\<close>

definition MM_CHUNK_SHIFT :: nat where "MM_CHUNK_SHIFT = 21"
definition MM_CHUNK_SIZE :: nat where "MM_CHUNK_SIZE = 2 ^ MM_CHUNK_SHIFT"
definition MM_LARGE_THRESHOLD :: nat where "MM_LARGE_THRESHOLD = MM_CHUNK_SIZE div 2"
definition MM_DONTNEED_MIN :: nat where "MM_DONTNEED_MIN = MM_CHUNK_SIZE div 2"
definition MM_TRIM_INTERVAL :: u64 where "MM_TRIM_INTERVAL = 1024"

definition MM_UNIT_TOMB :: nat where "MM_UNIT_TOMB = 1"
definition MM_INDEX_STATIC :: nat where "MM_INDEX_STATIC = 1024"

definition index_empty :: "nat \<Rightarrow> mm_index" where
  "index_empty n = \<lparr>slot = (\<lambda>_. \<lparr>unit_no = 0, unit_span = 0\<rparr>), cap = n\<rparr>"

definition unit_of :: "nat \<Rightarrow> u64" where
  "unit_of p = drop_bit MM_CHUNK_SHIFT (of_nat p)"

definition slot_for :: "u64 \<Rightarrow> nat \<Rightarrow> nat" where
  "slot_for u n =
     (let z = u + 0x9E3779B97F4A7C15;
          z = (z XOR drop_bit 30 z) * 0xBF58476D1CE4E5B9;
          z = (z XOR drop_bit 27 z) * 0x94D049BB133111EB;
          z = z XOR drop_bit 31 z
      in unat z AND (n - 1))"

fun index_put_at :: "nat \<Rightarrow> mm_index \<Rightarrow> nat \<Rightarrow> u64 \<Rightarrow> nat \<Rightarrow> mm_index option" where
  "index_put_at 0 ix i u s = None"
| "index_put_at (Suc k) ix i u s =
     (let held = unit_span (slot ix i)
      in if held = 0
         then Some (ix\<lparr>slot := (slot ix)(i := \<lparr>unit_no = u, unit_span = s\<rparr>)\<rparr>)
         else if held \<noteq> MM_UNIT_TOMB \<and> unit_no (slot ix i) = u
         then Some (ix\<lparr>slot := (slot ix)(i := (slot ix i)\<lparr>unit_span := s\<rparr>)\<rparr>)
         else index_put_at k ix ((i + 1) AND (cap ix - 1)) u s)"

definition index_put :: "mm_index \<Rightarrow> u64 \<Rightarrow> nat \<Rightarrow> mm_index" where
  "index_put ix u s =
     (case index_put_at (cap ix) ix (slot_for u (cap ix)) u s of Some ix' \<Rightarrow> ix' | None \<Rightarrow> ix)"

function rehash_cap :: "nat \<Rightarrow> nat \<Rightarrow> nat" where
  "rehash_cap live n = (if 0 < n \<and> n < (live + 1) * 4 then rehash_cap live (n * 2) else n)"
  by pat_completeness auto
termination by (relation "measure (\<lambda>(live, n). (live + 1) * 4 - n)") auto

declare rehash_cap.simps [simp del]

definition index_copy :: "mm_index \<Rightarrow> mm_index \<Rightarrow> mm_index" where
  "index_copy old ix =
     foldl (\<lambda>ix i. let s = unit_span (slot old i)
              in if s \<noteq> 0 \<and> s \<noteq> MM_UNIT_TOMB then index_put ix (unit_no (slot old i)) s else ix)
       ix [0..<cap old]"

definition index_rehash :: "mm_state \<Rightarrow> bool \<times> mm_state" where
  "index_rehash st =
     (let n = rehash_cap (g_index_live st) MM_INDEX_STATIC;
          (p, st) = mm_sys_alloc (16 + n * 16) st
      in if p = 0 then (False, st)
         else (True, st\<lparr>g_index := index_copy (g_index st) (index_empty n),
                        g_index_used := g_index_live st\<rparr>))"

definition index_add :: "u64 \<Rightarrow> nat \<Rightarrow> mm_state \<Rightarrow> bool \<times> mm_state" where
  "index_add u s st =
     (let (ok, st) = (if (g_index_used st + 1) * 2 \<ge> cap (g_index st) then index_rehash st
                      else (True, st))
      in if \<not> ok then (False, st)
         else (True, st\<lparr>g_index := index_put (g_index st) u s,
                        g_index_used := g_index_used st + 1,
                        g_index_live := g_index_live st + 1\<rparr>))"

fun index_del_at :: "nat \<Rightarrow> nat \<Rightarrow> u64 \<Rightarrow> mm_state \<Rightarrow> mm_state" where
  "index_del_at 0 i u st = st"
| "index_del_at (Suc k) i u st =
     (let ix = g_index st; s = unit_span (slot ix i)
      in if s = 0 then st
         else if s \<noteq> MM_UNIT_TOMB \<and> unit_no (slot ix i) = u
         then st\<lparr>g_index := ix\<lparr>slot := (slot ix)(i := (slot ix i)\<lparr>unit_span := MM_UNIT_TOMB\<rparr>)\<rparr>,
                 g_index_live := sub64 (g_index_live st) 1\<rparr>
         else index_del_at k ((i + 1) AND (cap ix - 1)) u st)"

definition index_del :: "u64 \<Rightarrow> mm_state \<Rightarrow> mm_state" where
  "index_del u st = index_del_at (cap (g_index st)) (slot_for u (cap (g_index st))) u st"

fun index_find_at :: "nat \<Rightarrow> mm_index \<Rightarrow> nat \<Rightarrow> u64 \<Rightarrow> nat" where
  "index_find_at 0 ix i u = 0"
| "index_find_at (Suc k) ix i u =
     (let s = unit_span (slot ix i)
      in if s = 0 then 0
         else if s \<noteq> MM_UNIT_TOMB \<and> unit_no (slot ix i) = u then s
         else index_find_at k ix ((i + 1) AND (cap ix - 1)) u)"

definition index_find :: "mm_index \<Rightarrow> u64 \<Rightarrow> nat" where
  "index_find ix u = index_find_at (cap ix) ix (slot_for u (cap ix)) u"

section \<open>Span descriptors\<close>

definition sizeof_mm_span :: nat where "sizeof_mm_span = 80"

definition span_desc_alloc :: "mm_state \<Rightarrow> nat \<times> mm_state" where
  "span_desc_alloc st =
     (case g_span_pool st of
        s # pool \<Rightarrow> (s, upd_desc s (\<lambda>_. span_zero) (st\<lparr>g_span_pool := pool\<rparr>))
      | [] \<Rightarrow>
          let (ok, st) =
                (if g_span_slab_left st < sizeof_mm_span
                 then let page = sys_page_size st; (p, st) = mm_sys_alloc page st
                      in if p = 0 then (False, st\<lparr>g_span_slab := 0\<rparr>)
                         else (True, st\<lparr>g_span_slab := p, g_span_slab_left := page\<rparr>)
                 else (True, st))
          in if \<not> ok then (0, st)
             else let s = g_span_slab st
                  in (s, upd_desc s (\<lambda>_. span_zero)
                           (st\<lparr>g_span_slab := s + sizeof_mm_span,
                               g_span_slab_left := g_span_slab_left st - sizeof_mm_span\<rparr>)))"

definition span_desc_free :: "nat \<Rightarrow> mm_state \<Rightarrow> mm_state" where
  "span_desc_free s st = st\<lparr>g_span_pool := s # g_span_pool st\<rparr>"

section \<open>The registry\<close>

definition first_unit :: "mm_span \<Rightarrow> nat" where
  "first_unit d = unat (unit_of (map_base d))"

definition last_unit :: "mm_span \<Rightarrow> nat" where
  "last_unit d = unat (unit_of (map_base d + map_size d - 1))"

fun register_units :: "nat \<Rightarrow> nat \<Rightarrow> nat list \<Rightarrow> mm_state \<Rightarrow> bool \<times> mm_state" where
  "register_units s first [] st = (True, st)"
| "register_units s first (u # us) st =
     (let (ok, st) = index_add (of_nat u) s st
      in if ok then register_units s first us st
         else (False, foldl (\<lambda>st v. index_del (of_nat v) st) st [first..<u]))"

definition mm_span_register :: "nat \<Rightarrow> mm_state \<Rightarrow> bool \<times> mm_state" where
  "mm_span_register s st =
     (let d = descs st s
      in if kind d = MM_SPAN_USER then (True, st\<lparr>g_user := s\<rparr>)
         else register_units s (first_unit d) [first_unit d..<Suc (last_unit d)] st)"

definition mm_span_unregister :: "nat \<Rightarrow> mm_state \<Rightarrow> mm_state" where
  "mm_span_unregister s st =
     (let st = (if span_cache (g_arena st) = s then upd_arena (\<lambda>a. a\<lparr>span_cache := 0\<rparr>) st else st);
          d = descs st s
      in if kind d = MM_SPAN_USER
         then (if g_user st = s then st\<lparr>g_user := 0\<rparr> else st)
         else foldl (\<lambda>st u. index_del (of_nat u) st) st [first_unit d..<Suc (last_unit d)])"

definition mm_span_lookup_uncached :: "mm_state \<Rightarrow> nat \<Rightarrow> nat" where
  "mm_span_lookup_uncached st q =
     (let u = g_user st
      in if u \<noteq> 0 \<and> lo (descs st u) \<le> q \<and> q < hi (descs st u) then u
         else let s = index_find (g_index st) (unit_of q)
              in if s = 0 then 0
                 else if magic (descs st s) \<noteq> mm_span_magic_for s then 0
                 else if q < lo (descs st s) \<or> q \<ge> hi (descs st s) then 0
                 else s)"

definition mm_span_lookup :: "nat \<Rightarrow> mm_state \<Rightarrow> nat \<times> mm_state" where
  "mm_span_lookup q st =
     (let s = mm_span_lookup_uncached st q
      in (s, if s \<noteq> 0 \<and> owner (descs st s) = mm_self st
             then upd_arena (\<lambda>a. a\<lparr>span_cache := s\<rparr>) st else st))"

definition mm_span_of :: "mm_state \<Rightarrow> nat \<Rightarrow> nat" where
  "mm_span_of st q =
     (let s = span_cache (g_arena st)
      in if s \<noteq> 0 \<and> lo (descs st s) \<le> q \<and> q < hi (descs st s) then s
         else mm_span_lookup_uncached st q)"

definition mm_index_in :: "mm_span \<Rightarrow> nat \<Rightarrow> u64" where
  "mm_index_in d b = index_base d + of_nat (sub64 b (lo d) div MM_ALIGNMENT)"

definition mm_block_index :: "mm_state \<Rightarrow> nat \<Rightarrow> u64" where
  "mm_block_index st b =
     (let s = mm_span_of st b in if s = 0 then 0 else mm_index_in (descs st s) b)"

definition mm_owner_of :: "mm_config \<Rightarrow> mm_state \<Rightarrow> nat \<Rightarrow> nat" where
  "mm_owner_of c st p =
     (if cfg_lock c = MM_LOCK_ARENA
      then if p = 0 then 0
           else let s = mm_span_lookup_uncached st p in if s = 0 then 0 else owner (descs st s)
      else if p \<noteq> 0 \<and> mm_span_lookup_uncached st p \<noteq> 0 then g_main_arena else 0)"

definition mm_owns :: "mm_config \<Rightarrow> mm_state \<Rightarrow> nat \<Rightarrow> bool" where
  "mm_owns c st p \<longleftrightarrow> mm_owner_of c st p \<noteq> 0"

section \<open>The index as a finite map\<close>

text \<open>A slot is live when it holds a span; the abstraction of a table is the map from the units of
  its live slots to their spans.\<close>

definition live_slot :: "mm_index \<Rightarrow> nat \<Rightarrow> bool" where
  "live_slot ix i \<longleftrightarrow> i < cap ix \<and> unit_span (slot ix i) \<noteq> 0 \<and> unit_span (slot ix i) \<noteq> MM_UNIT_TOMB"

definition empty_slot :: "mm_index \<Rightarrow> nat \<Rightarrow> bool" where
  "empty_slot ix i \<longleftrightarrow> i < cap ix \<and> unit_span (slot ix i) = 0"

definition index_maps :: "mm_index \<Rightarrow> u64 \<Rightarrow> nat \<Rightarrow> bool" where
  "index_maps ix u s \<longleftrightarrow> (\<exists>i. live_slot ix i \<and> unit_no (slot ix i) = u \<and> unit_span (slot ix i) = s)"

definition reached :: "mm_index \<Rightarrow> nat \<Rightarrow> bool" where
  "reached ix i \<longleftrightarrow> (\<exists>j < cap ix. i = (slot_for (unit_no (slot ix i)) (cap ix) + j) mod cap ix \<and>
     (\<forall>j' < j. unit_span (slot ix ((slot_for (unit_no (slot ix i)) (cap ix) + j') mod cap ix)) \<noteq> 0))"

definition index_ok :: "mm_index \<Rightarrow> bool" where
  "index_ok ix \<longleftrightarrow> (\<exists>n. cap ix = 2 ^ n) \<and> (\<forall>i. live_slot ix i \<longrightarrow> reached ix i) \<and>
     (\<forall>i j. live_slot ix i \<longrightarrow> live_slot ix j \<longrightarrow> unit_no (slot ix i) = unit_no (slot ix j) \<longrightarrow> i = j)"

lemma and_exp_mod: "a AND (2 ^ n - Suc 0) = a mod 2 ^ n"
  using take_bit_eq_mask [of n a] by (simp add: take_bit_eq_mod mask_eq_exp_minus_1)

lemma wrap_mod: "cap ix = 2 ^ n \<Longrightarrow> a AND (cap ix - 1) = a mod cap ix"
  by (simp add: and_exp_mod)

lemma slot_for_lt: "n = 2 ^ k \<Longrightarrow> slot_for u n < n"
  by (simp add: slot_for_def Let_def and_exp_mod)

lemma index_find_at_sound:
  "i < cap ix \<Longrightarrow> cap ix = 2 ^ n \<Longrightarrow> index_find_at k ix i u = s \<Longrightarrow> s \<noteq> 0 \<Longrightarrow> index_maps ix u s"
proof (induction k arbitrary: i)
  case (Suc k)
  show ?case
  proof (cases "unit_span (slot ix i) \<noteq> MM_UNIT_TOMB \<and> unit_no (slot ix i) = u")
    case True
    then show ?thesis using Suc.prems
      by (auto simp: index_maps_def live_slot_def Let_def split: if_splits)
  next
    case False
    then have "index_find_at k ix ((i + 1) AND (cap ix - 1)) u = s" using Suc.prems
      by (auto simp: Let_def split: if_splits)
    moreover have "(i + 1) AND (cap ix - 1) < cap ix"
      using Suc.prems(2) by (simp add: and_exp_mod)
    ultimately show ?thesis using Suc.IH Suc.prems by blast
  qed
qed simp

lemma index_find_at_hit:
  assumes "cap ix = 2 ^ n" and "a < cap ix"
    and "live_slot ix ((a + d) mod cap ix)" and "unit_no (slot ix ((a + d) mod cap ix)) = u"
    and "\<forall>j < d. unit_span (slot ix ((a + j) mod cap ix)) \<noteq> 0" and "d < k"
    and "\<forall>i. live_slot ix i \<longrightarrow> unit_no (slot ix i) = u \<longrightarrow> i = (a + d) mod cap ix"
  shows "index_find_at k ix a u = unit_span (slot ix ((a + d) mod cap ix))"
  using assms
proof (induction d arbitrary: a k)
  case 0
  from 0(2,3,4,6) show ?case by (cases k) (simp_all add: Let_def live_slot_def)
next
  case (Suc d)
  obtain k' where k: "k = Suc k'" using Suc.prems(6) by (cases k) auto
  define b where "b = (a + 1) mod cap ix"
  have pos: "0 < cap ix" using Suc.prems(2) by simp
  have shift: "(b + j) mod cap ix = (a + Suc j) mod cap ix" for j
    by (simp add: b_def mod_simps)
  have nz: "unit_span (slot ix a) \<noteq> 0" using spec [OF Suc.prems(5), of 0] Suc.prems(2) by simp
  show ?case
  proof (cases "unit_span (slot ix a) \<noteq> MM_UNIT_TOMB \<and> unit_no (slot ix a) = u")
    case True
    then have "a = (a + Suc d) mod cap ix"
      using Suc.prems(2,7) nz by (simp add: live_slot_def)
    moreover have "index_find_at k ix a u = unit_span (slot ix a)"
      using True nz unfolding k by (simp only: index_find_at.simps Let_def if_False if_True simp_thms)
    ultimately show ?thesis by simp
  next
    case False
    have "index_find_at k' ix b u = unit_span (slot ix ((b + d) mod cap ix))"
    proof (rule Suc.IH)
      show "cap ix = 2 ^ n" "b < cap ix" using Suc.prems(1) pos by (simp_all add: b_def)
      show "live_slot ix ((b + d) mod cap ix)" "unit_no (slot ix ((b + d) mod cap ix)) = u"
        "\<forall>i. live_slot ix i \<longrightarrow> unit_no (slot ix i) = u \<longrightarrow> i = (b + d) mod cap ix"
        unfolding shift by (fact Suc.prems)+
      show "\<forall>j < d. unit_span (slot ix ((b + j) mod cap ix)) \<noteq> 0"
        unfolding shift using Suc.prems(5) by (meson Suc_mono)
      show "d < k'" using Suc.prems(6) k by simp
    qed
    moreover have "(a + 1) AND (cap ix - 1) = b" unfolding b_def by (rule wrap_mod [OF Suc.prems(1)])
    moreover have "index_find_at k ix a u = index_find_at k' ix ((a + 1) AND (cap ix - 1)) u"
      using False nz unfolding k by (simp only: index_find_at.simps Let_def if_False)
    ultimately show ?thesis using shift [of d] by simp
  qed
qed

lemma index_find_iff:
  assumes "index_ok ix" and "s \<noteq> 0"
  shows "index_find ix u = s \<longleftrightarrow> index_maps ix u s"
proof -
  obtain n where n: "cap ix = 2 ^ n" using assms(1) by (auto simp: index_ok_def)
  have h: "slot_for u (cap ix) < cap ix" using slot_for_lt n by blast
  show ?thesis
  proof
    assume "index_find ix u = s"
    then show "index_maps ix u s"
      using index_find_at_sound [OF h n _ assms(2)] by (simp add: index_find_def)
  next
    assume "index_maps ix u s"
    then obtain i where i: "live_slot ix i" "unit_no (slot ix i) = u" "unit_span (slot ix i) = s"
      by (auto simp: index_maps_def)
    moreover have "reached ix i" using i(1) assms(1) by (auto simp: index_ok_def)
    ultimately obtain j where j: "j < cap ix" "i = (slot_for u (cap ix) + j) mod cap ix"
        "\<forall>j' < j. unit_span (slot ix ((slot_for u (cap ix) + j') mod cap ix)) \<noteq> 0"
      unfolding reached_def by blast
    have "\<forall>i'. live_slot ix i' \<longrightarrow> unit_no (slot ix i') = u \<longrightarrow> i' = i"
      using assms(1) i unfolding index_ok_def by blast
    then show "index_find ix u = s"
      unfolding index_find_def i(3) [symmetric]
      by (intro index_find_at_hit [OF n h i(1,2) [unfolded j(2)] j(3,1), folded j(2)])
  qed
qed

lemma index_find_zero_iff:
  assumes "index_ok ix"
  shows "index_find ix u = 0 \<longleftrightarrow> (\<forall>s. \<not> index_maps ix u s)"
  using index_find_iff [OF assms, of _ u]
  by (metis index_maps_def live_slot_def)

lemma index_maps_inj: "index_ok ix \<Longrightarrow> index_maps ix u s \<Longrightarrow> index_maps ix u s' \<Longrightarrow> s = s'"
  unfolding index_maps_def index_ok_def by blast

section \<open>Insertion and deletion\<close>

definition put_slot :: "mm_index \<Rightarrow> nat \<Rightarrow> u64 \<Rightarrow> nat \<Rightarrow> mm_index" where
  "put_slot ix p u s = ix\<lparr>slot := (slot ix)(p := \<lparr>unit_no = u, unit_span = s\<rparr>)\<rparr>"

lemma put_slot_simps [simp]:
  "cap (put_slot ix p u s) = cap ix"
  "slot (put_slot ix p u s) i = (if i = p then \<lparr>unit_no = u, unit_span = s\<rparr> else slot ix i)"
  by (simp_all add: put_slot_def)

lemma index_put_at_Some:
  assumes "cap ix = 2 ^ n" and "a < cap ix" and "index_put_at k ix a u s = Some ix'"
  shows "\<exists>d < k. (\<forall>j < d. unit_span (slot ix ((a + j) mod cap ix)) \<noteq> 0 \<and>
             \<not> (live_slot ix ((a + j) mod cap ix) \<and> unit_no (slot ix ((a + j) mod cap ix)) = u)) \<and>
           (empty_slot ix ((a + d) mod cap ix) \<or>
            live_slot ix ((a + d) mod cap ix) \<and> unit_no (slot ix ((a + d) mod cap ix)) = u) \<and>
           ix' = put_slot ix ((a + d) mod cap ix) u s"
  using assms
proof (induction k arbitrary: a)
  case (Suc k)
  consider (empty) "unit_span (slot ix a) = 0"
    | (hit) "unit_span (slot ix a) \<noteq> 0" "unit_span (slot ix a) \<noteq> MM_UNIT_TOMB" "unit_no (slot ix a) = u"
    | (step) "unit_span (slot ix a) \<noteq> 0"
        "\<not> (unit_span (slot ix a) \<noteq> MM_UNIT_TOMB \<and> unit_no (slot ix a) = u)" by blast
  then show ?case
  proof cases
    case empty
    then have "ix' = put_slot ix a u s" using Suc.prems(3) by (simp add: put_slot_def)
    then show ?thesis using empty Suc.prems(2) by (intro exI [of _ 0]) (simp add: empty_slot_def)
  next
    case hit
    then have "ix' = ix\<lparr>slot := (slot ix)(a := (slot ix a)\<lparr>unit_span := s\<rparr>)\<rparr>"
      using Suc.prems(3) by simp
    then have "ix' = put_slot ix a u s" using hit(3) by (cases "slot ix a") (simp add: put_slot_def)
    then show ?thesis using hit Suc.prems(2) by (intro exI [of _ 0]) (simp add: live_slot_def)
  next
    case step
    define b where "b = (a + 1) mod cap ix"
    have "(a + 1) AND (cap ix - 1) = b" unfolding b_def by (rule wrap_mod [OF Suc.prems(1)])
    then have put: "index_put_at k ix b u s = Some ix'" using step Suc.prems(3) by (auto simp: Let_def)
    have "b < cap ix" using Suc.prems(2) by (simp add: b_def)
    from Suc.IH [OF Suc.prems(1) this put] obtain d where d: "d < k"
        "\<forall>j < d. unit_span (slot ix ((b + j) mod cap ix)) \<noteq> 0 \<and>
             \<not> (live_slot ix ((b + j) mod cap ix) \<and> unit_no (slot ix ((b + j) mod cap ix)) = u)"
        "empty_slot ix ((b + d) mod cap ix) \<or>
            live_slot ix ((b + d) mod cap ix) \<and> unit_no (slot ix ((b + d) mod cap ix)) = u"
        "ix' = put_slot ix ((b + d) mod cap ix) u s" by blast
    have shift: "(b + j) mod cap ix = (a + Suc j) mod cap ix" for j
      by (simp add: b_def mod_simps)
    have "unit_span (slot ix ((a + j) mod cap ix)) \<noteq> 0 \<and>
        \<not> (live_slot ix ((a + j) mod cap ix) \<and> unit_no (slot ix ((a + j) mod cap ix)) = u)"
      if "j < Suc d" for j
    proof (cases j)
      case 0
      then show ?thesis using step Suc.prems(2) by (simp add: live_slot_def)
    next
      case (Suc j')
      then show ?thesis using d(2) that unfolding shift by simp
    qed
    then show ?thesis using d unfolding shift by (intro exI [of _ "Suc d"]) simp
  qed
qed simp

lemma index_put_at_returns:
  assumes "cap ix = 2 ^ n" and "a < cap ix" and "d < k" and "empty_slot ix ((a + d) mod cap ix)"
  shows "index_put_at k ix a u s \<noteq> None"
  using assms
proof (induction k arbitrary: a d)
  case (Suc k)
  show ?case
  proof (cases d)
    case 0
    then show ?thesis using Suc.prems by (simp add: empty_slot_def)
  next
    case (Suc d')
    define b where "b = (a + 1) mod cap ix"
    have b: "(a + 1) AND (cap ix - 1) = b" unfolding b_def by (rule wrap_mod [OF Suc.prems(1)])
    have shift: "(b + d') mod cap ix = (a + d) mod cap ix" by (simp add: b_def mod_simps Suc)
    have "index_put_at k ix b u s \<noteq> None"
    proof (rule Suc.IH)
      show "cap ix = 2 ^ n" "b < cap ix" using Suc.prems(1,2) by (simp_all add: b_def)
      show "d' < k" using Suc.prems(3) Suc by simp
      show "empty_slot ix ((b + d') mod cap ix)" unfolding shift by (fact Suc.prems)
    qed
    then show ?thesis using b by (simp add: Let_def)
  qed
qed simp

lemma cyclic_distance: "q < n \<Longrightarrow> h < n \<Longrightarrow> \<exists>d < n. (h + d) mod n = (q::nat)"
  by (intro exI [of _ "(q + n - h) mod n"]) (auto simp: mod_simps)

lemma index_put_returns:
  assumes "index_ok ix" and "empty_slot ix q"
  shows "index_put_at (cap ix) ix (slot_for u (cap ix)) u s \<noteq> None"
proof -
  obtain n where n: "cap ix = 2 ^ n" using assms(1) by (auto simp: index_ok_def)
  have h: "slot_for u (cap ix) < cap ix" using slot_for_lt n by blast
  moreover have "q < cap ix" using assms(2) by (simp add: empty_slot_def)
  ultimately obtain d where "d < cap ix" "(slot_for u (cap ix) + d) mod cap ix = q"
    using cyclic_distance by blast
  then show ?thesis using index_put_at_returns [OF n h] assms(2) by blast
qed

lemma index_ok_unique:
  "index_ok ix \<Longrightarrow> live_slot ix i \<Longrightarrow> live_slot ix j \<Longrightarrow> unit_no (slot ix i) = unit_no (slot ix j) \<Longrightarrow> i = j"
  unfolding index_ok_def by blast

lemma index_put_slot:
  assumes ok: "index_ok ix" and "empty_slot ix q"
  obtains d where "d < cap ix"
    and "\<forall>j < d. unit_span (slot ix ((slot_for u (cap ix) + j) mod cap ix)) \<noteq> 0"
    and "\<forall>i. live_slot ix i \<longrightarrow> unit_no (slot ix i) = u \<longrightarrow> i = (slot_for u (cap ix) + d) mod cap ix"
    and "index_put ix u s = put_slot ix ((slot_for u (cap ix) + d) mod cap ix) u s"
    and "live_slot ix ((slot_for u (cap ix) + d) mod cap ix) \<longrightarrow>
           unit_no (slot ix ((slot_for u (cap ix) + d) mod cap ix)) = u"
proof -
  let ?h = "slot_for u (cap ix)"
  obtain n where n: "cap ix = 2 ^ n" using ok by (auto simp: index_ok_def)
  have h: "?h < cap ix" using slot_for_lt n by blast
  obtain ix' where ix': "index_put_at (cap ix) ix ?h u s = Some ix'"
    using index_put_returns [OF assms] by blast
  from index_put_at_Some [OF n h ix'] obtain d where d: "d < cap ix"
      "\<forall>j < d. unit_span (slot ix ((?h + j) mod cap ix)) \<noteq> 0 \<and>
          \<not> (live_slot ix ((?h + j) mod cap ix) \<and> unit_no (slot ix ((?h + j) mod cap ix)) = u)"
      "empty_slot ix ((?h + d) mod cap ix) \<or>
          live_slot ix ((?h + d) mod cap ix) \<and> unit_no (slot ix ((?h + d) mod cap ix)) = u"
      "ix' = put_slot ix ((?h + d) mod cap ix) u s" by blast
  have "i = (?h + d) mod cap ix" if i: "live_slot ix i" "unit_no (slot ix i) = u" for i
  proof -
    from ok i obtain j where j: "i = (?h + j) mod cap ix"
        "\<forall>j' < j. unit_span (slot ix ((?h + j') mod cap ix)) \<noteq> 0"
      unfolding index_ok_def reached_def by blast
    have "\<not> j < d"
    proof
      assume "j < d"
      then have "\<not> (live_slot ix ((?h + j) mod cap ix) \<and> unit_no (slot ix ((?h + j) mod cap ix)) = u)"
        using d(2) by blast
      then show False using i by (simp only: j(1) [symmetric] simp_thms)
    qed
    then consider "j = d" | "d < j" by linarith
    then show ?thesis
    proof cases
      case 2
      then have "\<not> empty_slot ix ((?h + d) mod cap ix)" using j(2) by (simp add: empty_slot_def)
      then have "live_slot ix ((?h + d) mod cap ix)" "unit_no (slot ix ((?h + d) mod cap ix)) = u"
        using d(3) by simp_all
      then show ?thesis using index_ok_unique [OF ok i(1)] i(2) by simp
    next
      case 1
      then show ?thesis using j(1) by (simp only:)
    qed
  qed
  moreover have "index_put ix u s = ix'" using ix' by (simp add: index_put_def)
  moreover have "live_slot ix ((?h + d) mod cap ix) \<longrightarrow> unit_no (slot ix ((?h + d) mod cap ix)) = u"
    using d(3) by (auto simp: live_slot_def empty_slot_def)
  ultimately show ?thesis using d that [of d] by blast
qed

lemma index_put_ok:
  assumes ok: "index_ok ix" and "empty_slot ix q" and s: "s \<noteq> 0" "s \<noteq> MM_UNIT_TOMB"
  shows "index_ok (index_put ix u s)" and "cap (index_put ix u s) = cap ix"
    and "index_maps (index_put ix u s) v t \<longleftrightarrow> (if v = u then t = s else index_maps ix v t)"
proof -
  let ?h = "slot_for u (cap ix)"
  from index_put_slot [OF assms(1,2), of u s] obtain d where d: "d < cap ix"
      "\<forall>j < d. unit_span (slot ix ((?h + j) mod cap ix)) \<noteq> 0"
      "\<forall>i. live_slot ix i \<longrightarrow> unit_no (slot ix i) = u \<longrightarrow> i = (?h + d) mod cap ix"
      "index_put ix u s = put_slot ix ((?h + d) mod cap ix) u s"
      "live_slot ix ((?h + d) mod cap ix) \<longrightarrow> unit_no (slot ix ((?h + d) mod cap ix)) = u" by blast
  define p where "p = (?h + d) mod cap ix"
  define ix' where "ix' = put_slot ix p u s"
  have eq: "index_put ix u s = ix'" using d(4) by (simp add: ix'_def p_def)
  have p: "p < cap ix" using d(1) by (simp add: p_def)
  have lv: "live_slot ix' i \<longleftrightarrow> i = p \<or> (i \<noteq> p \<and> live_slot ix i)" for i
    using p s by (auto simp: live_slot_def ix'_def)
  have other: "unit_no (slot ix i) \<noteq> u" if "live_slot ix i" "i \<noteq> p" for i
    using d(3) that by (auto simp: p_def)
  have hit: "live_slot ix p \<Longrightarrow> unit_no (slot ix p) = u" using d(5) by (simp add: p_def)
  have grow: "unit_span (slot ix i) \<noteq> 0 \<Longrightarrow> unit_span (slot ix' i) \<noteq> 0" for i
    using s by (simp add: ix'_def)
  have "reached ix' i" if "live_slot ix' i" for i
  proof (cases "i = p")
    case True
    have "reached ix' p" unfolding reached_def
      using d(1,2) grow by (intro exI [of _ d]) (auto simp: ix'_def p_def)
    then show ?thesis using True by simp
  next
    case False
    then have "reached ix i" using that lv ok by (auto simp: index_ok_def)
    moreover have "unit_no (slot ix' i) = unit_no (slot ix i)" "cap ix' = cap ix"
      using False by (simp_all add: ix'_def)
    ultimately show ?thesis unfolding reached_def using grow by metis
  qed
  then show "index_ok (index_put ix u s)"
    using ok other lv unfolding eq index_ok_def by (auto simp: ix'_def split: if_splits)
  show "cap (index_put ix u s) = cap ix" by (simp add: eq ix'_def)
  show "index_maps (index_put ix u s) v t \<longleftrightarrow> (if v = u then t = s else index_maps ix v t)"
  proof (cases "v = u")
    case True
    have "index_maps ix' u t \<longleftrightarrow> t = s"
      unfolding index_maps_def lv using other by (auto simp: ix'_def)
    then show ?thesis using True by (simp add: eq)
  next
    case False
    have "index_maps ix' v t \<longleftrightarrow> index_maps ix v t"
    proof
      assume "index_maps ix' v t"
      then show "index_maps ix v t" using False
        unfolding index_maps_def lv by (auto simp: ix'_def)
    next
      assume "index_maps ix v t"
      then obtain i where i: "live_slot ix i" "unit_no (slot ix i) = v" "unit_span (slot ix i) = t"
        unfolding index_maps_def by blast
      show "index_maps ix' v t"
        using i False hit unfolding index_maps_def lv by (intro exI [of _ i]) (auto simp: ix'_def)
    qed
    then show ?thesis using False by (simp add: eq)
  qed
qed
definition used_slots :: "mm_index \<Rightarrow> nat set" where
  "used_slots ix = {i. i < cap ix \<and> unit_span (slot ix i) \<noteq> 0}"

definition live_slots :: "mm_index \<Rightarrow> nat set" where
  "live_slots ix = {i. live_slot ix i}"

lemma slots_finite [simp]: "finite (used_slots ix)" "finite (live_slots ix)"
  by (simp_all add: used_slots_def live_slots_def live_slot_def)

lemma live_le_used: "card (live_slots ix) \<le> card (used_slots ix)"
  by (rule card_mono) (auto simp: used_slots_def live_slots_def live_slot_def)

lemma some_empty_slot:
  assumes "card (used_slots ix) < cap ix"
  obtains q where "empty_slot ix q"
proof -
  have "used_slots ix \<noteq> {..<cap ix}" using assms by (metis card_lessThan less_irrefl)
  moreover have "used_slots ix \<subseteq> {..<cap ix}" by (auto simp: used_slots_def)
  ultimately obtain q where "q < cap ix" "q \<notin> used_slots ix" by blast
  then show ?thesis using that by (auto simp: empty_slot_def used_slots_def)
qed

lemma put_slot_counts:
  "card (used_slots (put_slot ix p u s)) \<le> Suc (card (used_slots ix))"
  "card (live_slots (put_slot ix p u s)) \<le> Suc (card (live_slots ix))"
proof -
  have step: "card B \<le> Suc (card A)" if "B \<subseteq> insert p A" "finite A" for A B :: "nat set"
    using card_mono [OF _ that(1)] that(2) by (simp add: card_insert_if split: if_splits)
  show "card (used_slots (put_slot ix p u s)) \<le> Suc (card (used_slots ix))"
    by (rule step) (auto simp: used_slots_def split: if_splits)
  show "card (live_slots (put_slot ix p u s)) \<le> Suc (card (live_slots ix))"
    by (rule step) (auto simp: live_slots_def live_slot_def split: if_splits)
qed

lemma index_put_counts:
  assumes "index_ok ix" and "empty_slot ix q"
  shows "card (used_slots (index_put ix u s)) \<le> Suc (card (used_slots ix))"
    and "card (live_slots (index_put ix u s)) \<le> Suc (card (live_slots ix))"
  by (rule index_put_slot [OF assms, of u s]; simp add: put_slot_counts)+

lemma index_empty_ok:
  "index_ok (index_empty (2 ^ n))" "used_slots (index_empty m) = {}" "cap (index_empty m) = m"
  "\<not> live_slot (index_empty m) i"
  by (auto simp: index_ok_def index_empty_def live_slot_def used_slots_def)

lemma index_copy_prefix:
  assumes "index_ok old" and "m = 2 ^ n" and "card (live_slots old) < m" and "k \<le> cap old"
  defines "cp \<equiv> \<lambda>ix i. let s = unit_span (slot old i)
              in if s \<noteq> 0 \<and> s \<noteq> MM_UNIT_TOMB then index_put ix (unit_no (slot old i)) s else ix"
  shows "index_ok (foldl cp (index_empty m) [0..<k]) \<and> cap (foldl cp (index_empty m) [0..<k]) = m \<and>
     card (used_slots (foldl cp (index_empty m) [0..<k])) \<le> card {i. i < k \<and> live_slot old i} \<and>
     (\<forall>v t. index_maps (foldl cp (index_empty m) [0..<k]) v t \<longleftrightarrow>
        (\<exists>i < k. live_slot old i \<and> unit_no (slot old i) = v \<and> unit_span (slot old i) = t))"
  using assms(4)
proof (induction k)
  case 0
  show ?case using index_empty_ok assms(2) by (auto simp: index_maps_def)
next
  case (Suc k)
  let ?ix = "foldl cp (index_empty m) [0..<k]"
  have IH: "index_ok ?ix" "cap ?ix = m" "card (used_slots ?ix) \<le> card {i. i < k \<and> live_slot old i}"
      "\<And>v t. index_maps ?ix v t \<longleftrightarrow>
        (\<exists>i < k. live_slot old i \<and> unit_no (slot old i) = v \<and> unit_span (slot old i) = t)"
    using Suc by auto
  show ?case
  proof (cases "live_slot old k")
    case False
    then have "cp ?ix k = ?ix" using Suc.prems by (auto simp: cp_def live_slot_def Let_def)
    moreover have "{i. i < Suc k \<and> live_slot old i} = {i. i < k \<and> live_slot old i}"
      using False by (auto simp: less_Suc_eq)
    ultimately show ?thesis using IH False by (auto simp: less_Suc_eq)
  next
    case True
    let ?u = "unit_no (slot old k)" and ?s = "unit_span (slot old k)"
    have s: "?s \<noteq> 0" "?s \<noteq> MM_UNIT_TOMB" using True by (simp_all add: live_slot_def)
    then have step: "cp ?ix k = index_put ?ix ?u ?s" by (simp add: cp_def)
    have set: "{i. i < Suc k \<and> live_slot old i} = insert k {i. i < k \<and> live_slot old i}"
      using True by (auto simp: less_Suc_eq)
    have "card {i. i < k \<and> live_slot old i} \<le> card (live_slots old)"
      by (rule card_mono [OF slots_finite(2)]) (auto simp: live_slots_def)
    then have "card (used_slots ?ix) < cap ?ix" using IH(2,3) assms(3) by linarith
    then obtain q where q: "empty_slot ?ix q" by (rule some_empty_slot)
    note put = index_put_ok [OF IH(1) q s, of ?u]
    have fresh: "\<not> (\<exists>i < k. live_slot old i \<and> unit_no (slot old i) = ?u)"
      using index_ok_unique [OF assms(1) True] by (metis less_irrefl)
    have "index_maps (index_put ?ix ?u ?s) v t \<longleftrightarrow>
        (\<exists>i < Suc k. live_slot old i \<and> unit_no (slot old i) = v \<and> unit_span (slot old i) = t)" for v t
      unfolding put(3) IH(4) using True fresh by (auto simp: less_Suc_eq)
    moreover have "card (used_slots (index_put ?ix ?u ?s)) \<le> card {i. i < Suc k \<and> live_slot old i}"
      using index_put_counts(1) [OF IH(1) q, of ?u ?s] IH(3) by (simp add: set)
    ultimately show ?thesis using put(1,2) IH(2) by (simp add: step)
  qed
qed

lemma index_copy_ok:
  assumes "index_ok old" and "m = 2 ^ n" and "card (live_slots old) < m"
  shows "index_ok (index_copy old (index_empty m))" and "cap (index_copy old (index_empty m)) = m"
    and "card (used_slots (index_copy old (index_empty m))) \<le> card (live_slots old)"
    and "index_maps (index_copy old (index_empty m)) v t \<longleftrightarrow> index_maps old v t"
proof -
  have "{i. i < cap old \<and> live_slot old i} = live_slots old"
    by (auto simp: live_slots_def live_slot_def)
  note p = index_copy_prefix [OF assms order_refl, unfolded this, folded index_copy_def]
  show "index_ok (index_copy old (index_empty m))" "cap (index_copy old (index_empty m)) = m"
    "card (used_slots (index_copy old (index_empty m))) \<le> card (live_slots old)"
    using p by blast+
  show "index_maps (index_copy old (index_empty m)) v t \<longleftrightarrow> index_maps old v t"
    using p unfolding index_maps_def [of old] by (metis live_slot_def)
qed
lemma index_del_at_hit:
  assumes "cap (g_index st) = 2 ^ n" and "a < cap (g_index st)"
    and "live_slot (g_index st) ((a + d) mod cap (g_index st))"
    and "unit_no (slot (g_index st) ((a + d) mod cap (g_index st))) = u"
    and "\<forall>j < d. unit_span (slot (g_index st) ((a + j) mod cap (g_index st))) \<noteq> 0" and "d < k"
    and "\<forall>i. live_slot (g_index st) i \<longrightarrow> unit_no (slot (g_index st) i) = u \<longrightarrow>
           i = (a + d) mod cap (g_index st)"
  shows "index_del_at k a u st =
    st\<lparr>g_index := put_slot (g_index st) ((a + d) mod cap (g_index st)) u MM_UNIT_TOMB,
       g_index_live := sub64 (g_index_live st) 1\<rparr>"
  using assms
proof (induction d arbitrary: a k)
  case 0
  from 0(2,3,4,6) show ?case
    by (cases k; cases "slot (g_index st) a") (simp_all add: Let_def live_slot_def put_slot_def)
next
  case (Suc d)
  let ?ix = "g_index st"
  obtain k' where k: "k = Suc k'" using Suc.prems(6) by (cases k) auto
  define b where "b = (a + 1) mod cap ?ix"
  have pos: "0 < cap ?ix" using Suc.prems(2) by simp
  have shift: "(b + j) mod cap ?ix = (a + Suc j) mod cap ?ix" for j
    by (simp add: b_def mod_simps)
  have nz: "unit_span (slot ?ix a) \<noteq> 0" using spec [OF Suc.prems(5), of 0] Suc.prems(2) by simp
  show ?case
  proof (cases "unit_span (slot ?ix a) \<noteq> MM_UNIT_TOMB \<and> unit_no (slot ?ix a) = u")
    case True
    then have "a = (a + Suc d) mod cap ?ix"
      using Suc.prems(2,7) nz by (simp add: live_slot_def)
    moreover have "index_del_at k a u st = st\<lparr>g_index := put_slot ?ix a u MM_UNIT_TOMB,
        g_index_live := sub64 (g_index_live st) 1\<rparr>"
      using True nz unfolding k by (cases "slot (g_index st) a") (simp add: Let_def put_slot_def)
    ultimately show ?thesis by simp
  next
    case False
    have "index_del_at k' b u st =
      st\<lparr>g_index := put_slot ?ix ((b + d) mod cap ?ix) u MM_UNIT_TOMB,
         g_index_live := sub64 (g_index_live st) 1\<rparr>"
    proof (rule Suc.IH)
      show "cap ?ix = 2 ^ n" "b < cap ?ix" using Suc.prems(1) pos by (simp_all add: b_def)
      show "live_slot ?ix ((b + d) mod cap ?ix)" "unit_no (slot ?ix ((b + d) mod cap ?ix)) = u"
        "\<forall>i. live_slot ?ix i \<longrightarrow> unit_no (slot ?ix i) = u \<longrightarrow> i = (b + d) mod cap ?ix"
        unfolding shift by (fact Suc.prems)+
      show "\<forall>j < d. unit_span (slot ?ix ((b + j) mod cap ?ix)) \<noteq> 0"
        unfolding shift using Suc.prems(5) by (meson Suc_mono)
      show "d < k'" using Suc.prems(6) k by simp
    qed
    moreover have "(a + 1) AND (cap ?ix - 1) = b" unfolding b_def by (rule wrap_mod [OF Suc.prems(1)])
    moreover have "index_del_at k a u st = index_del_at k' ((a + 1) AND (cap ?ix - 1)) u st"
      using False nz unfolding k by (simp only: index_del_at.simps Let_def if_False)
    ultimately show ?thesis using shift [of d] by simp
  qed
qed

lemma index_del_at_miss:
  assumes "cap (g_index st) = 2 ^ n" and "a < cap (g_index st)"
    and "\<forall>i. live_slot (g_index st) i \<longrightarrow> unit_no (slot (g_index st) i) \<noteq> u"
  shows "index_del_at k a u st = st"
  using assms(2)
proof (induction k arbitrary: a)
  case (Suc k)
  have "(a + 1) AND (cap (g_index st) - 1) < cap (g_index st)"
    using Suc.prems by (simp only: wrap_mod [OF assms(1)]) simp
  from Suc.IH [OF this] show ?case using assms(3) Suc.prems by (auto simp: Let_def live_slot_def)
qed simp

lemma index_del_cases:
  assumes ok: "index_ok (g_index st)"
  shows "(\<forall>s. \<not> index_maps (g_index st) u s) \<and> index_del u st = st \<or>
    (\<exists>p. live_slot (g_index st) p \<and> unit_no (slot (g_index st) p) = u \<and>
       index_del u st = st\<lparr>g_index := put_slot (g_index st) p u MM_UNIT_TOMB,
         g_index_live := sub64 (g_index_live st) 1\<rparr>)"
proof -
  let ?ix = "g_index st" and ?h = "slot_for u (cap (g_index st))"
  obtain n where n: "cap ?ix = 2 ^ n" using ok by (auto simp: index_ok_def)
  have h: "?h < cap ?ix" using slot_for_lt n by blast
  show ?thesis
  proof (cases "\<exists>p. live_slot ?ix p \<and> unit_no (slot ?ix p) = u")
    case False
    then show ?thesis using index_del_at_miss [OF n h, of u] by (auto simp: index_maps_def index_del_def)
  next
    case True
    then obtain p where p: "live_slot ?ix p" "unit_no (slot ?ix p) = u" by blast
    then have "reached ?ix p" using ok by (simp add: index_ok_def)
    then obtain j where j: "j < cap ?ix" "p = (?h + j) mod cap ?ix"
        "\<forall>j' < j. unit_span (slot ?ix ((?h + j') mod cap ?ix)) \<noteq> 0"
      unfolding reached_def p(2) by blast
    have "\<forall>i. live_slot ?ix i \<longrightarrow> unit_no (slot ?ix i) = u \<longrightarrow> i = p"
      using index_ok_unique [OF ok _ p(1)] p(2) by auto
    then have "index_del u st = st\<lparr>g_index := put_slot ?ix p u MM_UNIT_TOMB,
         g_index_live := sub64 (g_index_live st) 1\<rparr>"
      unfolding index_del_def
      by (intro index_del_at_hit [OF n h p(1,2) [unfolded j(2)] j(3,1), folded j(2)])
    then show ?thesis using p by blast
  qed
qed

lemma tomb_ok:
  assumes ok: "index_ok ix" and p: "live_slot ix p" "unit_no (slot ix p) = u"
  shows "index_ok (put_slot ix p u MM_UNIT_TOMB)"
    and "index_maps (put_slot ix p u MM_UNIT_TOMB) v t \<longleftrightarrow> v \<noteq> u \<and> index_maps ix v t"
    and "used_slots (put_slot ix p u MM_UNIT_TOMB) = used_slots ix"
    and "live_slots (put_slot ix p u MM_UNIT_TOMB) = live_slots ix - {p}"
proof -
  define ix' where "ix' = put_slot ix p u MM_UNIT_TOMB"
  have sl: "cap ix' = cap ix" "unit_no (slot ix' i) = unit_no (slot ix i)" for i
    using p by (simp_all add: ix'_def)
  have lv: "live_slot ix' i \<longleftrightarrow> i \<noteq> p \<and> live_slot ix i" for i
    by (auto simp: ix'_def live_slot_def)
  have nz: "unit_span (slot ix' i) = 0 \<longleftrightarrow> unit_span (slot ix i) = 0" if "i < cap ix" for i
    using p by (auto simp: ix'_def live_slot_def MM_UNIT_TOMB_def)
  have "0 < cap ix" using p by (auto simp: live_slot_def)
  have uniq: "unit_no (slot ix i) \<noteq> u" if "i \<noteq> p" "live_slot ix i" for i
    using index_ok_unique [OF ok p(1) that(2)] p(2) that(1) by auto
  have "reached ix' i \<longleftrightarrow> reached ix i" for i
    unfolding reached_def sl using nz \<open>0 < cap ix\<close> by simp
  then show "index_ok ix'"
    using ok unfolding index_ok_def sl lv by blast
  show "index_maps ix' v t \<longleftrightarrow> v \<noteq> u \<and> index_maps ix v t"
    unfolding index_maps_def lv sl
    using uniq p(2) by (auto simp: ix'_def split: if_splits) metis
  show "used_slots ix' = used_slots ix" 
    unfolding used_slots_def sl(1) using nz by (intro Collect_cong conj_cong refl) simp
  show "live_slots ix' = live_slots ix - {p}" using lv by (auto simp: live_slots_def)
qed

section \<open>The registry invariant\<close>

definition registry_ok :: "mm_state \<Rightarrow> bool" where
  "registry_ok st \<longleftrightarrow> index_ok (g_index st) \<and> card (used_slots (g_index st)) \<le> g_index_used st \<and>
     card (live_slots (g_index st)) \<le> g_index_live st \<and> g_index_live st \<le> g_index_used st \<and>
     g_index_used st * 2 < cap (g_index st)"

lemma rehash_cap_bounds:
  "n = 2 ^ k \<Longrightarrow> (live + 1) * 4 \<le> rehash_cap live n \<and> (\<exists>k'. rehash_cap live n = 2 ^ k')"
proof (induction live n arbitrary: k rule: rehash_cap.induct)
  case (1 live n)
  show ?case
  proof (cases "n < (live + 1) * 4")
    case True
    have "n * 2 = 2 ^ Suc k" using 1(2) by simp
    from 1(1) [OF _ this] show ?thesis using True 1(2) by (subst (1 2) rehash_cap.simps) auto
  next
    case False
    then show ?thesis using 1(2) by (subst (1 2) rehash_cap.simps) auto
  qed
qed

lemma sys_map_index [simp]:
  assumes "sys_map n st = (p, st')"
  shows "g_index st' = g_index st" "g_index_used st' = g_index_used st" "g_index_live st' = g_index_live st"
  using assms by (auto simp: sys_map_def upd_mem_def split: list.splits)

lemma index_rehash_ok:
  assumes ok: "registry_ok st" and res: "index_rehash st = (b, st')"
  shows "registry_ok st'" and "index_find (g_index st') u = index_find (g_index st) u"
    and "b \<Longrightarrow> (g_index_used st' + 1) * 2 < cap (g_index st')"
proof -
  let ?n = "rehash_cap (g_index_live st) MM_INDEX_STATIC"
  obtain p st1 where al: "mm_sys_alloc (16 + ?n * 16) st = (p, st1)" by fastforce
  note same = sys_map_index [OF al [unfolded mm_sys_alloc_def]]
  have "MM_INDEX_STATIC = 2 ^ 10" by (simp add: MM_INDEX_STATIC_def)
  from rehash_cap_bounds [OF this, of "g_index_live st"] obtain k where
    n: "(g_index_live st + 1) * 4 \<le> ?n" "?n = 2 ^ k" by blast
  have lv: "card (live_slots (g_index st)) \<le> g_index_live st" and ix: "index_ok (g_index st)"
    using ok by (simp_all add: registry_ok_def)
  note cp = index_copy_ok [OF ix n(2)]
  have lt: "card (live_slots (g_index st)) < ?n" using lv n(1) by (auto intro: le_less_trans less_le_trans)
  let ?ix = "index_copy (g_index st) (index_empty ?n)"
  have "registry_ok st' \<and> index_find (g_index st') u = index_find (g_index st) u \<and>
      (b \<longrightarrow> (g_index_used st' + 1) * 2 < cap (g_index st'))"
  proof (cases "p = 0")
    case True
    then have "st' = st1" "\<not> b" using res al by (auto simp: index_rehash_def Let_def)
    then show ?thesis using ok same by (simp add: registry_ok_def)
  next
    case False
    then have st': "g_index st' = ?ix" "g_index_used st' = g_index_live st"
        "g_index_live st' = g_index_live st"
      using res al same by (auto simp: index_rehash_def Let_def)
    have find: "index_find ?ix u = index_find (g_index st) u"
      using index_find_iff [OF cp(1) [OF lt], of _ u] index_find_iff [OF ix, of _ u] cp(4) [OF lt]
        index_find_zero_iff [OF cp(1) [OF lt], of u] index_find_zero_iff [OF ix, of u] by metis
    have "card (live_slots ?ix) \<le> g_index_live st"
      using cp(3) [OF lt] lv live_le_used [of ?ix] by linarith
    then show ?thesis using cp(1-3) [OF lt] lv n(1) find
      by (auto simp: st' registry_ok_def)
  qed
  then show "registry_ok st'" "index_find (g_index st') u = index_find (g_index st) u"
    "b \<Longrightarrow> (g_index_used st' + 1) * 2 < cap (g_index st')" by blast+
qed

lemma index_find_put:
  assumes "index_ok ix" and "empty_slot ix q" and "s \<noteq> 0" and "s \<noteq> MM_UNIT_TOMB"
  shows "index_find (index_put ix u s) v = (if v = u then s else index_find ix v)"
  using index_put_ok [OF assms] index_find_iff [OF index_put_ok(1) [OF assms]]
    index_find_zero_iff [OF index_put_ok(1) [OF assms]] index_find_iff [OF assms(1)]
    index_find_zero_iff [OF assms(1)] assms(3) by metis

lemma index_add_ok:
  assumes ok: "registry_ok st" and s: "s \<noteq> 0" "s \<noteq> MM_UNIT_TOMB" and add: "index_add u s st = (b, st')"
  shows "registry_ok st'"
    and "index_find (g_index st') v = (if b \<and> v = u then s else index_find (g_index st) v)"
proof -
  obtain b1 st1 where pre: "(if (g_index_used st + 1) * 2 \<ge> cap (g_index st) then index_rehash st
      else (True, st)) = (b1, st1)" by fastforce
  have st1: "registry_ok st1" "b1 \<Longrightarrow> (g_index_used st1 + 1) * 2 < cap (g_index st1)"
      "index_find (g_index st1) v = index_find (g_index st) v"
    using pre ok index_rehash_ok [OF ok] by (auto split: if_splits)
  have "registry_ok st' \<and> index_find (g_index st') v = (if b \<and> v = u then s else index_find (g_index st) v)"
  proof (cases b1)
    case False
    then show ?thesis using add pre st1 by (simp add: index_add_def)
  next
    case True
    let ?ix = "g_index st1"
    have ix: "index_ok ?ix" "card (used_slots ?ix) < cap ?ix"
      using st1(1,2) True by (auto simp: registry_ok_def)
    obtain q where q: "empty_slot ?ix q" using some_empty_slot [OF ix(2)] by blast
    have st': "b" "g_index st' = index_put ?ix u s" "g_index_used st' = g_index_used st1 + 1"
        "g_index_live st' = g_index_live st1 + 1"
      using add pre True by (auto simp: index_add_def)
    have "registry_ok st'"
      using st1(1) st1(2) [OF True] index_put_ok(1,2) [OF ix(1) q s, of u] index_put_counts [OF ix(1) q, of u s]
      by (auto simp: registry_ok_def st')
    then show ?thesis using index_find_put [OF ix(1) q s, of u v] st1(3) st' by simp
  qed
  then show "registry_ok st'" "index_find (g_index st') v = (if b \<and> v = u then s else index_find (g_index st) v)"
    by blast+
qed

lemma index_del_ok:
  assumes ok: "registry_ok st"
  shows "registry_ok (index_del u st)"
    and "index_find (g_index (index_del u st)) v = (if v = u then 0 else index_find (g_index st) v)"
proof -
  let ?ix = "g_index st"
  have ix: "index_ok ?ix" using ok by (simp add: registry_ok_def)
  from index_del_cases [OF ix, of u]
  have "registry_ok (index_del u st) \<and>
    index_find (g_index (index_del u st)) v = (if v = u then 0 else index_find (g_index st) v)"
  proof (elim disjE exE conjE)
    assume "\<forall>s. \<not> index_maps ?ix u s" "index_del u st = st"
    then show ?thesis using ok index_find_zero_iff [OF ix, of u] by simp
  next
    fix p assume p: "live_slot ?ix p" "unit_no (slot ?ix p) = u"
      and del: "index_del u st = st\<lparr>g_index := put_slot ?ix p u MM_UNIT_TOMB,
         g_index_live := sub64 (g_index_live st) 1\<rparr>"
    note t = tomb_ok [OF ix p]
    have "p \<in> live_slots ?ix" using p by (simp add: live_slots_def)
    then have pos: "card (live_slots ?ix) > 0" "card (live_slots ?ix - {p}) = card (live_slots ?ix) - 1"
      by (auto simp: card_gt_0_iff)
    moreover have "1 \<le> g_index_live st" using pos(1) ok by (auto simp: registry_ok_def)
    ultimately have "registry_ok (index_del u st)"
      using ok t(1,3,4) by (auto simp: registry_ok_def del)
    moreover have "index_find (put_slot ?ix p u MM_UNIT_TOMB) v = (if v = u then 0 else index_find ?ix v)"
      using index_find_iff [OF t(1), of _ v] index_find_zero_iff [OF t(1), of v] t(2)
        index_find_iff [OF ix, of _ v] index_find_zero_iff [OF ix, of v] by metis
    ultimately show ?thesis by (simp add: del)
  qed
  then show "registry_ok (index_del u st)"
    "index_find (g_index (index_del u st)) v = (if v = u then 0 else index_find (g_index st) v)" by blast+
qed
section \<open>What the registry relies on the table for\<close>

text \<open>The contract of a table of units with a bounded number of slots: an insertion may fail and
  then changes no answer, a deletion never does.\<close>

locale unit_table =
  fixes ok :: "'s \<Rightarrow> bool" and find :: "'s \<Rightarrow> u64 \<Rightarrow> nat"
    and add :: "u64 \<Rightarrow> nat \<Rightarrow> 's \<Rightarrow> bool \<times> 's" and del :: "u64 \<Rightarrow> 's \<Rightarrow> 's"
  assumes add_ok: "ok st \<Longrightarrow> s \<noteq> 0 \<Longrightarrow> s \<noteq> MM_UNIT_TOMB \<Longrightarrow> add u s st = (b, st') \<Longrightarrow> ok st'"
    and add_find: "ok st \<Longrightarrow> s \<noteq> 0 \<Longrightarrow> s \<noteq> MM_UNIT_TOMB \<Longrightarrow> add u s st = (b, st') \<Longrightarrow>
      find st' v = (if b \<and> v = u then s else find st v)"
    and del_ok: "ok st \<Longrightarrow> ok (del u st)"
    and del_find: "ok st \<Longrightarrow> find (del u st) v = (if v = u then 0 else find st v)"
begin

lemma dels_ok: "ok st \<Longrightarrow> ok (foldl (\<lambda>st v. del (of_nat v) st) st us)"
  by (induction us arbitrary: st) (simp_all add: del_ok)

lemma dels_find:
  "ok st \<Longrightarrow> find (foldl (\<lambda>st v. del (of_nat v) st) st us) v =
     (if v \<in> of_nat ` set us then 0 else find st v)"
  by (induction us arbitrary: st) (auto simp: del_ok del_find)

lemma add_del_find:
  "ok st \<Longrightarrow> s \<noteq> 0 \<Longrightarrow> s \<noteq> MM_UNIT_TOMB \<Longrightarrow> add u s st = (b, st') \<Longrightarrow> find st u = 0 \<Longrightarrow>
     find (del u st') = find st"
  by (rule ext) (simp add: add_ok add_find del_find)

end

interpretation ut: unit_table registry_ok "\<lambda>st. index_find (g_index st)" index_add index_del
  by unfold_locales (simp_all add: index_add_ok index_del_ok)

lemma of_nat_unat_image:
  "n \<le> 2 ^ 64 \<Longrightarrow> (v::u64) \<in> of_nat ` set [k..<n] \<longleftrightarrow> k \<le> unat v \<and> unat v < n"
proof
  assume n: "n \<le> 2 ^ 64" and "v \<in> of_nat ` set [k..<n]"
  then obtain i where "k \<le> i" "i < n" "v = of_nat i" by auto
  then show "k \<le> unat v \<and> unat v < n" using n by (simp add: unat_of_nat take_bit_nat_eq_self)
next
  assume "k \<le> unat v \<and> unat v < n"
  then show "v \<in> of_nat ` set [k..<n]" by (intro image_eqI [of _ _ "unat v"]) simp_all
qed

lemma register_units_true:
  assumes "registry_ok st" and "s \<noteq> 0" "s \<noteq> MM_UNIT_TOMB"
    and "register_units s first us st = (True, st')"
  shows "registry_ok st' \<and>
    index_find (g_index st') v = (if v \<in> of_nat ` set us then s else index_find (g_index st) v)"
  using assms(1,4)
proof (induction us arbitrary: st)
  case (Cons u us)
  obtain b st1 where add: "index_add (of_nat u) s st = (b, st1)" by fastforce
  with Cons.prems(2) have b: "b" and rest: "register_units s first us st1 = (True, st')"
    by (auto split: if_splits)
  note Cons.IH [OF ut.add_ok [OF Cons.prems(1) assms(2,3) add] rest]
  moreover have "index_find (g_index st1) v = (if v = of_nat u then s else index_find (g_index st) v)"
    using ut.add_find [OF Cons.prems(1) assms(2,3) add] b by simp
  ultimately show ?case by auto
qed simp

lemma register_units_false:
  assumes "registry_ok st" and "s \<noteq> 0" "s \<noteq> MM_UNIT_TOMB" and "n \<le> 2 ^ 64"
    and "register_units s first [k..<n] st = (False, st')" and "first \<le> k"
    and "\<forall>v. first \<le> unat v \<and> unat v < n \<longrightarrow> index_find (g_index st0) v = 0"
    and "\<forall>v. \<not> (first \<le> unat v \<and> unat v < k) \<longrightarrow> index_find (g_index st) v = index_find (g_index st0) v"
  shows "registry_ok st' \<and> index_find (g_index st') v = index_find (g_index st0) v"
  using assms(1,5,6,8)
proof (induction "n - k" arbitrary: k st)
  case 0
  then show ?case by simp
next
  case (Suc m)
  then have kn: "k < n" by simp
  obtain b st1 where add: "index_add (of_nat k) s st = (b, st1)" by fastforce
  have ok1: "registry_ok st1" by (rule ut.add_ok [OF Suc.prems(1) assms(2,3) add])
  have find1: "index_find (g_index st1) v = (if b \<and> v = of_nat k then s else index_find (g_index st) v)" for v
    by (rule ut.add_find [OF Suc.prems(1) assms(2,3) add])
  have up: "[k..<n] = k # [Suc k..<n]" using kn by (rule upt_conv_Cons)
  have un: "unat (of_nat k :: u64) = k" using kn assms(4) by (simp add: unat_of_nat take_bit_nat_eq_self)
  show ?case
  proof (cases b)
    case True
    then have rest: "register_units s first [Suc k..<n] st1 = (False, st')"
      using Suc.prems(2) add by (simp add: up)
    have "\<forall>v. \<not> (first \<le> unat v \<and> unat v < Suc k) \<longrightarrow> index_find (g_index st1) v = index_find (g_index st0) v"
    proof (intro allI impI)
      fix v :: u64 assume v: "\<not> (first \<le> unat v \<and> unat v < Suc k)"
      then have "v \<noteq> of_nat k" using un Suc.prems(3) by auto
      then show "index_find (g_index st1) v = index_find (g_index st0) v"
        using find1 [of v] spec [OF Suc.prems(4), of v] v by (simp, linarith)
    qed
    then show ?thesis using Suc.hyps(1) [OF _ ok1 rest] Suc.hyps(2) Suc.prems(3) by simp
  next
    case False
    then have st': "st' = foldl (\<lambda>st v. index_del (of_nat v) st) st1 [first..<k]"
      using Suc.prems(2) add by (simp add: up)
    have k64: "k \<le> 2 ^ 64" using kn assms(4) by simp
    show ?thesis unfolding st'
      using ut.dels_ok [OF ok1] ut.dels_find [OF ok1, of "[first..<k]" v] find1 [of v] False
        Suc.prems(4) assms(7) kn of_nat_unat_image [OF k64, of v first] by auto
  qed
qed

lemma unit_lt: "unat (unit_of p) < 2 ^ 64"
  using unsigned_less [of "unit_of p", where 'a = nat] by simp

definition in_units :: "mm_span \<Rightarrow> u64 \<Rightarrow> bool" where
  "in_units d v \<longleftrightarrow> first_unit d \<le> unat v \<and> unat v \<le> last_unit d"

lemma units_image: "v \<in> of_nat ` set [first_unit d..<Suc (last_unit d)] \<longleftrightarrow> in_units d v"
  using of_nat_unat_image [of "Suc (last_unit d)" v "first_unit d"] unit_lt
  by (simp add: in_units_def last_unit_def Suc_le_eq less_Suc_eq_le)

text \<open>The state the process starts in: every file-scope variable at its initialiser, one arena, an
  empty static table, and the given answers of the operating system.\<close>

definition boot_state :: "nat list \<Rightarrow> mm_state" where
  "boot_state maps =
     \<lparr>mem = (\<lambda>_. 0), descs = (\<lambda>_. span_zero), arenas = (\<lambda>_. arena_zero), mm_self = g_main_arena,
      g_arenas = [g_main_arena], g_orphans = [], g_arena_count = 1, g_arena_epoch = 0, g_user = 0,
      g_index = index_empty MM_INDEX_STATIC, g_index_used = 0, g_index_live = 0, g_span_pool = [],
      g_span_slab = 0, g_span_slab_left = 0, g_last_error = MM_OK, g_mode_default = MM_MODE_MANAGED,
      g_scrub_interval = 1024, g_scrub_budget = 16, g_pinned_secret = 0, os_map = maps,
      os_page = 4096, os_madvise_ok = True, os_unmapped = [], os_entropy = (0, 0, 0)\<rparr>"

lemma boot_registry_ok: "registry_ok (boot_state maps)"
proof -
  have "MM_INDEX_STATIC = 2 ^ 10" by (simp add: MM_INDEX_STATIC_def)
  then show ?thesis using index_empty_ok(1) [of 10] index_empty_ok(2-4)
    by (auto simp: registry_ok_def boot_state_def live_slots_def)
qed

lemma index_del_frame [frame_simps]:
  "arenas (index_del u st) = arenas st" "descs (index_del u st) = descs st"
  "mm_self (index_del u st) = mm_self st" "g_user (index_del u st) = g_user st"
proof -
  have "arenas (index_del_at k i u st) = arenas st \<and> descs (index_del_at k i u st) = descs st \<and>
      mm_self (index_del_at k i u st) = mm_self st \<and> g_user (index_del_at k i u st) = g_user st" for k i
    by (induction k i u st rule: index_del_at.induct) (auto simp: Let_def)
  then show "arenas (index_del u st) = arenas st" "descs (index_del u st) = descs st"
    "mm_self (index_del u st) = mm_self st" "g_user (index_del u st) = g_user st"
    by (simp_all add: index_del_def)
qed

lemma index_dels_frame [frame_simps]:
  "g_arena (foldl (\<lambda>st u. index_del (of_nat u) st) st us) = g_arena st"
  by (induction us arbitrary: st) (simp_all add: g_arena_def frame_simps)

definition lookup_coherent :: "mm_state \<Rightarrow> bool" where
  "lookup_coherent st \<longleftrightarrow> (\<forall>q q'. let s = mm_span_lookup_uncached st q
     in s \<noteq> 0 \<longrightarrow> lo (descs st s) \<le> q' \<longrightarrow> q' < hi (descs st s) \<longrightarrow> mm_span_lookup_uncached st q' = s)"

definition cache_ok :: "mm_state \<Rightarrow> bool" where
  "cache_ok st \<longleftrightarrow> (let s = span_cache (g_arena st) in s = 0 \<or>
     (\<forall>q. lo (descs st s) \<le> q \<and> q < hi (descs st s) \<longrightarrow> mm_span_lookup_uncached st q = s))"

lemma mm_span_of_uncached: "cache_ok st \<Longrightarrow> mm_span_of st q = mm_span_lookup_uncached st q"
  by (auto simp: cache_ok_def mm_span_of_def Let_def)

lemma mm_span_lookup_bounds:
  assumes "mm_span_lookup_uncached st q = s" and "s \<noteq> 0"
  shows "lo (descs st s) \<le> q" and "q < hi (descs st s)"
  using assms by (auto simp: mm_span_lookup_uncached_def Let_def split: if_splits)

lemma mm_span_of_bounds:
  assumes "mm_span_of st q = s" and "s \<noteq> 0"
  shows "lo (descs st s) \<le> q" and "q < hi (descs st s)"
  using assms mm_span_lookup_bounds [of st q s] by (auto simp: mm_span_of_def Let_def split: if_splits)

section \<open>Properties\<close>

text \<open>C31 (refinement). Registering a mapped span whose units are not yet in the table either succeeds,
  and then every unit of its mapping resolves to it and every other unit resolves as before, or the
  table could not be grown, and then no answer of the table has changed at all, the units already
  inserted having been taken out again. Either way the table is left well formed.\<close>

theorem span_register_correct:
  assumes "registry_ok st" and "s \<noteq> 0" and "s \<noteq> MM_UNIT_TOMB" and "kind (descs st s) \<noteq> MM_SPAN_USER"
    and "\<forall>v. in_units (descs st s) v \<longrightarrow> index_find (g_index st) v = 0"
  shows "registry_ok (snd (mm_span_register s st)) \<and>
    index_find (g_index (snd (mm_span_register s st))) v =
      (if fst (mm_span_register s st) \<and> in_units (descs st s) v then s
       else index_find (g_index st) v)"
proof -
  let ?d = "descs st s"
  obtain b st' where res: "mm_span_register s st = (b, st')" by fastforce
  then have reg: "register_units s (first_unit ?d) [first_unit ?d..<Suc (last_unit ?d)] st = (b, st')"
    using assms(4) by (simp add: mm_span_register_def Let_def)
  have top: "Suc (last_unit ?d) \<le> 2 ^ 64" using unit_lt by (simp add: last_unit_def Suc_le_eq)
  show ?thesis
  proof (cases b)
    case True
    then have b: "b = True" by simp
    then show ?thesis
      using register_units_true [OF assms(1-3) reg [unfolded b], of v] res
      by (simp only: units_image fst_conv snd_conv) simp
  next
    case False
    then have b: "b = False" by simp
    have "registry_ok st' \<and> index_find (g_index st') v = index_find (g_index st) v"
      using False assms(5)
      by (intro register_units_false [OF assms(1-3) top reg [unfolded b]])
         (auto simp: in_units_def)
    then show ?thesis using False res by simp
  qed
qed

text \<open>C32 (functional). Unregistering a mapped span makes every unit of its mapping a foreign one and
  changes no other answer, whatever is in the table.\<close>

theorem span_unregister_correct:
  assumes "registry_ok st" and "s \<noteq> 0" and "kind (descs st s) \<noteq> MM_SPAN_USER"
  shows "registry_ok (mm_span_unregister s st) \<and>
    index_find (g_index (mm_span_unregister s st)) v =
      (if in_units (descs st s) v then 0 else index_find (g_index st) v) \<and>
    span_cache (g_arena (mm_span_unregister s st)) \<noteq> s"
proof -
  let ?us = "[first_unit (descs st s)..<Suc (last_unit (descs st s))]"
  define st1 where "st1 = (if span_cache (g_arena st) = s then upd_arena (\<lambda>a. a\<lparr>span_cache := 0\<rparr>) st else st)"
  have un: "mm_span_unregister s st = foldl (\<lambda>st u. index_del (of_nat u) st) st1 ?us"
    using assms(3) by (simp add: mm_span_unregister_def Let_def st1_def upd_arena_def)
  have ix: "g_index st1 = g_index st" and ok: "registry_ok st1" and "span_cache (g_arena st1) \<noteq> s"
    using assms(1,2) by (auto simp: st1_def upd_arena_def registry_ok_def g_arena_def)
  then show ?thesis
    using ut.dels_ok [OF ok, of ?us] ut.dels_find [OF ok, of ?us v, unfolded units_image]
    unfolding un by (simp add: frame_simps)
qed


text \<open>A span of one 2 MB unit, and the state that holds its descriptor.\<close>

definition sample_span :: mm_span where
  "sample_span = \<lparr>magic = mm_span_magic_for 16, lo = 2 ^ 21, hi = 2 ^ 22, owner = g_main_arena,
     index_base = 0, map_base = 2 ^ 21, map_size = 2 ^ 21, kind = MM_SPAN_CHUNK, fresh = True,
     trim_after = 0\<rparr>"

definition sample_state :: mm_state where
  "sample_state = upd_desc 16 (\<lambda>_. sample_span) (boot_state [])"

lemma sample_units: "in_units sample_span v \<longleftrightarrow> v = 1"
proof -
  have "first_unit sample_span = 1" "last_unit sample_span = 1"
    by (simp_all add: first_unit_def last_unit_def sample_span_def unit_of_def MM_CHUNK_SHIFT_def
        drop_bit_eq_div)
  then show ?thesis using word_unat_eq_iff [of v 1] by (auto simp: in_units_def)
qed

lemma sample_state_facts:
  "registry_ok sample_state" "descs sample_state 16 = sample_span" "kind sample_span \<noteq> MM_SPAN_USER"
  "index_find (g_index sample_state) v = 0"
proof -
  have "g_index sample_state = g_index (boot_state [])" by (simp add: sample_state_def upd_desc_def)
  moreover show "registry_ok sample_state"
    using boot_registry_ok [of "[]"] by (simp add: registry_ok_def sample_state_def upd_desc_def)
  ultimately show "index_find (g_index sample_state) v = 0"
    using index_find_zero_iff [of "g_index sample_state" v] index_empty_ok(4)
    by (auto simp: registry_ok_def index_maps_def boot_state_def)
qed (simp_all add: sample_state_def upd_desc_def sample_span_def)

theorem span_register_correct_witness:
  "index_find (g_index (snd (mm_span_register 16 sample_state))) 1 = 16"
proof -
  have "fst (mm_span_register 16 sample_state)"
  proof -
    have "first_unit sample_span = 1" "last_unit sample_span = 1"
      using sample_units [of 1] by (simp_all add: first_unit_def last_unit_def sample_span_def
          unit_of_def MM_CHUNK_SHIFT_def drop_bit_eq_div)
    then show ?thesis using sample_state_facts(2,3)
      by (simp add: mm_span_register_def Let_def index_add_def sample_state_def upd_desc_def
          boot_state_def index_empty_def MM_INDEX_STATIC_def)
  qed
  then show ?thesis
    using span_register_correct [of sample_state 16 1] sample_state_facts sample_units
    by (simp add: MM_UNIT_TOMB_def)
qed

theorem span_unregister_correct_witness:
  "index_find (g_index (mm_span_unregister 16 sample_state)) 1 = 0"
  using span_unregister_correct [of sample_state 16 1] sample_state_facts by simp

end
