(* ===== verification/Mars_Validate.thy ===== *)
theory Mars_Validate
  imports Mars_Registry
begin

unbundle bit_operations_syntax

text \<open>
  Bounds, header validation, canaries and sealing, from \<^verbatim>\<open>src/mm_integrity.c\<close>: the part of the
  integrity layer that every walk, every coalesce and every bin operation goes through. The lemmas
  give the frame of each write; the properties say what the header checksum detects and what
  sealing establishes.
\<close>

section \<open>Bounds\<close>

definition start_ok_in :: "mm_config \<Rightarrow> mm_span \<Rightarrow> nat \<Rightarrow> bool" where
  "start_ok_in c d b \<longleftrightarrow>
     sub64 b (lo d) mod MM_ALIGNMENT = 0 \<and> sub64 (hi d) b \<ge> MM_MIN_BLOCK c"

definition block_ok_in :: "mm_config \<Rightarrow> bytes \<Rightarrow> mm_span \<Rightarrow> nat \<Rightarrow> bool" where
  "block_ok_in c m d b \<longleftrightarrow>
     start_ok_in c d b \<and>
     (let n = mm_block_size m b in \<not> n < MM_MIN_BLOCK c \<and> n \<le> sub64 (hi d) b)"

definition mm_is_block_start :: "mm_config \<Rightarrow> mm_state \<Rightarrow> nat \<Rightarrow> bool" where
  "mm_is_block_start c st b \<longleftrightarrow>
     b \<noteq> 0 \<and> (let s = mm_span_of st b in s \<noteq> 0 \<and> start_ok_in c (descs st s) b)"

definition mm_is_block :: "mm_config \<Rightarrow> mm_state \<Rightarrow> nat \<Rightarrow> bool" where
  "mm_is_block c st b \<longleftrightarrow>
     b \<noteq> 0 \<and> (let s = mm_span_of st b in s \<noteq> 0 \<and> block_ok_in c (mem st) (descs st s) b)"

definition mm_span_max_blocks :: "mm_config \<Rightarrow> mm_span \<Rightarrow> nat" where
  "mm_span_max_blocks c d = sub64 (hi d) (lo d) div MM_MIN_BLOCK c + 1"

definition mm_max_blocks :: "mm_config \<Rightarrow> mm_state \<Rightarrow> nat" where
  "mm_max_blocks c st = total_bytes (g_arena st) div MM_MIN_BLOCK c + 1"

section \<open>Validation\<close>

definition mm_header_ok :: "mm_config \<Rightarrow> mm_state \<Rightarrow> nat \<Rightarrow> bool" where
  "mm_header_ok c st b \<longleftrightarrow>
     b \<noteq> 0 \<and>
     (let s = mm_span_of st b
      in s \<noteq> 0 \<and> block_ok_in c (mem st) (descs st s) b \<and>
         (MM_HAS_CRC c \<longrightarrow>
            hdr_crc (mem st) b =
              mm_hdr_crc_of (mem st) b (mm_index_in (descs st s) b) (secret (g_arena st))))"

definition mm_extent_corroborated :: "mm_config \<Rightarrow> mm_state \<Rightarrow> nat \<Rightarrow> bool" where
  "mm_extent_corroborated c st b \<longleftrightarrow>
     mm_header_ok c st b \<and>
     (if MM_HAS_CRC c then True
      else if mm_is_used (mem st) b then True
      else load64 (mem st) (mm_block_end (mem st) b - 8) = of_nat (mm_block_size (mem st) b))"

definition mm_unchanged :: "mm_config \<Rightarrow> mm_state \<Rightarrow> nat \<Rightarrow> nat \<Rightarrow> bool \<Rightarrow> bool" where
  "mm_unchanged c st b block_size used \<longleftrightarrow>
     mm_header_ok c st b \<and> mm_block_size (mem st) b = block_size \<and> mm_is_used (mem st) b = used"

section \<open>Canary\<close>

definition canary_at :: "mm_config \<Rightarrow> bytes \<Rightarrow> nat \<Rightarrow> nat" where
  "canary_at c m b = mm_payload_of c b + mm_requested_size c m b"

definition mm_write_canary :: "mm_config \<Rightarrow> nat \<Rightarrow> mm_state \<Rightarrow> mm_state" where
  "mm_write_canary c b st =
     (if MM_HAS_CANARY c
      then upd_mem (\<lambda>m. store64 m (canary_at c m b)
                          (mm_canary_value (mm_block_index st b) (secret (g_arena st)))) st
      else st)"

definition mm_canary_ok :: "mm_config \<Rightarrow> mm_state \<Rightarrow> nat \<Rightarrow> bool" where
  "mm_canary_ok c st b \<longleftrightarrow>
     (if MM_HAS_CANARY c
      then if \<not> mm_is_used (mem st) b \<or> mm_is_quarantined (mem st) b then True
           else load64 (mem st) (canary_at c (mem st) b) =
                  mm_canary_value (mm_block_index st b) (secret (g_arena st))
      else True)"

section \<open>Sealing\<close>

definition mm_seal :: "mm_config \<Rightarrow> nat \<Rightarrow> mm_state \<Rightarrow> mm_state" where
  "mm_seal c b st =
     (let st = (if MM_HAS_CRC c
                then upd_mem (\<lambda>m. set_hdr_crc m b
                       (mm_hdr_crc_of m b (mm_block_index st b) (secret (g_arena st)))) st
                else st)
      in if MM_HAS_MIRROR c \<and> mm_is_used (mem st) b
         then upd_mem (\<lambda>m. mem_write m (mm_block_end m b - MM_MIRROR_SIZE c)
                             (mem_read m b (MM_HDR_SIZE c))) st
         else st)"

definition seal_and_link :: "mm_config \<Rightarrow> nat \<Rightarrow> mm_state \<Rightarrow> mm_state" where
  "seal_and_link c b st =
     (let st = (if \<not> mm_is_used (mem st) b then upd_mem (\<lambda>m. mm_write_free_footer m b) st else st);
          st = mm_seal c b st;
          s = mm_span_of st b
      in if s = 0 then st
         else let n = mm_block_end (mem st) b
              in if n \<ge> hi (descs st s) then st
                 else if \<not> mm_header_ok c st n then st
                 else let used = mm_is_used (mem st) b
                      in if mm_prev_in_use (mem st) n \<noteq> used
                         then mm_seal c n (upd_mem (\<lambda>m. mm_set_prev_in_use m n used) st)
                         else st)"

section \<open>State lemmas\<close>

lemma upd_simps [simp]:
  "mem (upd_mem f st) = f (mem st)" "descs (upd_mem f st) = descs st" "g_arena (upd_mem f st) = g_arena st"
  "g_user (upd_mem f st) = g_user st" "g_index (upd_mem f st) = g_index st"
  "g_last_error (upd_mem f st) = g_last_error st" "mm_self (upd_mem f st) = mm_self st"
  "arenas (upd_mem f st) = arenas st"
  "mem (upd_arena h st) = mem st" "descs (upd_arena h st) = descs st"
  "g_arena (upd_arena h st) = h (g_arena st)" "g_user (upd_arena h st) = g_user st"
  "g_index (upd_arena h st) = g_index st" "mm_self (upd_arena h st) = mm_self st"
  "g_last_error (upd_arena h st) = g_last_error st"
  "mem (mm_fail e st) = mem st" "descs (mm_fail e st) = descs st" "g_arena (mm_fail e st) = g_arena st"
  "g_user (mm_fail e st) = g_user st" "g_index (mm_fail e st) = g_index st"
  "mm_self (mm_fail e st) = mm_self st" "arenas (mm_fail e st) = arenas st"
  "g_last_error (mm_fail e st) = e"
  by (simp_all add: upd_mem_def upd_arena_def mm_fail_def g_arena_def)

text \<open>The answers of the registry depend on the registry fields and the cache alone.\<close>

definition same_registry :: "mm_state \<Rightarrow> mm_state \<Rightarrow> bool" where
  "same_registry st st' \<longleftrightarrow> descs st' = descs st \<and> g_user st' = g_user st \<and> g_index st' = g_index st \<and>
     span_cache (g_arena st') = span_cache (g_arena st)"

lemma same_registry_refl [simp]: "same_registry st st"
  by (simp add: same_registry_def)

lemma same_registry_upd [simp]: "same_registry st (upd_mem f st)" "same_registry st (mm_fail e st)"
  by (simp_all add: same_registry_def)

lemma mm_span_of_cong: "same_registry st st' \<Longrightarrow> mm_span_of st' q = mm_span_of st q"
  by (simp add: same_registry_def mm_span_of_def mm_span_lookup_uncached_def Let_def)

lemma mm_span_of_upd [simp]:
  "mm_span_of (upd_mem f st) q = mm_span_of st q" "mm_span_of (mm_fail e st) q = mm_span_of st q"
  by (simp_all add: mm_span_of_cong [OF same_registry_upd(1)] mm_span_of_cong [OF same_registry_upd(2)])

lemma mm_block_index_upd [simp]:
  "mm_block_index (upd_mem f st) b = mm_block_index st b"
  "mm_block_index (mm_fail e st) b = mm_block_index st b"
  by (simp_all add: mm_block_index_def Let_def)

section \<open>What a header depends on\<close>

lemma word_cong: "same_on b 8 m m' \<Longrightarrow> mm_word m b = mm_word m' b"
  by (simp add: mm_word_def load64_cong)

lemma header_fields_cong:
  assumes "same_on b (MM_HDR_SIZE c) m m'"
  shows "mm_word m' b = mm_word m b" "mm_block_size m' b = mm_block_size m b"
    "mm_is_used m' b = mm_is_used m b" "mm_prev_in_use m' b = mm_prev_in_use m b"
    "mm_is_quarantined m' b = mm_is_quarantined m b" "mm_requested_size c m' b = mm_requested_size c m b"
    "mm_block_end m' b = mm_block_end m b"
    "MM_HAS_CRC c \<Longrightarrow> hdr_crc m' b = hdr_crc m b" "MM_HAS_CRC c \<Longrightarrow> payload_crc m' b = payload_crc m b"
    "MM_HAS_CRC c \<Longrightarrow> mm_hdr_crc_of m' b i s = mm_hdr_crc_of m b i s"
proof -
  have "same_on b 8 m m'" using assms layout_bounds(1) [of c] by (auto simp: same_on_def)
  then show w: "mm_word m' b = mm_word m b" using word_cong by simp
  show "mm_block_size m' b = mm_block_size m b" "mm_is_used m' b = mm_is_used m b"
    "mm_prev_in_use m' b = mm_prev_in_use m b" "mm_is_quarantined m' b = mm_is_quarantined m b"
    "mm_requested_size c m' b = mm_requested_size c m b"
    by (simp_all add: w mm_block_size_def mm_is_used_def mm_prev_in_use_def mm_is_quarantined_def
        mm_requested_size_def)
  then show "mm_block_end m' b = mm_block_end m b" by (simp add: mm_block_end_def)
  assume "MM_HAS_CRC c"
  then have "same_on (b + 8) 4 m m'" "same_on (b + 12) 4 m m'"
    using assms by (auto simp: same_on_def MM_HDR_SIZE_def)
  then show "hdr_crc m' b = hdr_crc m b" and p: "payload_crc m' b = payload_crc m b"
    using load32_cong by (simp_all add: hdr_crc_def payload_crc_def)
  then show "mm_hdr_crc_of m' b i s = mm_hdr_crc_of m b i s" by (simp add: mm_hdr_crc_of_def w)
qed

lemma mm_header_ok_cong:
  assumes "same_registry st st'" and "secret (g_arena st') = secret (g_arena st)"
    and "same_on b (MM_HDR_SIZE c) (mem st) (mem st')"
  shows "mm_header_ok c st' b \<longleftrightarrow> mm_header_ok c st b"
  using assms header_fields_cong [OF assms(3)] mm_span_of_cong [OF assms(1), of b]
  by (auto simp: mm_header_ok_def Let_def block_ok_in_def same_registry_def)

lemma mm_is_block_cong:
  assumes "same_registry st st'" and "same_on b 8 (mem st) (mem st')"
  shows "mm_is_block c st' b \<longleftrightarrow> mm_is_block c st b"
  using assms(1) word_cong [OF assms(2)] mm_span_of_cong [OF assms(1), of b]
  by (auto simp: mm_is_block_def Let_def block_ok_in_def mm_block_size_def same_registry_def)

lemma mm_header_ok_is_block: "mm_header_ok c st b \<Longrightarrow> mm_is_block c st b"
  by (auto simp: mm_header_ok_def mm_is_block_def Let_def)

lemma mm_is_block_start: "mm_is_block c st b \<Longrightarrow> mm_is_block_start c st b"
  by (auto simp: mm_is_block_start_def mm_is_block_def Let_def block_ok_in_def)

text \<open>A block that passes the structural check lies inside its span.\<close>

lemma mm_is_block_bounds:
  assumes "mm_is_block c st b"
  shows "lo (descs st (mm_span_of st b)) \<le> b" and "mm_block_end (mem st) b \<le> hi (descs st (mm_span_of st b))"
    and "MM_MIN_BLOCK c \<le> mm_block_size (mem st) b" and "mm_span_of st b \<noteq> 0"
    and "16 dvd b - lo (descs st (mm_span_of st b))"
proof -
  let ?s = "mm_span_of st b"
  show s: "?s \<noteq> 0" using assms by (auto simp: mm_is_block_def Let_def)
  note b = mm_span_of_bounds [OF refl s]
  show "lo (descs st ?s) \<le> b" by (rule b)
  show "mm_block_end (mem st) b \<le> hi (descs st ?s)" "MM_MIN_BLOCK c \<le> mm_block_size (mem st) b"
    "16 dvd b - lo (descs st ?s)"
    using assms b by (auto simp: mm_is_block_def Let_def block_ok_in_def start_ok_in_def
        mm_block_end_def not_less)
qed

section \<open>Bit flips in a header\<close>

definition flip_at :: "bytes \<Rightarrow> nat \<Rightarrow> nat \<Rightarrow> bytes" where
  "flip_at m a j = m(a := m a XOR push_bit j 1)"

definition flip_bits :: "bytes \<Rightarrow> nat \<Rightarrow> (nat \<times> nat) list \<Rightarrow> bytes" where
  "flip_bits m b F = foldl (\<lambda>m (k, j). flip_at m (b + k) j) m F"

definition hdr_residual :: "bytes \<Rightarrow> nat \<Rightarrow> u64 \<Rightarrow> u64 \<Rightarrow> u32" where
  "hdr_residual m b i s = hdr_crc m b XOR mm_hdr_crc_of m b i s"

definition syndrome :: "nat \<Rightarrow> nat \<Rightarrow> u32" where
  "syndrome k j = (if k < 8 then (crc_bit ^^ (8 * (32 - k) - j)) 1
     else if k < 12 then push_bit (8 * (k - 8) + j) 1 else (crc_bit ^^ (8 * (36 - k) - j)) 1)"

lemma bytes_of_load64 [simp]: "bytes_of (load64 m a) = mem_read m a 8"
  by (simp add: load64_def)

lemma bytes_of_load32 [simp]: "bytes_of (load32 m a) = mem_read m a 4"
  by (simp add: load32_def)

lemma bytes_of_widen: "bytes_of (ucast (w::u32) :: u64) = bytes_of w @ [0, 0, 0, 0]"
proof -
  have "(ucast (drop_bit (8 * i) (ucast w :: u64)) :: u8) = (if i < 4 then ucast (drop_bit (8 * i) w) else 0)"
    for i :: nat
  proof (rule bit_word_eqI)
    fix n assume "n < LENGTH(8)"
    then show "bit (ucast (drop_bit (8 * i) (ucast w :: u64)) :: u8) n =
        bit (if i < 4 then ucast (drop_bit (8 * i) w) else (0::u8)) n"
      using bit_imp_le_length [of w "8 * i + n"] by (auto simp: bit_ucast_iff bit_drop_bit_eq)
  qed
  then show ?thesis by (simp add: bytes_of_def upt_rec)
qed

lemma hdr_crc_message:
  "mm_hdr_crc_of m b i s =
     mm_crc32c (mem_read m b 8 @ mem_read m (b + 12) 4 @ [0, 0, 0, 0] @ bytes_of i @ bytes_of s)"
  by (simp add: mm_hdr_crc_of_def mm_word_def payload_crc_def bytes_of_widen)

lemma mem_read_flip:
  "mem_read (flip_at m a j) b n =
     (if b \<le> a \<and> a < b + n then (mem_read m b n)[a - b := mem_read m b n ! (a - b) XOR push_bit j 1]
      else mem_read m b n)"
  by (auto simp: mem_read_def flip_at_def nth_list_update intro!: nth_equalityI)

lemma load32_flip:
  assumes "k < 4" and "j < 8"
  shows "load32 (flip_at m (a + k) j) a = load32 m a XOR push_bit (8 * k + j) 1"
proof (rule bit_word_eqI)
  fix n assume "n < LENGTH(32)"
  then have n: "n < 32" "n div 8 < 4" by simp_all
  have "n = 8 * k + j \<longleftrightarrow> n div 8 = k \<and> n mod 8 = j" using assms(2) by auto
  then show "bit (load32 (flip_at m (a + k) j) a) n = bit (load32 m a XOR push_bit (8 * k + j) 1) n"
    using n assms
    by (auto simp: load32_def bit_word_of_bytes bit_xor_iff bit_push_bit_iff mem_read_flip
        nth_list_update bit_1_iff bit_exp_iff)
qed

lemma residual_flip:
  assumes "k < 16" and "j < 8"
  shows "hdr_residual (flip_at m (b + k) j) b i s = hdr_residual m b i s XOR syndrome k j"
proof -
  let ?m = "flip_at m (b + k) j" and ?t = "[0, 0, 0, 0] @ bytes_of i @ bytes_of s"
  let ?msg = "mem_read m b 8 @ mem_read m (b + 12) 4 @ ?t"
  consider "k < 8" | "8 \<le> k" "k < 12" | "12 \<le> k" by linarith
  then show ?thesis
  proof cases
    case 1
    have "mem_read ?m b 8 @ mem_read ?m (b + 12) 4 @ ?t = ?msg[k := ?msg ! k XOR push_bit j 1]"
      using 1 by (simp add: mem_read_flip list_update_append nth_append)
    moreover have "hdr_crc ?m b = hdr_crc m b"
      using 1 by (simp add: hdr_crc_def load32_def mem_read_flip)
    ultimately show ?thesis using mm_crc32c_flip [of k ?msg j] 1 assms(2)
      by (simp add: hdr_residual_def hdr_crc_message syndrome_def xor.assoc)
  next
    case 2
    have "mm_hdr_crc_of ?m b i s = mm_hdr_crc_of m b i s"
      using 2 by (simp add: hdr_crc_message mem_read_flip)
    moreover have "hdr_crc ?m b = hdr_crc m b XOR push_bit (8 * (k - 8) + j) 1"
      using load32_flip [of "k - 8" j m "b + 8"] 2 assms(2) by (simp add: hdr_crc_def)
    ultimately show ?thesis using 2 by (simp add: hdr_residual_def syndrome_def xor.assoc xor.commute xor.left_commute)
  next
    case 3
    then obtain e where e: "k = 12 + e" "e < 4" using assms(1) by (auto simp: le_iff_add)
    have k: "k - 4 < length ?msg" "32 - (k - 4) = 36 - k" "length ?msg = 32" using e by simp_all
    have "mem_read ?m b 8 @ mem_read ?m (b + 12) 4 @ ?t = ?msg[k - 4 := ?msg ! (k - 4) XOR push_bit j 1]"
      using e by (simp add: mem_read_flip list_update_append nth_append)
    moreover have "hdr_crc ?m b = hdr_crc m b"
      using 3 by (simp add: hdr_crc_def load32_def mem_read_flip)
    ultimately show ?thesis using mm_crc32c_flip [OF k(1) assms(2)] 3 k(2,3)
      by (simp add: hdr_residual_def hdr_crc_message syndrome_def xor.assoc)
  qed
qed

definition syn_exp :: "nat \<Rightarrow> nat \<Rightarrow> nat" where
  "syn_exp k j = (if k < 8 then 31 + 8 * (32 - k) - j
     else if k < 12 then 31 - (8 * (k - 8) + j) else 31 + 8 * (36 - k) - j)"

lemma syndrome_exp:
  assumes "k < 16" and "j < 8"
  shows "(crc_bit ^^ 31) (syndrome k j) = (crc_bit ^^ syn_exp k j) 1" and "syn_exp k j \<le> 287"
proof -
  have msg: "(crc_bit ^^ 31) ((crc_bit ^^ n) x) = (crc_bit ^^ (31 + n)) x" for n x
    by (simp add: funpow_add)
  have stored: "(crc_bit ^^ 31) (push_bit e 1) = (crc_bit ^^ (31 - e)) 1" if "e \<le> 31" for e
  proof -
    have "(crc_bit ^^ 31) x = (crc_bit ^^ (31 - e)) ((crc_bit ^^ e) x)" for x
      using that by (metis funpow_add le_add_diff_inverse2 o_apply)
    then show ?thesis using crc_single [of e] that by simp
  qed
  show "(crc_bit ^^ 31) (syndrome k j) = (crc_bit ^^ syn_exp k j) 1"
    using assms stored [of "8 * (k - 8) + j"] by (auto simp: syndrome_def syn_exp_def msg)
  show "syn_exp k j \<le> 287" using assms by (auto simp: syn_exp_def)
qed

lemma syn_exp_inject:
  assumes "k < 16" "j < 8" "k' < 16" "j' < 8" "syn_exp k j = syn_exp k' j'"
  shows "k = k' \<and> j = j'"
proof -
  have alt: "syn_exp k j = (if k < 8 then 287 - (8 * k + j) else if k < 12 then 95 - (8 * k + j)
      else 319 - (8 * k + j))" if "k < 16" "j < 8" for k j
    using that by (auto simp: syn_exp_def)
  have "8 * k + j = 8 * k' + j'"
    using assms unfolding alt [OF assms(1,2)] alt [OF assms(3,4)] by (simp split: if_splits)
  then show ?thesis using assms(2,4) by presburger
qed

lemma syndrome_inject:
  assumes "k < 16" "j < 8" "k' < 16" "j' < 8" "syndrome k j = syndrome k' j'"
  shows "k = k' \<and> j = j'"
  using syndrome_exp [OF assms(1,2)] syndrome_exp [OF assms(3,4)] assms crc_bits_one_inject
    syn_exp_inject by metis

lemma par_1: "par (1 :: u32)"
  by (simp add: par_def bit_1_iff)

lemma par_syndrome: "k < 16 \<Longrightarrow> j < 8 \<Longrightarrow> par (syndrome k j)"
  using syndrome_exp(1) [of k j] par_crc_bits par_1 by metis

lemma residual_flips:
  assumes "\<forall>(k, j) \<in> set F. k < 16 \<and> j < 8"
  shows "hdr_residual (flip_bits m b F) b i s =
    foldl (\<lambda>r (k, j). r XOR syndrome k j) (hdr_residual m b i s) F"
  using assms
  by (induction F arbitrary: m) (auto simp: flip_bits_def residual_flip)

lemma par_residual:
  assumes "\<forall>(k, j) \<in> set F. k < 16 \<and> j < 8"
  shows "par (foldl (\<lambda>r (k, j). r XOR syndrome k j) r F) \<longleftrightarrow> par r \<noteq> odd (length F)"
  using assms by (induction F arbitrary: r) (auto simp: par_xor par_syndrome)

lemma xor_zero_iff: "x XOR y = 0 \<longleftrightarrow> x = (y :: u32)"
proof
  assume "x XOR y = 0"
  have "x = (x XOR y) XOR y" by (simp add: xor.assoc)
  then show "x = y" using \<open>x XOR y = 0\<close> by simp
qed simp

lemma flips_detected:
  assumes F: "\<forall>(k, j) \<in> set F. k < 16 \<and> j < 8" "distinct F" "odd (length F) \<or> length F = 2"
    and clean: "hdr_residual m b i s = 0"
  shows "hdr_residual (flip_bits m b F) b i s \<noteq> 0"
proof (cases "odd (length F)")
  case True
  then have "par (hdr_residual (flip_bits m b F) b i s)"
    using residual_flips [OF F(1)] par_residual [OF F(1)] clean by simp
  then show ?thesis by auto
next
  case False
  then obtain p q where "F = [p, q]" using F(3) by (auto simp: numeral_2_eq_2 length_Suc_conv)
  moreover obtain k j k' j' where "p = (k, j)" "q = (k', j')" by fastforce
  ultimately have Fpq: "F = [(k, j), (k', j')]" by simp
  then have "syndrome k j \<noteq> syndrome k' j'" using F(1,2) syndrome_inject by auto
  then have "syndrome k j XOR syndrome k' j' \<noteq> 0" by (simp add: xor_zero_iff)
  then show ?thesis using residual_flips [OF F(1)] clean by (simp add: Fpq)
qed

lemma mm_header_ok_residual:
  "MM_HAS_CRC c \<Longrightarrow> mm_header_ok c st b \<longleftrightarrow> mm_is_block c st b \<and>
     hdr_residual (mem st) b (mm_block_index st b) (secret (g_arena st)) = 0"
  by (auto simp: mm_header_ok_def mm_is_block_def hdr_residual_def mm_block_index_def Let_def xor_zero_iff)

section \<open>Properties\<close>

text \<open>C23 (safety). Bit flips in a sealed header are detected: under the two checksummed profiles, if
  the header of a block is valid and then one bit, two bits, three bits or any other odd number of
  distinct bits of its sixteen bytes are flipped (the control word, the stored checksum and the
  payload checksum alike), \<^verbatim>\<open>mm_header_ok\<close> rejects the block.\<close>

theorem header_flips_detected:
  assumes "MM_HAS_CRC c" and "mm_header_ok c st b"
    and "\<forall>(k, j) \<in> set F. k < 16 \<and> j < 8" and "distinct F" and "odd (length F) \<or> length F = 2"
  shows "\<not> mm_header_ok c (upd_mem (\<lambda>m. flip_bits m b F) st) b"
  using flips_detected [OF assms(3-5)] assms(2) mm_header_ok_residual [OF assms(1)] by simp

section \<open>Sealing\<close>

lemma mm_seal_frame [simp]:
  "descs (mm_seal c b st) = descs st" "g_arena (mm_seal c b st) = g_arena st"
  "g_user (mm_seal c b st) = g_user st" "g_index (mm_seal c b st) = g_index st"
  "mm_self (mm_seal c b st) = mm_self st" "g_last_error (mm_seal c b st) = g_last_error st"
  "same_registry st (mm_seal c b st)" "arenas (mm_seal c b st) = arenas st"
  by (simp_all add: mm_seal_def Let_def same_registry_def)

lemma mm_span_of_seal [simp]:
  "mm_span_of (mm_seal c b st) q = mm_span_of st q" "mm_block_index (mm_seal c b st) q = mm_block_index st q"
  using mm_span_of_cong [OF mm_seal_frame(7)] by (simp_all add: mm_block_index_def Let_def)

lemma set_hdr_crc_within: "within (b + 8) (b + 12) m (set_hdr_crc m b v)"
  by (simp add: set_hdr_crc_def within_store)

lemma mm_seal_mem:
  assumes "MM_MIN_BLOCK c \<le> mm_block_size (mem st) b"
  shows "mm_word (mem (mm_seal c b st)) b = mm_word (mem st) b"
    and "MM_HAS_CRC c \<Longrightarrow> payload_crc (mem (mm_seal c b st)) b = payload_crc (mem st) b"
    and "MM_HAS_CRC c \<Longrightarrow> hdr_crc (mem (mm_seal c b st)) b =
      mm_hdr_crc_of (mem st) b (mm_block_index st b) (secret (g_arena st))"
    and "within b (mm_block_end (mem st) b) (mem st) (mem (mm_seal c b st))"
proof -
  let ?m = "set_hdr_crc (mem st) b (mm_hdr_crc_of (mem st) b (mm_block_index st b) (secret (g_arena st)))"
  have fast: "mem (mm_seal c b st) = mem st" if "\<not> MM_HAS_CRC c"
    using that by (simp add: mm_seal_def MM_HAS_CRC_def MM_HAS_MIRROR_def)
  have w: "mm_word ?m b = mm_word (mem st) b" by (simp add: mem_simps)
  then have sz: "mm_block_end ?m b = b + mm_block_size (mem st) b" "mm_is_used ?m b = mm_is_used (mem st) b"
    by (simp_all add: mm_block_end_def mm_block_size_def mm_is_used_def)
  have crc: "mem (mm_seal c b st) = ?m \<or> (MM_HAS_MIRROR c \<and>
      mem (mm_seal c b st) = mem_write ?m (b + mm_block_size (mem st) b - 16) (mem_read ?m b 16))"
    if "MM_HAS_CRC c"
    using that by (auto simp: mm_seal_def Let_def sz MM_MIRROR_SIZE_def MM_HDR_SIZE_def)
  have far: "b + 16 \<le> b + mm_block_size (mem st) b - 16"
    using assms layout_bounds(6) [of c] by linarith
  have keep: "same_on b 16 ?m (mem (mm_seal c b st))" if "MM_HAS_CRC c"
    using crc [OF that] far by (auto intro!: same_on_write)
  have hd: "mm_word (mem (mm_seal c b st)) b = mm_word (mem st) b"
      "payload_crc (mem (mm_seal c b st)) b = payload_crc (mem st) b"
      "hdr_crc (mem (mm_seal c b st)) b =
        mm_hdr_crc_of (mem st) b (mm_block_index st b) (secret (g_arena st))" if "MM_HAS_CRC c"
    using header_fields_cong(1,8,9) [of b c ?m "mem (mm_seal c b st)"] keep [OF that] that w
    by (simp_all add: MM_HDR_SIZE_def mem_simps)
  show "mm_word (mem (mm_seal c b st)) b = mm_word (mem st) b" using hd(1) fast by fastforce
  show "MM_HAS_CRC c \<Longrightarrow> payload_crc (mem (mm_seal c b st)) b = payload_crc (mem st) b"
    "MM_HAS_CRC c \<Longrightarrow> hdr_crc (mem (mm_seal c b st)) b =
      mm_hdr_crc_of (mem st) b (mm_block_index st b) (secret (g_arena st))" using hd by blast+
  show "within b (mm_block_end (mem st) b) (mem st) (mem (mm_seal c b st))"
  proof (cases "MM_HAS_CRC c")
    case True
    have "within b (b + mm_block_size (mem st) b) (mem st) ?m"
      by (rule within_mono [OF set_hdr_crc_within]) (use far in simp_all)
    moreover from this have "within b (b + mm_block_size (mem st) b) (mem st)
        (mem_write ?m (b + mm_block_size (mem st) b - 16) (mem_read ?m b 16))"
      using far by (elim within_trans, intro within_write) simp_all
    ultimately show ?thesis using crc [OF True] unfolding mm_block_end_def by metis
  qed (simp add: fast)
qed

lemma mm_seal_fields:
  assumes "MM_MIN_BLOCK c \<le> mm_block_size (mem st) b"
  shows "mm_block_size (mem (mm_seal c b st)) b = mm_block_size (mem st) b"
    "mm_is_used (mem (mm_seal c b st)) b = mm_is_used (mem st) b"
    "mm_prev_in_use (mem (mm_seal c b st)) b = mm_prev_in_use (mem st) b"
    "mm_is_quarantined (mem (mm_seal c b st)) b = mm_is_quarantined (mem st) b"
    "mm_requested_size c (mem (mm_seal c b st)) b = mm_requested_size c (mem st) b"
    "mm_block_end (mem (mm_seal c b st)) b = mm_block_end (mem st) b"
  by (simp_all add: mm_seal_mem(1) [OF assms] mm_block_size_def mm_is_used_def mm_prev_in_use_def
      mm_is_quarantined_def mm_requested_size_def mm_block_end_def)

lemma mm_seal_header_ok:
  assumes "mm_is_block c st b"
  shows "mm_header_ok c (mm_seal c b st) b"
proof -
  note bd = mm_is_block_bounds [OF assms]
  note s = mm_seal_mem [OF bd(3)] mm_seal_fields [OF bd(3)]
  have "mm_hdr_crc_of (mem (mm_seal c b st)) b i k = mm_hdr_crc_of (mem st) b i k" if "MM_HAS_CRC c" for i k
    using s(1) s(2) [OF that] by (simp add: mm_hdr_crc_of_def)
  then show ?thesis using assms s
    by (auto simp: mm_header_ok_def mm_is_block_def Let_def block_ok_in_def mm_block_index_def)
qed

section \<open>Canary\<close>

lemma mm_write_canary_frame [simp]:
  "descs (mm_write_canary c b st) = descs st" "g_arena (mm_write_canary c b st) = g_arena st"
  "same_registry st (mm_write_canary c b st)"
  by (simp_all add: mm_write_canary_def)

lemma mm_write_canary_header: "same_on b (MM_HDR_SIZE c) (mem st) (mem (mm_write_canary c b st))"
  by (simp add: mm_write_canary_def canary_at_def mm_payload_of_def same_on_store64)

lemma mm_canary_ok_iff:
  assumes "MM_HAS_CANARY c" and "mm_is_used (mem st) b" and "\<not> mm_is_quarantined (mem st) b"
  shows "mm_canary_ok c st b \<longleftrightarrow> mem_read (mem st) (canary_at c (mem st) b) 8 =
    bytes_of (mm_canary_value (mm_block_index st b) (secret (g_arena st)))"
proof -
  have eight: "LENGTH(64) mod 8 = 0" by simp
  have "bytes_of x = bytes_of y \<longleftrightarrow> x = y" for x y :: u64
    using word_of_bytes_of [OF eight, of x] word_of_bytes_of [OF eight, of y] by metis
  then show ?thesis using assms by (simp add: mm_canary_ok_def flip: bytes_of_load64)
qed

section \<open>Properties of sealing and canaries\<close>

text \<open>C24 (functional). Sealing establishes validity: whatever a block start with an extent inside its
  span holds, after \<^verbatim>\<open>mm_seal\<close> its header is valid, its control word and payload checksum are
  what they were, and no byte outside the block has been written (under \<open>paranoid\<close> the mirror
  included).\<close>

theorem seal_establishes_header:
  assumes "mm_is_block c st b"
  shows "mm_header_ok c (mm_seal c b st) b \<and>
    mm_word (mem (mm_seal c b st)) b = mm_word (mem st) b \<and>
    (MM_HAS_CRC c \<longrightarrow> payload_crc (mem (mm_seal c b st)) b = payload_crc (mem st) b) \<and>
    within b (mm_block_end (mem st) b) (mem st) (mem (mm_seal c b st))"
  using mm_seal_header_ok [OF assms] mm_seal_mem [OF mm_is_block_bounds(3) [OF assms]] by blast

text \<open>C25 (safety). An overrun is seen: once the canary of a block in use has been written, any
  later memory that still holds the same header is accepted by \<^verbatim>\<open>mm_canary_ok\<close> exactly when all
  eight bytes after the requested size are what was written; a single byte changed there is
  reported.\<close>

theorem canary_detects_overrun:
  assumes "MM_HAS_CANARY c" and "mm_is_used (mem st) b" and "\<not> mm_is_quarantined (mem st) b"
    and "same_on b (MM_HDR_SIZE c) (mem st) m"
  shows "mm_canary_ok c (mm_write_canary c b st) b \<and>
    (mm_canary_ok c (upd_mem (\<lambda>_. m) (mm_write_canary c b st)) b \<longleftrightarrow>
       mem_read m (mm_payload_of c b + mm_requested_size c (mem st) b) 8 =
       mem_read (mem (mm_write_canary c b st)) (mm_payload_of c b + mm_requested_size c (mem st) b) 8)"
proof -
  let ?st = "mm_write_canary c b st"
  let ?v = "mm_canary_value (mm_block_index st b) (secret (g_arena st))"
  note h = header_fields_cong [OF mm_write_canary_header [of b c st]]
  note h' = header_fields_cong [OF assms(4)]
  have idx: "mm_block_index ?st b = mm_block_index st b"
    using assms(1) by (simp add: mm_write_canary_def)
  have at: "canary_at c (mem ?st) b = canary_at c (mem st) b" "canary_at c m b = canary_at c (mem st) b"
    using h h' by (simp_all add: canary_at_def)
  have rd: "mem_read (mem ?st) (canary_at c (mem st) b) 8 = bytes_of ?v"
    using assms(1) by (simp add: mm_write_canary_def store64_def mem_read_write_same)
  have "mm_canary_ok c ?st b \<longleftrightarrow> mem_read (mem ?st) (canary_at c (mem ?st) b) 8 = bytes_of ?v"
    using assms h by (simp add: mm_canary_ok_iff idx)
  moreover have "mm_canary_ok c (upd_mem (\<lambda>_. m) ?st) b \<longleftrightarrow>
      mem_read m (canary_at c m b) 8 = bytes_of ?v"
    using assms h' by (simp add: mm_canary_ok_iff idx)
  ultimately show ?thesis using rd by (simp add: at) (simp add: canary_at_def)
qed

text \<open>A caller-supplied span holding one used block of its whole extent, sealed.\<close>

definition sample_block :: mm_state where
  "sample_block = upd_mem (\<lambda>m. mm_set_word m 4096 64 24 True False)
     (upd_desc user_desc (\<lambda>_. span_zero\<lparr>lo := 4096, hi := 4160\<rparr>) ((boot_state [])\<lparr>g_user := user_desc\<rparr>))"

lemma sample_block_word:
  "mm_block_size (mem sample_block) 4096 = 64" "mm_is_used (mem sample_block) 4096"
  "\<not> mm_is_quarantined (mem sample_block) 4096"
  using set_word_fields [of 64 24 _ True False]
  by (simp_all add: sample_block_def mm_block_size_def mm_is_used_def mm_is_quarantined_def
      mm_set_word_def)

lemma sample_block_is_block: "mm_is_block c sample_block 4096"
proof -
  have "mm_span_of sample_block 4096 = user_desc"
    by (simp add: sample_block_def mm_span_of_def mm_span_lookup_uncached_def upd_desc_def boot_state_def
        g_arena_def upd_mem_def arena_zero_def user_desc_def)
  moreover have "descs sample_block user_desc = span_zero\<lparr>lo := 4096, hi := 4160\<rparr>"
    by (simp add: sample_block_def upd_desc_def)
  ultimately show ?thesis using sample_block_word(1) layout_bounds(5) [of c]
    by (simp add: mm_is_block_def block_ok_in_def start_ok_in_def user_desc_def)
qed

theorem seal_establishes_header_witness:
  "mm_header_ok (build Paranoid) (mm_seal (build Paranoid) 4096 sample_block) 4096"
  using seal_establishes_header [OF sample_block_is_block] by blast

theorem canary_detects_overrun_witness:
  "mm_canary_ok (build Hardened) (mm_write_canary (build Hardened) 4096 sample_block) 4096"
  using canary_detects_overrun [of "build Hardened" sample_block 4096 "mem sample_block"] sample_block_word(2,3)
  by (simp add: MM_HAS_CANARY_def)

theorem header_flips_detected_witness:
  "\<not> mm_header_ok (build Hardened)
     (upd_mem (\<lambda>m. flip_bits m 4096 [(0, 4), (9, 1), (15, 7)]) (mm_seal (build Hardened) 4096 sample_block)) 4096"
  using mm_seal_header_ok [OF sample_block_is_block, of "build Hardened"]
  by (intro header_flips_detected) (simp_all add: MM_HAS_CRC_def)

end
