(* ===== verification/Mars_Freelist.thy ===== *)
theory Mars_Freelist
  imports Mars_Validate
begin

unbundle bit_operations_syntax

text \<open>
  Size-classed free lists: \<^verbatim>\<open>src/mm_freelist.h\<close> and \<^verbatim>\<open>src/mm_freelist.c\<close>. The bins are the
  \<open>bins\<close> and \<open>bin_bitmap\<close> of the arena; the links are words inside the free blocks, so every
  operation reads and writes \<open>mem\<close>. The loops of the source are bounded by their budgets and the
  recursion is on the budget. The two bit scans are modelled by what the compiler builtins return
  and, separately, by the portable loops the source has for other compilers.
\<close>

section \<open>Geometry of the bins\<close>

definition MM_SMALL_BINS :: nat where "MM_SMALL_BINS = 64"
definition MM_LARGE_BINS :: nat where "MM_LARGE_BINS = 64"
definition MM_BIN_COUNT :: nat where "MM_BIN_COUNT = MM_SMALL_BINS + MM_LARGE_BINS"
definition MM_BIN_WORDS :: nat where "MM_BIN_WORDS = MM_BIN_COUNT div 64"
definition MM_LARGE_MIN :: "mm_config \<Rightarrow> nat" where
  "MM_LARGE_MIN c = MM_MIN_BLOCK c + MM_ALIGNMENT * MM_SMALL_BINS"
definition MM_LARGE_OCTAVE0 :: nat where "MM_LARGE_OCTAVE0 = 10"
definition MM_LARGE_SUBBINS :: nat where "MM_LARGE_SUBBINS = 4"
definition MM_BIN_SCAN_CAP :: nat where "MM_BIN_SCAN_CAP = 16"

text \<open>The number of leading and of trailing zero bits, as \<^verbatim>\<open>__builtin_clzll\<close> and
  \<^verbatim>\<open>__builtin_ctzll\<close> return them.\<close>

definition clzll :: "u64 \<Rightarrow> nat" where
  "clzll w = length (takeWhile (\<lambda>i. \<not> bit w i) (rev [0..<64]))"

definition ctzll :: "u64 \<Rightarrow> nat" where
  "ctzll w = length (takeWhile (\<lambda>i. \<not> bit w i) [0..<64])"

definition mm_floor_log2 :: "u64 \<Rightarrow> nat" where
  "mm_floor_log2 n = 63 - clzll n"

fun floor_log2_loop :: "nat \<Rightarrow> u64 \<Rightarrow> nat \<Rightarrow> nat" where
  "floor_log2_loop 0 n k = k"
| "floor_log2_loop (Suc f) n k = (if drop_bit 1 n \<noteq> 0 then floor_log2_loop f (drop_bit 1 n) (k + 1) else k)"

definition mm_bin_of :: "mm_config \<Rightarrow> nat \<Rightarrow> nat" where
  "mm_bin_of c n =
     (if n < MM_LARGE_MIN c
      then if n \<le> MM_MIN_BLOCK c then 0 else (n - MM_MIN_BLOCK c) div MM_ALIGNMENT
      else let k = mm_floor_log2 (of_nat n);
               sub = unat (drop_bit (k - 2) (of_nat n :: u64) AND 3);
               idx = MM_SMALL_BINS + (k - MM_LARGE_OCTAVE0) * MM_LARGE_SUBBINS + sub
           in if idx < MM_BIN_COUNT then idx else MM_BIN_COUNT - 1)"

section \<open>The bitmap\<close>

definition bitmap_set :: "nat \<Rightarrow> mm_arena \<Rightarrow> mm_arena" where
  "bitmap_set bin a = a\<lparr>bin_bitmap :=
     (bin_bitmap a)(bin div 64 := bin_bitmap a (bin div 64) OR push_bit (bin mod 64) 1)\<rparr>"

definition bitmap_clear :: "nat \<Rightarrow> mm_arena \<Rightarrow> mm_arena" where
  "bitmap_clear bin a = a\<lparr>bin_bitmap :=
     (bin_bitmap a)(bin div 64 := bin_bitmap a (bin div 64) AND NOT (push_bit (bin mod 64) 1))\<rparr>"

definition bitmap_test :: "mm_arena \<Rightarrow> nat \<Rightarrow> bool" where
  "bitmap_test a bin \<longleftrightarrow> drop_bit (bin mod 64) (bin_bitmap a (bin div 64)) AND 1 \<noteq> 0"

definition lowest_bit :: "u64 \<Rightarrow> nat" where
  "lowest_bit w = ctzll w"

fun lowest_bit_loop :: "nat \<Rightarrow> u64 \<Rightarrow> nat \<Rightarrow> nat" where
  "lowest_bit_loop 0 w k = k"
| "lowest_bit_loop (Suc f) w k = (if w AND 1 = 0 then lowest_bit_loop f (drop_bit 1 w) (k + 1) else k)"

function next_nonempty_from :: "mm_arena \<Rightarrow> nat \<Rightarrow> u64 \<Rightarrow> nat" where
  "next_nonempty_from a word w =
     (if w \<noteq> 0 then word * 64 + lowest_bit w
      else if word + 1 \<ge> MM_BIN_WORDS then MM_BIN_COUNT
      else next_nonempty_from a (word + 1) (bin_bitmap a (word + 1)))"
  by pat_completeness auto
termination by (relation "measure (\<lambda>(a, word, w). MM_BIN_WORDS - word)") auto

declare next_nonempty_from.simps [simp del]

definition next_nonempty :: "mm_arena \<Rightarrow> nat \<Rightarrow> nat" where
  "next_nonempty a from =
     (if from \<ge> MM_BIN_COUNT then MM_BIN_COUNT
      else next_nonempty_from a (from div 64)
             (bin_bitmap a (from div 64) AND push_bit (from mod 64) (NOT 0)))"

section \<open>Validation of nodes\<close>

definition node_ok :: "mm_config \<Rightarrow> mm_state \<Rightarrow> nat \<Rightarrow> nat \<Rightarrow> bool" where
  "node_ok c st b bin \<longleftrightarrow>
     mm_is_block c st b \<and> mm_header_ok c st b \<and> \<not> mm_is_used (mem st) b \<and>
     mm_bin_of c (mm_block_size (mem st) b) = bin"

definition link_next :: "mm_config \<Rightarrow> mm_state \<Rightarrow> nat \<Rightarrow> nat" where
  "link_next c st b = mm_free_link_get c (mem st) b MM_LINK_NEXT (secret (g_arena st))"

definition link_prev :: "mm_config \<Rightarrow> mm_state \<Rightarrow> nat \<Rightarrow> nat" where
  "link_prev c st b = mm_free_link_get c (mem st) b MM_LINK_PREV (secret (g_arena st))"

definition set_link_next :: "mm_config \<Rightarrow> nat \<Rightarrow> nat \<Rightarrow> mm_state \<Rightarrow> mm_state" where
  "set_link_next c b p st =
     upd_mem (\<lambda>m. mm_free_link_set c m b MM_LINK_NEXT p (secret (g_arena st))) st"

definition set_link_prev :: "mm_config \<Rightarrow> nat \<Rightarrow> nat \<Rightarrow> mm_state \<Rightarrow> mm_state" where
  "set_link_prev c b p st =
     upd_mem (\<lambda>m. mm_free_link_set c m b MM_LINK_PREV p (secret (g_arena st))) st"

definition links_ok :: "mm_config \<Rightarrow> mm_state \<Rightarrow> nat \<Rightarrow> nat \<Rightarrow> bool" where
  "links_ok c st b bin \<longleftrightarrow>
     node_ok c st b bin \<and>
     (let nx = link_next c st b; pv = link_prev c st b
      in (nx \<noteq> 0 \<longrightarrow> node_ok c st nx bin \<and> link_prev c st nx = b) \<and>
         (if pv \<noteq> 0 then node_ok c st pv bin \<and> link_next c st pv = b
          else bins (g_arena st) bin = b))"

section \<open>Insert and remove\<close>

definition bin_push :: "mm_config \<Rightarrow> nat \<Rightarrow> nat \<Rightarrow> mm_state \<Rightarrow> mm_state" where
  "bin_push c b bin st =
     (let head = bins (g_arena st) bin;
          st = set_link_next c b head st;
          st = set_link_prev c b 0 st;
          st = (if head \<noteq> 0 then set_link_prev c head b st else st)
      in upd_arena (\<lambda>a. bitmap_set bin (a\<lparr>bins := (bins a)(bin := b)\<rparr>)) st)"

definition mm_bins_reset :: "mm_state \<Rightarrow> mm_state" where
  "mm_bins_reset st =
     upd_arena (\<lambda>a. a\<lparr>bins := (\<lambda>i. if i < MM_BIN_COUNT then 0 else bins a i),
                      bin_bitmap := (\<lambda>i. if i < MM_BIN_WORDS then 0 else bin_bitmap a i)\<rparr>) st"

text \<open>The walk of one span: \<open>budget\<close> is the remaining step budget, \<open>p\<close> the cursor.\<close>

fun rebuild_span :: "mm_config \<Rightarrow> mm_span \<Rightarrow> nat \<Rightarrow> nat \<Rightarrow> mm_state \<Rightarrow> mm_state" where
  "rebuild_span c d 0 p st = st"
| "rebuild_span c d (Suc budget) p st =
     (if \<not> p < hi d then st
      else if \<not> mm_header_ok c st p then st
      else if \<not> mm_is_used (mem st) p \<and> \<not> mm_extent_corroborated c st p
      then mm_fail MM_ERR_CORRUPT_LINKS st
      else let st = (if \<not> mm_is_used (mem st) p
                     then bin_push c p (mm_bin_of c (mm_block_size (mem st) p)) st else st)
           in rebuild_span c d budget (p + mm_block_size (mem st) p) st)"

definition mm_bins_rebuild :: "mm_config \<Rightarrow> mm_state \<Rightarrow> mm_state" where
  "mm_bins_rebuild c st =
     (let st = mm_bins_reset st
      in foldl (\<lambda>st s. rebuild_span c (descs st s) (mm_span_max_blocks c (descs st s)) (lo (descs st s)) st)
           st (spans (g_arena st)))"

definition mm_bin_insert :: "mm_config \<Rightarrow> nat \<Rightarrow> mm_state \<Rightarrow> mm_state" where
  "mm_bin_insert c b st =
     (let bin = mm_bin_of c (mm_block_size (mem st) b);
          head = bins (g_arena st) bin
      in if head \<noteq> 0 \<and> \<not> node_ok c st head bin
         then mm_bins_rebuild c (mm_fail MM_ERR_CORRUPT_LINKS st)
         else bin_push c b bin st)"

definition bin_unlink :: "mm_config \<Rightarrow> nat \<Rightarrow> nat \<Rightarrow> mm_state \<Rightarrow> mm_state" where
  "bin_unlink c b bin st =
     (let nx = link_next c st b; pv = link_prev c st b;
          st = (if pv \<noteq> 0 then set_link_next c pv nx st
                else upd_arena (\<lambda>a. let a = a\<lparr>bins := (bins a)(bin := nx)\<rparr>
                                    in if nx = 0 then bitmap_clear bin a else a) st)
      in if nx \<noteq> 0 then set_link_prev c nx pv st else st)"

definition mm_bin_remove :: "mm_config \<Rightarrow> nat \<Rightarrow> mm_state \<Rightarrow> mm_state" where
  "mm_bin_remove c b st =
     (let bin = mm_bin_of c (mm_block_size (mem st) b)
      in if \<not> links_ok c st b bin
         then let st = mm_bins_rebuild c (mm_fail MM_ERR_CORRUPT_LINKS st)
              in if \<not> links_ok c st b bin
                 then if \<not> mm_is_used (mem st) b
                      then set_link_prev c b 0 (set_link_next c b 0 st) else st
                 else bin_unlink c b bin st
         else bin_unlink c b bin st)"

section \<open>Search\<close>

text \<open>\<open>scan_bin\<close> and \<open>bin_head\<close> return the block found (0 for none) and the damage flag.\<close>

fun scan_bin_at :: "mm_config \<Rightarrow> mm_state \<Rightarrow> nat \<Rightarrow> nat \<Rightarrow> nat \<Rightarrow> nat \<Rightarrow> nat \<Rightarrow> nat \<times> bool" where
  "scan_bin_at c st bin need 0 back cur = (0, False)"
| "scan_bin_at c st bin need (Suc k) back cur =
     (if cur = 0 then (0, False)
      else if \<not> node_ok c st cur bin \<or> link_prev c st cur \<noteq> back then (0, True)
      else if mm_block_size (mem st) cur \<ge> need then (cur, False)
      else scan_bin_at c st bin need k cur (link_next c st cur))"

definition scan_bin :: "mm_config \<Rightarrow> mm_state \<Rightarrow> nat \<Rightarrow> nat \<Rightarrow> nat \<times> bool" where
  "scan_bin c st bin need = scan_bin_at c st bin need MM_BIN_SCAN_CAP 0 (bins (g_arena st) bin)"

definition bin_head :: "mm_config \<Rightarrow> mm_state \<Rightarrow> nat \<Rightarrow> nat \<times> bool" where
  "bin_head c st bin =
     (let h = bins (g_arena st) bin
      in if h = 0 \<or> \<not> node_ok c st h bin \<or> link_prev c st h \<noteq> 0 then (0, True) else (h, False))"

text \<open>One attempt: the bin of the request is scanned, then the head of the smallest non-empty bin
  above it is taken.\<close>

definition bin_find_once :: "mm_config \<Rightarrow> mm_state \<Rightarrow> nat \<Rightarrow> nat \<times> bool" where
  "bin_find_once c st need =
     (let bin = mm_bin_of c need; (b, damaged) = scan_bin c st bin need
      in if b \<noteq> 0 then (b, damaged)
         else if damaged then (0, True)
         else let j = next_nonempty (g_arena st) (bin + 1)
              in if j < MM_BIN_COUNT then bin_head c st j else (0, False))"

fun bin_find_attempts :: "mm_config \<Rightarrow> nat \<Rightarrow> nat \<Rightarrow> mm_state \<Rightarrow> nat \<times> mm_state" where
  "bin_find_attempts c need 0 st = (0, st)"
| "bin_find_attempts c need (Suc k) st =
     (let (b, damaged) = bin_find_once c st need
      in if b \<noteq> 0 then (b, st)
         else if \<not> damaged then (0, st)
         else bin_find_attempts c need k (mm_bins_rebuild c (mm_fail MM_ERR_CORRUPT_LINKS st)))"

definition mm_bin_find :: "mm_config \<Rightarrow> nat \<Rightarrow> mm_state \<Rightarrow> nat \<times> mm_state" where
  "mm_bin_find c need st = bin_find_attempts c need 2 st"

section \<open>Consistency\<close>

text \<open>The walk of one bin: \<^const>\<open>None\<close> where the source fails with \<^verbatim>\<open>MM_ERR_CORRUPT_LINKS\<close>, otherwise
  how many members were seen.\<close>

fun bin_walk :: "mm_config \<Rightarrow> mm_state \<Rightarrow> nat \<Rightarrow> nat \<Rightarrow> nat \<Rightarrow> nat \<Rightarrow> nat \<Rightarrow> nat option" where
  "bin_walk c st i 0 back cur seen = (if cur = 0 then Some seen else None)"
| "bin_walk c st i (Suc budget) back cur seen =
     (if cur = 0 then Some seen
      else if \<not> mm_header_ok c st cur then None
      else if mm_is_used (mem st) cur then None
      else if mm_bin_of c (mm_block_size (mem st) cur) \<noteq> i then None
      else if link_prev c st cur \<noteq> back then None
      else bin_walk c st i budget cur (link_next c st cur) (seen + 1))"

definition bin_check :: "mm_config \<Rightarrow> mm_state \<Rightarrow> (nat \<Rightarrow> nat) \<Rightarrow> nat \<Rightarrow> bool" where
  "bin_check c st counts i \<longleftrightarrow>
     bitmap_test (g_arena st) i = (bins (g_arena st) i \<noteq> 0) \<and>
     bin_walk c st i (mm_max_blocks c st) 0 (bins (g_arena st) i) 0 = Some (counts i)"

definition mm_bins_check :: "mm_config \<Rightarrow> (nat \<Rightarrow> nat) \<Rightarrow> mm_state \<Rightarrow> mm_status \<times> mm_state" where
  "mm_bins_check c counts st =
     (if \<forall>i \<in> set [0..<MM_BIN_COUNT]. bin_check c st counts i then (MM_OK, st)
      else (MM_ERR_CORRUPT_LINKS, mm_fail MM_ERR_CORRUPT_LINKS st))"

section \<open>Bit scans\<close>

lemma highest_bit:
  fixes w :: u64
  assumes "w \<noteq> 0"
  obtains k where "k < 64" "bit w k" "\<And>i. k < i \<Longrightarrow> \<not> bit w i"
proof -
  let ?B = "{i. bit w i}"
  have fin: "finite ?B" by simp
  have "?B \<noteq> {}" using assms bit_word_eqI [of w 0] by auto
  then have "Max ?B \<in> ?B" using fin by (rule Max_in [rotated])
  moreover have "\<not> bit w i" if "Max ?B < i" for i
  proof
    assume "bit w i"
    then have "i \<le> Max ?B" using fin by (intro Max_ge) simp_all
    then show False using that by simp
  qed
  moreover have "Max ?B < 64" using calculation(1) bit_imp_le_length [of w "Max ?B"] by simp
  ultimately show ?thesis using that [of "Max ?B"] by blast
qed

lemma lowest_bit_ex:
  fixes w :: u64
  assumes "w \<noteq> 0"
  obtains k where "k < 64" "bit w k" "\<And>i. i < k \<Longrightarrow> \<not> bit w i"
proof -
  obtain i where "bit w i" using assms bit_word_eqI [of w 0] by auto
  then have "bit w (LEAST i. bit w i)" by (rule LeastI)
  moreover have "\<not> bit w i" if "i < (LEAST i. bit w i)" for i using that not_less_Least by blast
  moreover have "(LEAST i. bit w i) < 64" using calculation(1) bit_imp_le_length [of w "LEAST i. bit w i"] by simp
  ultimately show ?thesis by (intro that [of "LEAST i. bit w i"])
qed

lemma clzll_highest:
  assumes "k < 64" "bit w k" "\<And>i. k < i \<Longrightarrow> \<not> bit w i"
  shows "clzll w = 63 - k"
proof -
  have "[0..<64] = [0..<k] @ k # [Suc k..<64]"
    using assms(1) upt_add_eq_append [of 0 k "64 - k"] upt_conv_Cons [of k 64] by simp
  then have "rev [0..<64] = rev [Suc k..<64] @ k # rev [0..<k]" by simp
  then have "takeWhile (\<lambda>i. \<not> bit w i) (rev [0..<64]) = rev [Suc k..<64]"
    using assms(2,3) by (simp add: takeWhile_append)
  then show ?thesis by (simp add: clzll_def)
qed

lemma ctzll_lowest:
  assumes "k < 64" "bit w k" "\<And>i. i < k \<Longrightarrow> \<not> bit w i"
  shows "ctzll w = k"
proof -
  have "[0..<64] = [0..<k] @ k # [Suc k..<64]"
    using assms(1) upt_add_eq_append [of 0 k "64 - k"] upt_conv_Cons [of k 64] by simp
  then have "takeWhile (\<lambda>i. \<not> bit w i) [0..<64] = [0..<k]"
    using assms(2,3) by (simp add: takeWhile_append)
  then show ?thesis by (simp add: ctzll_def)
qed

lemma unat_drop_bit: "unat (drop_bit n (w::u64)) = unat w div 2 ^ n"
proof -
  have "unat w < 2 ^ 64" using unsigned_less [of w, where 'a = nat] by simp
  then have "take_bit 64 (unat w) = unat w" by (rule take_bit_nat_eq_self)
  moreover have "unat (drop_bit n w) = drop_bit n (take_bit 64 (unat w))"
    by (simp only: unsigned_drop_bit_eq) simp
  ultimately show ?thesis by (simp only: drop_bit_eq_div)
qed

lemma mm_floor_log2_bounds:
  assumes "w \<noteq> 0"
  shows "mm_floor_log2 w < 64" and "2 ^ mm_floor_log2 w \<le> unat w" and "unat w < 2 * 2 ^ mm_floor_log2 w"
proof -
  obtain k where k: "k < 64" "bit w k" "\<And>i. k < i \<Longrightarrow> \<not> bit w i" using highest_bit [OF assms] by blast
  have eq: "mm_floor_log2 w = k" using clzll_highest [OF k] k(1) by (simp add: mm_floor_log2_def)
  show "mm_floor_log2 w < 64" using eq k(1) by simp
  have "bit (unat w) k" using k(2) by (simp add: bit_unsigned_iff)
  then have "odd (unat w div 2 ^ k)" by (simp add: bit_iff_odd)
  then have "0 < unat w div 2 ^ k" by (rule odd_pos)
  then show "2 ^ mm_floor_log2 w \<le> unat w" by (simp add: eq div_greater_zero_iff)
  have "drop_bit (Suc k) w = 0" by (rule bit_word_eqI) (use k(3) in \<open>simp add: bit_drop_bit_eq\<close>)
  then have "unat w div 2 ^ Suc k = 0" by (metis unat_drop_bit unsigned_0)
  then show "unat w < 2 * 2 ^ mm_floor_log2 w" by (simp add: eq div_eq_0_iff)
qed

lemma floor_log2_unique:
  fixes x :: nat
  assumes "2 ^ k \<le> x" "x < 2 * 2 ^ k" "2 ^ l \<le> x" "x < 2 * 2 ^ l"
  shows "k = l"
proof (rule ccontr)
  assume "k \<noteq> l"
  then consider "Suc k \<le> l" | "Suc l \<le> k" by linarith
  then show False
  proof cases
    case 1
    then have "(2::nat) ^ Suc k \<le> 2 ^ l" by (intro power_increasing) simp_all
    then show False using assms by simp
  next
    case 2
    then have "(2::nat) ^ Suc l \<le> 2 ^ k" by (intro power_increasing) simp_all
    then show False using assms by simp
  qed
qed

lemma floor_log2_loop_eq:
  "w \<noteq> 0 \<Longrightarrow> unat w < 2 ^ f \<Longrightarrow> 2 ^ (floor_log2_loop f w k - k) \<le> unat w \<and>
     unat w < 2 * 2 ^ (floor_log2_loop f w k - k) \<and> k \<le> floor_log2_loop f w k"
proof (induction f arbitrary: w k)
  case 0
  then show ?case by (simp add: unat_eq_0)
next
  case (Suc f)
  have half: "unat (drop_bit 1 w) = unat w div 2" using unat_drop_bit [of 1 w] by simp
  show ?case
  proof (cases "drop_bit 1 w = 0")
    case True
    then have "unat w div 2 = 0" using half by simp
    moreover have "unat w \<noteq> 0" using Suc.prems(1) by (simp add: unat_eq_0)
    ultimately show ?thesis using True by simp
  next
    case False
    have lt: "unat (drop_bit 1 w) < 2 ^ f" using Suc.prems(2) half by simp
    let ?l = "floor_log2_loop f (drop_bit 1 w) (Suc k)"
    define r where "r = ?l - Suc k"
    note ih = Suc.IH [OF False lt, of "Suc k", folded r_def, unfolded half]
    then have "?l - k = Suc r" by (simp only: r_def) (metis Suc_diff_Suc Suc_le_eq)
    with ih have r: "2 ^ r \<le> unat w div 2" "unat w div 2 < 2 * 2 ^ r" "?l - k = Suc r" "k \<le> ?l"
      by linarith+
    moreover have "floor_log2_loop (Suc f) w k = floor_log2_loop f (drop_bit 1 w) (Suc k)"
      using False by simp
    moreover have "2 ^ Suc r \<le> unat w" "unat w < 2 * 2 ^ Suc r" using r(1,2) by simp_all
    ultimately show ?thesis by (simp only: simp_thms)
  qed
qed
lemma mm_floor_log2_loop:
  assumes "w \<noteq> 0"
  shows "mm_floor_log2 w = floor_log2_loop 64 w 0"
proof -
  have "unat w < 2 ^ 64" using unsigned_less [of w, where 'a = nat] by simp
  then show ?thesis
    using floor_log2_loop_eq [OF assms, of 64 0] mm_floor_log2_bounds [OF assms]
    by (intro floor_log2_unique [of _ "unat w"]) simp_all
qed

lemma lowest_bit_loop_shift:
  "j \<le> f \<Longrightarrow> \<forall>i < j. \<not> bit w i \<Longrightarrow> lowest_bit_loop f w k = lowest_bit_loop (f - j) (drop_bit j w) (k + j)"
proof (induction j arbitrary: f w k)
  case (Suc j)
  obtain g where g: "f = Suc g" using Suc.prems(1) by (cases f) simp_all
  have "\<not> bit w 0" using Suc.prems(2) by blast
  then have even: "w AND 1 = 0" by (simp add: and_one_eq bit_0 odd_iff_mod_2_eq_one even_iff_mod_2_eq_zero)
  have "\<forall>i < j. \<not> bit (drop_bit 1 w) i" using Suc.prems(2) by (auto simp: bit_drop_bit_eq)
  from Suc.IH [OF _ this, of g "Suc k"] Suc.prems(1) g even show ?case by (simp add: drop_bit_drop_bit)
qed simp

lemma lowest_bit_least:
  assumes "w \<noteq> 0"
  shows "lowest_bit w < 64" and "bit w (lowest_bit w)" and "\<And>i. i < lowest_bit w \<Longrightarrow> \<not> bit w i"
proof -
  obtain k where k: "k < 64" "bit w k" "\<And>i. i < k \<Longrightarrow> \<not> bit w i" using lowest_bit_ex [OF assms] by blast
  then have "lowest_bit w = k" by (simp add: lowest_bit_def ctzll_lowest)
  then show "lowest_bit w < 64" "bit w (lowest_bit w)" "\<And>i. i < lowest_bit w \<Longrightarrow> \<not> bit w i"
    using k by simp_all
qed

lemma lowest_bit_loop_eq:
  assumes "w \<noteq> 0"
  shows "lowest_bit w = lowest_bit_loop 64 w 0"
proof -
  let ?k = "lowest_bit w"
  obtain g where g: "64 - ?k = Suc g" using lowest_bit_least(1) [OF assms] by (metis Suc_diff_Suc)
  have "bit (drop_bit ?k w) 0" using lowest_bit_least(2) [OF assms] by (simp only: bit_drop_bit_eq comp_def add_0_right)
  then have "drop_bit ?k w AND 1 \<noteq> 0" by (simp add: and_one_eq bit_0 odd_iff_mod_2_eq_one)
  then show ?thesis
    using lowest_bit_loop_shift [of ?k 64 w 0] lowest_bit_least [OF assms] g by simp
qed

section \<open>The bin of a size\<close>

definition large_index :: "nat \<Rightarrow> nat" where
  "large_index n = (let k = mm_floor_log2 (of_nat n) in 4 * k + n div 2 ^ (k - 2))"

lemma floor_log2_of_nat:
  assumes "0 < n" "n < 2 ^ 64"
  shows "2 ^ mm_floor_log2 (of_nat n) \<le> n" and "n < 2 * 2 ^ mm_floor_log2 (of_nat n)"
proof -
  have eq: "unat (of_nat n :: u64) = n" using assms by (simp add: unat_of_nat)
  then have "(of_nat n :: u64) \<noteq> 0" using assms(1) by (metis unsigned_0 less_numeral_extra(3))
  then show "2 ^ mm_floor_log2 (of_nat n) \<le> n" "n < 2 * 2 ^ mm_floor_log2 (of_nat n)"
    using mm_floor_log2_bounds(2,3) eq by metis+
qed

lemma floor_log2_ge:
  assumes "2 ^ j \<le> n" "n < 2 ^ 64"
  shows "j \<le> mm_floor_log2 (of_nat n)"
proof (rule ccontr)
  assume "\<not> ?thesis"
  then have "(2::nat) * 2 ^ mm_floor_log2 (of_nat n) \<le> 2 ^ j"
    by (metis Suc_leI not_le one_le_numeral power_Suc power_increasing)
  moreover have "0 < n" using assms(1) by (metis le_less_trans less_numeral_extra(3) not_gr_zero zero_less_numeral zero_less_power not_le)
  ultimately show False using floor_log2_of_nat(2) [of n] assms by simp
qed

lemma large_sub:
  assumes "1024 \<le> n" "n < 2 ^ 64"
  defines "k \<equiv> mm_floor_log2 (of_nat n)"
  shows "10 \<le> k" and "4 \<le> n div 2 ^ (k - 2)" and "n div 2 ^ (k - 2) < 8"
    and "unat (drop_bit (k - 2) (of_nat n :: u64) AND 3) = n div 2 ^ (k - 2) - 4"
proof -
  show k: "10 \<le> k" unfolding k_def using assms(1,2) by (intro floor_log2_ge) simp_all
  have pow: "(2::nat) ^ k = 4 * 2 ^ (k - 2)"
    using k power_add [of "2::nat" 2 "k - 2"] by (simp only: le_add_diff_inverse) simp
  have b: "2 ^ k \<le> n" "n < 2 * 2 ^ k" unfolding k_def using assms(1,2) by (intro floor_log2_of_nat; simp)+
  show lo4: "4 \<le> n div 2 ^ (k - 2)" using b(1) pow by (simp add: less_eq_div_iff_mult_less_eq)
  show hi8: "n div 2 ^ (k - 2) < 8" using b(2) pow by (simp add: div_less_iff_less_mult)
  have "(3::u64) = mask 2" by (simp add: mask_eq_exp_minus_1)
  then have "unat (drop_bit (k - 2) (of_nat n :: u64) AND 3) = unat (take_bit 2 (drop_bit (k - 2) (of_nat n :: u64)))"
    by (simp add: take_bit_eq_mask)
  also have "\<dots> = take_bit 2 (unat (drop_bit (k - 2) (of_nat n :: u64)))" by (simp add: unsigned_take_bit_eq)
  also have "\<dots> = n div 2 ^ (k - 2) mod 4"
    using assms(2) by (simp add: unat_drop_bit unat_of_nat take_bit_eq_mod)
  also have "\<dots> = n div 2 ^ (k - 2) - 4"
    using lo4 hi8 mod_add_self2 [of "n div 2 ^ (k - 2) - 4" 4] by simp
  finally show "unat (drop_bit (k - 2) (of_nat n :: u64) AND 3) = n div 2 ^ (k - 2) - 4" .
qed
lemma bin_counts [simp]:
  "MM_BIN_COUNT = 128" "MM_SMALL_BINS = 64" "MM_BIN_WORDS = 2" "MM_LARGE_OCTAVE0 = 10" "MM_LARGE_SUBBINS = 4"
  by (simp_all add: MM_BIN_COUNT_def MM_SMALL_BINS_def MM_LARGE_BINS_def MM_BIN_WORDS_def
      MM_LARGE_OCTAVE0_def MM_LARGE_SUBBINS_def)

lemma large_min_bounds: "1024 < MM_LARGE_MIN c" "MM_LARGE_MIN c \<le> 1072" "MM_LARGE_MIN c = MM_MIN_BLOCK c + 1024"
  using layout_bounds [of c] by (simp_all add: MM_LARGE_MIN_def)

lemma mm_bin_of_small:
  "n < MM_LARGE_MIN c \<Longrightarrow> mm_bin_of c n = (n - MM_MIN_BLOCK c) div 16"
  by (auto simp: mm_bin_of_def)

lemma mm_bin_of_large:
  assumes "MM_LARGE_MIN c \<le> n" "n < 2 ^ 64"
  shows "mm_bin_of c n = min 127 (large_index n + 20)" and "44 \<le> large_index n"
proof -
  have n: "1024 \<le> n" using assms(1) large_min_bounds(1) [of c] by linarith
  note sub = large_sub [OF n assms(2)]
  let ?k = "mm_floor_log2 (of_nat n)"
  show "44 \<le> large_index n" using sub(1,2) by (simp add: large_index_def Let_def)
  have "64 + (?k - 10) * 4 + (n div 2 ^ (?k - 2) - 4) = large_index n + 20"
    using sub(1,2) by (simp add: large_index_def Let_def)
  then show "mm_bin_of c n = min 127 (large_index n + 20)"
    using assms(1) by (simp add: mm_bin_of_def Let_def sub(4) min_def)
qed

lemma large_index_mono:
  assumes "1024 \<le> m" "m \<le> n" "n < 2 ^ 64"
  shows "large_index m \<le> large_index n"
proof -
  let ?k = "mm_floor_log2 (of_nat m)" and ?l = "mm_floor_log2 (of_nat n)"
  have m: "m < 2 ^ 64" using assms by simp
  have "2 ^ ?k \<le> n" using floor_log2_of_nat(1) [OF _ m] assms by fastforce
  then have kl: "?k \<le> ?l" using assms(3) by (rule floor_log2_ge)
  show ?thesis
  proof (cases "?k = ?l")
    case True
    then show ?thesis using assms(2) by (simp add: large_index_def Let_def div_le_mono)
  next
    case False
    then show ?thesis
      using kl large_sub(3) [OF assms(1) m] large_sub(2) [of n] assms by (simp add: large_index_def Let_def)
  qed
qed

lemma mm_bin_of_less: "n < 2 ^ 64 \<Longrightarrow> mm_bin_of c n < MM_BIN_COUNT"
  using mm_bin_of_small [of n c] mm_bin_of_large(1) [of c n] large_min_bounds(3) [of c]
  by (cases "n < MM_LARGE_MIN c") auto

lemma mm_bin_of_mono:
  assumes "m \<le> n" "n < 2 ^ 64"
  shows "mm_bin_of c m \<le> mm_bin_of c n"
proof -
  consider "n < MM_LARGE_MIN c" | "m < MM_LARGE_MIN c" "MM_LARGE_MIN c \<le> n" | "MM_LARGE_MIN c \<le> m" by linarith
  then show ?thesis
  proof cases
    case 1
    then show ?thesis using assms by (simp add: mm_bin_of_small div_le_mono)
  next
    case 2
    then have "(m - MM_MIN_BLOCK c) div 16 < 64" using large_min_bounds(3) [of c] by (simp add: div_less_iff_less_mult)
    then show ?thesis using mm_bin_of_large [OF 2(2) assms(2)] mm_bin_of_small [OF 2(1)] by simp
  next
    case 3
    then show ?thesis
      using mm_bin_of_large(1) [of c] large_index_mono [of m n] large_min_bounds(1) [of c] assms by simp
  qed
qed

text \<open>C20 (bounds). Bin geometry: every 64-bit block size has one of the 128 bins; a block filed in a
  bin above that of a request is strictly larger than the request, so the head of any higher bin
  satisfies it without a search; and two block sizes that share a small bin are equal, so a small
  request takes the first block of its bin.\<close>

theorem bin_geometry:
  fixes need n :: nat
  assumes "need < 2 ^ 64" and "n < 2 ^ 64"
  shows "mm_bin_of c n < MM_BIN_COUNT \<and>
    (mm_bin_of c need < mm_bin_of c n \<longrightarrow> need < n) \<and>
    (mm_bin_of c need = mm_bin_of c n \<and> mm_bin_of c n < MM_SMALL_BINS \<and>
       MM_MIN_BLOCK c \<le> need \<and> MM_MIN_BLOCK c \<le> n \<and> 16 dvd need \<and> 16 dvd n \<longrightarrow> need = n)"
proof (intro conjI impI)
  show "mm_bin_of c n < MM_BIN_COUNT" using assms(2) by (rule mm_bin_of_less)
  show "need < n" if "mm_bin_of c need < mm_bin_of c n"
    using mm_bin_of_mono [OF _ assms(1), of n c] that by force
  show "need = n" if h: "mm_bin_of c need = mm_bin_of c n \<and> mm_bin_of c n < MM_SMALL_BINS \<and>
       MM_MIN_BLOCK c \<le> need \<and> MM_MIN_BLOCK c \<le> n \<and> 16 dvd need \<and> 16 dvd n"
  proof -
    have small: "x < MM_LARGE_MIN c" if "mm_bin_of c x < MM_SMALL_BINS" "x < 2 ^ 64" for x
      using mm_bin_of_large [of c x] that by force
    obtain x y z where "need = 16 * x" "n = 16 * y" "MM_MIN_BLOCK c = 16 * z"
      using h layout_bounds(7) [of c] by (metis dvdE)
    then show ?thesis
      using h mm_bin_of_small [OF small, of need] mm_bin_of_small [OF small, of n] assms
      by (auto simp: diff_mult_distrib2 [symmetric])
  qed
qed

theorem bin_geometry_witness:
  "mm_bin_of (build Hardened) 48 < mm_bin_of (build Hardened) 5000 \<and> (48::nat) < 5000"
proof -
  have "mm_bin_of (build Hardened) 48 < mm_bin_of (build Hardened) 5000" by code_simp
  then show ?thesis using bin_geometry [of 48 5000 "build Hardened"] by simp
qed

section \<open>The bitmap scan\<close>

lemma bitmap_test_bit: "bitmap_test a i \<longleftrightarrow> bit (bin_bitmap a (i div 64)) (i mod 64)"
  by (simp add: bitmap_test_def and_one_eq bit_iff_odd_drop_bit odd_iff_mod_2_eq_one)

lemma word_index: "l < 64 \<Longrightarrow> (w * 64 + l) div 64 = w \<and> (w * 64 + l) mod 64 = (l::nat)"
  by simp

lemma bit_from_mask: "bit (w AND push_bit k (NOT (0::u64))) i \<longleftrightarrow> bit w i \<and> k \<le> i"
  using bit_imp_le_length [of w i] by (auto simp: bit_and_iff bit_push_bit_iff bit_not_iff bit_mask_iff)

lemma next_nonempty_from_least:
  assumes "word < MM_BIN_WORDS"
    and "\<And>i. i < 64 \<Longrightarrow> bit w i \<longleftrightarrow> from \<le> word * 64 + i \<and> bitmap_test a (word * 64 + i)"
    and "from div 64 = word \<or> from < word * 64"
    and "\<And>i. from \<le> i \<Longrightarrow> i < word * 64 \<Longrightarrow> \<not> bitmap_test a i"
  defines "r \<equiv> next_nonempty_from a word w"
  shows "r \<le> MM_BIN_COUNT \<and> from \<le> r \<and> (r < MM_BIN_COUNT \<longrightarrow> bitmap_test a r) \<and>
     (\<forall>i. from \<le> i \<and> i < r \<longrightarrow> \<not> bitmap_test a i)"
  unfolding r_def using assms(1-4)
proof (induction a word w rule: next_nonempty_from.induct)
  case (1 a word w)
  have gap: "\<not> bitmap_test a i"
    if h: "from \<le> i" "i < word * 64 + l" "l \<le> 64" "\<And>j. j < l \<Longrightarrow> \<not> bit w j" for i l
  proof (cases "i < word * 64")
    case False
    then obtain j where "i = word * 64 + j" "j < l" using h(2) by (metis add_less_cancel_left le_Suc_ex not_le)
    then show ?thesis using "1.prems"(2) [of j] h by simp
  qed (use h(1) "1.prems"(4) in blast)
  show ?case
  proof (cases "w = 0")
    case False
    note low = lowest_bit_least [OF False]
    have "next_nonempty_from a word w = word * 64 + lowest_bit w"
      using False by (simp add: next_nonempty_from.simps)
    moreover have "from \<le> word * 64 + lowest_bit w \<and> bitmap_test a (word * 64 + lowest_bit w)"
      using "1.prems"(2) [OF low(1)] low(2) by blast
    moreover have "word * 64 + lowest_bit w < 128" using "1.prems"(1) low(1) by simp
    moreover have "\<not> bitmap_test a i" if "from \<le> i" "i < word * 64 + lowest_bit w" for i
      using gap [OF that] low(1,3) by simp
    ultimately show ?thesis by simp
  next
    case True
    then have none: "\<not> bitmap_test a i" if "from \<le> i" "i < (word + 1) * 64" for i
      using gap [OF that(1), of 64] that(2) by (simp add: add.commute)
    show ?thesis
    proof (cases "word + 1 \<ge> MM_BIN_WORDS")
      case end_: True
      have "from < 128 \<or> from \<le> 128" using "1.prems"(1,3) by (auto simp: less_eq_div_iff_mult_less_eq)
      then have "from \<le> 128" by auto
      then show ?thesis using True end_ none "1.prems"(1) by (simp add: next_nonempty_from.simps)
    next
      case False
      have "bit (bin_bitmap a (word + 1)) i \<longleftrightarrow> from \<le> (word + 1) * 64 + i \<and> bitmap_test a ((word + 1) * 64 + i)"
        if "i < 64" for i
        using that "1.prems"(3) word_index [OF that, of "word + 1"] by (auto simp: bitmap_test_bit)
      moreover have "from div 64 = word + 1 \<or> from < (word + 1) * 64" using "1.prems"(3) by auto
      moreover have "next_nonempty_from a word w = next_nonempty_from a (word + 1) (bin_bitmap a (word + 1))"
        using True False next_nonempty_from.simps [of a word w] by simp
      ultimately show ?thesis using "1.IH" True False none by simp
    qed
  qed
qed

lemma next_nonempty_props:
  assumes "from \<le> MM_BIN_COUNT"
  shows "next_nonempty a from \<le> MM_BIN_COUNT \<and> from \<le> next_nonempty a from \<and>
     (next_nonempty a from < MM_BIN_COUNT \<longrightarrow> bitmap_test a (next_nonempty a from)) \<and>
     (\<forall>i. from \<le> i \<and> i < next_nonempty a from \<longrightarrow> \<not> bitmap_test a i)"
proof (cases "from < MM_BIN_COUNT")
  case True
  let ?w = "bin_bitmap a (from div 64) AND push_bit (from mod 64) (NOT 0)"
  have bits: "bit ?w i \<longleftrightarrow> from \<le> from div 64 * 64 + i \<and> bitmap_test a (from div 64 * 64 + i)" if "i < 64" for i
  proof -
    have "from \<le> from div 64 * 64 + i \<longleftrightarrow> from mod 64 \<le> i" by (metis add_le_cancel_left div_mult_mod_eq)
    then show ?thesis using word_index [OF that, of "from div 64"] by (simp only: bit_from_mask bitmap_test_bit) blast
  qed
  have word: "from div 64 < MM_BIN_WORDS" using True by (simp add: div_less_iff_less_mult)
  have low: "\<not> bitmap_test a i" if "from \<le> i" "i < from div 64 * 64" for i
    using that div_times_less_eq_dividend [of "from" 64] by linarith
  have eq: "next_nonempty a from = next_nonempty_from a (from div 64) ?w"
    unfolding next_nonempty_def using True by (intro if_not_P) linarith
  show ?thesis unfolding eq using next_nonempty_from_least [OF word bits _ low] by blast
qed (use assms in \<open>auto simp: next_nonempty_def\<close>)

lemma next_nonempty_min:
  "next_nonempty a from =
    (if \<exists>i. from \<le> i \<and> i < MM_BIN_COUNT \<and> bitmap_test a i
     then Min {i. from \<le> i \<and> i < MM_BIN_COUNT \<and> bitmap_test a i} else MM_BIN_COUNT)"
proof (cases "from \<le> MM_BIN_COUNT")
  case True
  let ?r = "next_nonempty a from" and ?S = "{i. from \<le> i \<and> i < MM_BIN_COUNT \<and> bitmap_test a i}"
  note r = next_nonempty_props [OF True, of a]
  show ?thesis
  proof (cases "?r < MM_BIN_COUNT")
    case True
    have "Min ?S = ?r" by (rule Min_eqI) (use r True in \<open>auto simp: not_less [symmetric]\<close>)
    then show ?thesis using r True by auto
  next
    case False
    then show ?thesis using r by auto
  qed
qed (auto simp: next_nonempty_def)

text \<open>C21 (functional). The bitmap scan: whatever the two bitmap words hold, \<^verbatim>\<open>next_nonempty\<close> returns
  the least bin at or above \<^verbatim>\<open>from\<close> whose bit is set, and \<^verbatim>\<open>MM_BIN_COUNT\<close> when there is none; a
  start past the last bin reads no bitmap word and returns \<^verbatim>\<open>MM_BIN_COUNT\<close>.\<close>

theorem next_nonempty_least:
  "next_nonempty a from =
    (if \<exists>i. from \<le> i \<and> i < MM_BIN_COUNT \<and> bitmap_test a i
     then Min {i. from \<le> i \<and> i < MM_BIN_COUNT \<and> bitmap_test a i} else MM_BIN_COUNT)"
  by (rule next_nonempty_min)

text \<open>C22 (equivalence). The two bit scans the source has for compilers without the builtins return
  what \<^verbatim>\<open>__builtin_clzll\<close> and \<^verbatim>\<open>__builtin_ctzll\<close> give on every non-zero word: the portable loops end
  within 64 steps with the index of the highest and of the lowest set bit.\<close>

theorem bit_scans_portable:
  assumes "w \<noteq> 0"
  shows "mm_floor_log2 w = floor_log2_loop 64 w 0 \<and> lowest_bit w = lowest_bit_loop 64 w 0"
  using mm_floor_log2_loop [OF assms] lowest_bit_loop_eq [OF assms] by blast

theorem bit_scans_portable_witness:
  "mm_floor_log2 40 = 5 \<and> floor_log2_loop 64 40 0 = 5 \<and> lowest_bit 40 = 3 \<and> lowest_bit_loop 64 40 0 = 3"
proof -
  have "floor_log2_loop 64 40 0 = 5" "lowest_bit_loop 64 40 0 = 3" by code_simp+
  then show ?thesis using bit_scans_portable [of 40] by simp
qed

end
