(* ===== verification/Mars_Recovery.thy ===== *)
theory Mars_Recovery
  imports Mars_Freelist
begin

unbundle bit_operations_syntax

text \<open>
  Publishing, stepping backwards, resynchronisation, quarantine, rescue and the patrol, from
  \<^verbatim>\<open>src/mm_integrity.c\<close>. Every operation is a function on the state; those that return a block
  or a flag return it paired with the state, with 0 for \<^verbatim>\<open>NULL\<close>. None of them calls itself through
  another one: recovery seals with \<^verbatim>\<open>seal_and_link\<close>, which does not recover.
\<close>

section \<open>The patrol cursor\<close>

definition mm_scrub_forget :: "nat \<Rightarrow> nat \<Rightarrow> mm_state \<Rightarrow> mm_state" where
  "mm_scrub_forget from to st =
     (if scrub_at (g_arena st) > from \<and> scrub_at (g_arena st) < to
      then upd_arena (\<lambda>a. a\<lparr>scrub_at := from\<rparr>) st else st)"

definition mm_scrub_leave :: "nat \<Rightarrow> mm_state \<Rightarrow> mm_state" where
  "mm_scrub_leave s st =
     (if scrub_span (g_arena st) \<noteq> s then st
      else upd_arena (\<lambda>a. a\<lparr>scrub_span := 0, scrub_at := 0\<rparr>) st)"

section \<open>Stepping backwards\<close>

definition mm_prev_free_block :: "mm_config \<Rightarrow> mm_state \<Rightarrow> nat \<Rightarrow> nat" where
  "mm_prev_free_block c st b =
     (if mm_prev_in_use (mem st) b then 0
      else let s = mm_span_of st b
           in if s = 0 then 0
              else if sub64 b (lo (descs st s)) < MM_MIN_BLOCK c then 0
              else let n = mm_read_prev_footer (mem st) b
                   in if n < MM_MIN_BLOCK c \<or> n mod MM_ALIGNMENT \<noteq> 0 then 0
                      else if n > sub64 b (lo (descs st s)) then 0
                      else let prev = b - n
                           in if \<not> mm_header_ok c st prev then 0
                              else if mm_block_size (mem st) prev \<noteq> n then 0
                              else if mm_is_used (mem st) prev then 0
                              else prev)"

section \<open>Recovery primitives\<close>

definition MM_RECOVERY_STEPS :: nat where "MM_RECOVERY_STEPS = 65536"

definition tiling_agrees :: "mm_config \<Rightarrow> mm_state \<Rightarrow> mm_span \<Rightarrow> nat \<Rightarrow> bool" where
  "tiling_agrees c st d b \<longleftrightarrow>
     (let e = mm_block_end (mem st) b
      in if e = hi d then True
         else if sub64 (hi d) e < MM_MIN_BLOCK c then False
         else mm_extent_corroborated c st e)"

fun scan_resync_at :: "mm_config \<Rightarrow> mm_state \<Rightarrow> mm_span \<Rightarrow> nat \<Rightarrow> nat \<Rightarrow> nat" where
  "scan_resync_at c st d 0 p = 0"
| "scan_resync_at c st d (Suc k) p =
     (if p < hi d \<and> hi d - p \<ge> MM_MIN_BLOCK c
      then if mm_extent_corroborated c st p \<and> tiling_agrees c st d p then p
           else scan_resync_at c st d k (p + MM_ALIGNMENT)
      else 0)"

definition scan_resync :: "mm_config \<Rightarrow> mm_state \<Rightarrow> mm_span \<Rightarrow> nat \<Rightarrow> nat" where
  "scan_resync c st d start = scan_resync_at c st d MM_RECOVERY_STEPS (start + MM_MIN_BLOCK c)"

definition abandon :: "mm_config \<Rightarrow> nat \<Rightarrow> nat \<Rightarrow> bool \<Rightarrow> mm_state \<Rightarrow> nat \<times> mm_state" where
  "abandon c start span prev_used st =
     (if span < MM_MIN_BLOCK c then (0, mm_fail MM_ERR_CORRUPT_LINKS st)
      else let st = upd_mem (\<lambda>m. set_word_at m start 0) st;
               st = (if MM_HAS_CRC c then upd_mem (\<lambda>m. set_payload_crc m start 0) st else st);
               st = upd_mem (\<lambda>m. mm_set_word m start span 0 True True) st;
               st = upd_mem (\<lambda>m. mm_set_prev_in_use m start prev_used) st;
               st = mm_scrub_forget start (start + span) st;
               st = seal_and_link c start st;
               st = upd_arena (\<lambda>a. a\<lparr>lost_bytes := lost_bytes a + span\<rparr>) st;
               st = MM_STAT_NOTE c MM_STAT_QUARANTINE span st
           in (start, mm_fail MM_ERR_CORRUPT_LINKS st))"

text \<open>The mirror that would belong to a block ending at \<open>resync\<close>: where that block starts, if the
  mirror stands up. The header itself is then the bytes of the mirror.\<close>

definition mirror_says :: "mm_config \<Rightarrow> mm_state \<Rightarrow> mm_span \<Rightarrow> nat \<Rightarrow> nat \<Rightarrow> nat option" where
  "mirror_says c st d lo_bound resync =
     (let out = resync - MM_MIRROR_SIZE c; n = mm_block_size (mem st) out
      in if n < MM_MIN_BLOCK c \<or> n > sub64 resync lo_bound then None
         else if \<not> mm_is_used (mem st) out then None
         else let start = resync - n
              in if sub64 start (lo d) mod MM_ALIGNMENT \<noteq> 0 then None
                 else if hdr_crc (mem st) out \<noteq>
                         mm_hdr_crc_of (mem st) out (mm_index_in d start) (secret (g_arena st)) then None
                 else Some start)"

definition rebuild_header :: "mm_config \<Rightarrow> nat \<Rightarrow> nat \<Rightarrow> bool \<Rightarrow> mm_state \<Rightarrow> mm_state" where
  "rebuild_header c at resync prev_used st =
     (let st = upd_mem (\<lambda>m. mem_write m at (mem_read m (resync - MM_MIRROR_SIZE c) (MM_HDR_SIZE c))) st;
          st = upd_mem (\<lambda>m. mm_set_prev_in_use m at prev_used) st;
          st = seal_and_link c at st
      in MM_STAT_NOTE c MM_STAT_REPAIR (mm_block_size (mem st) at) st)"

section \<open>Rescue and walking over damage\<close>

definition surrender :: "mm_config \<Rightarrow> mm_span \<Rightarrow> nat \<Rightarrow> nat \<Rightarrow> bool \<Rightarrow> mm_state \<Rightarrow> nat \<times> mm_state" where
  "surrender c d start resync prev_used st =
     abandon c start (if resync \<noteq> 0 then resync - start else hi d - start) prev_used st"

definition mm_rescue :: "mm_config \<Rightarrow> nat \<Rightarrow> mm_state \<Rightarrow> bool \<times> mm_state" where
  "mm_rescue c b st =
     (if mm_header_ok c st b then (True, st)
      else if \<not> mm_is_block_start c st b then (False, st)
      else let d = descs st (mm_span_of st b);
               resync = scan_resync c st d b;
               prev_used = mm_prev_in_use (mem st) b
           in if MM_HAS_MIRROR c \<and> resync \<noteq> 0 \<and> mirror_says c st d b resync = Some b
              then (True, mm_fail MM_ERR_CORRUPT_HEADER (rebuild_header c b resync prev_used st))
              else (False, snd (surrender c d b resync prev_used st)))"

definition mm_recover_next :: "mm_config \<Rightarrow> nat \<Rightarrow> mm_state \<Rightarrow> nat \<times> mm_state" where
  "mm_recover_next c own st =
     (let s = mm_span_of st own; d = descs st s
      in if s = 0 then (0, st)
         else let start = mm_block_end (mem st) own
              in if start \<ge> hi d then (0, st)
                 else if hi d - start < MM_MIN_BLOCK c then (0, st)
                 else if mm_header_ok c st start then (start, st)
                 else let resync = scan_resync c st d start;
                          owner_used = mm_is_used (mem st) own
                      in case (if MM_HAS_MIRROR c \<and> resync \<noteq> 0
                               then mirror_says c st d start resync else None) of
                           Some at \<Rightarrow>
                             if at = start
                             then (start, mm_fail MM_ERR_CORRUPT_HEADER
                                            (rebuild_header c start resync owner_used st))
                             else if sub64 at start \<ge> MM_MIN_BLOCK c
                             then abandon c start (sub64 at start) owner_used
                                    (rebuild_header c at resync True st)
                             else surrender c d start resync owner_used st
                         | None \<Rightarrow> surrender c d start resync owner_used st)"

definition mm_publish :: "mm_config \<Rightarrow> nat \<Rightarrow> mm_state \<Rightarrow> bool \<times> mm_state" where
  "mm_publish c b st =
     (if \<not> mm_is_block c st b
      then (False, snd (mm_rescue c b (mm_fail MM_ERR_CORRUPT_HEADER st)))
      else let st = (if \<not> mm_is_used (mem st) b then upd_mem (\<lambda>m. mm_write_free_footer m b) st else st);
               st = mm_seal c b st;
               (n, st) = mm_recover_next c b st
           in if n = 0 then (True, st)
              else let used = mm_is_used (mem st) b
                   in (True, if mm_prev_in_use (mem st) n \<noteq> used
                             then mm_seal c n (upd_mem (\<lambda>m. mm_set_prev_in_use m n used) st)
                             else st))"

section \<open>Quarantine\<close>

definition mm_quarantine :: "mm_config \<Rightarrow> nat \<Rightarrow> mm_state \<Rightarrow> mm_state" where
  "mm_quarantine c b st =
     (if \<not> mm_is_block_start c st b then st
      else if \<not> mm_header_ok c st b then snd (mm_rescue c b st)
      else if mm_is_quarantined (mem st) b then mm_fail MM_ERR_QUARANTINED st
      else let n = mm_block_size (mem st) b;
               was_free = (\<not> mm_is_used (mem st) b);
               st = (if was_free then mm_bin_remove c b st else st)
           in if was_free \<and> \<not> mm_unchanged c st b n False
              then snd (mm_rescue c b (mm_fail MM_ERR_CORRUPT_LINKS st))
              else let st = upd_mem (\<lambda>m. mm_set_word m b n 0 True True) st;
                       st = (if MM_HAS_CRC c then upd_mem (\<lambda>m. set_payload_crc m b 0) st else st);
                       (ok, st) = mm_publish c b st
                   in if \<not> ok then st
                      else let st = upd_arena (\<lambda>a. a\<lparr>lost_bytes := lost_bytes a + n\<rparr>) st;
                               st = MM_STAT_NOTE c MM_STAT_QUARANTINE n st
                           in mm_fail MM_ERR_QUARANTINED st)"

section \<open>The patrol\<close>

definition MM_SCRUB_INTERVAL_DEFAULT :: nat where "MM_SCRUB_INTERVAL_DEFAULT = 1024"
definition MM_SCRUB_BUDGET_DEFAULT :: nat where "MM_SCRUB_BUDGET_DEFAULT = 16"

definition scrub_block :: "mm_config \<Rightarrow> nat \<Rightarrow> mm_state \<Rightarrow> mm_status \<times> mm_state" where
  "scrub_block c b st =
     (let payload_check =
            (if MM_HAS_CRC c \<and> payload_crc (mem st) b \<noteq> 0 \<and>
                mm_payload_crc (mem_read (mem st) (mm_payload_of c b) (mm_requested_size c (mem st) b)) \<noteq>
                  payload_crc (mem st) b
             then MM_ERR_CORRUPT_PAYLOAD else MM_OK)
      in if \<not> mm_canary_ok c st b then (MM_ERR_CORRUPT_CANARY, mm_quarantine c b st)
         else if \<not> mm_is_used (mem st) b
         then let tag = load64 (mem st) (mm_block_end (mem st) b - 8)
              in if tag = of_nat (mm_block_size (mem st) b) then (MM_OK, st)
                 else if MM_HAS_CRC c
                 then (MM_ERR_CORRUPT_LINKS,
                       MM_STAT_NOTE c MM_STAT_REPAIR (mm_block_size (mem st) b)
                         (upd_mem (\<lambda>m. mm_write_free_footer m b) st))
                 else (MM_ERR_CORRUPT_LINKS, st)
         else (payload_check, st))"

text \<open>The span after \<open>s\<close> in the arena's list, or the first one again.\<close>

fun span_after :: "nat list \<Rightarrow> nat \<Rightarrow> nat option" where
  "span_after [] s = None"
| "span_after (x # xs) s = (if x = s then (case xs of [] \<Rightarrow> None | y # _ \<Rightarrow> Some y) else span_after xs s)"

record scrub_cursor =
  cur_span :: nat
  cur_at :: nat
  found :: mm_status
  visited :: nat
  hits :: nat

fun scrub_loop :: "mm_config \<Rightarrow> nat \<Rightarrow> nat \<Rightarrow> scrub_cursor \<Rightarrow> mm_state \<Rightarrow> scrub_cursor \<times> mm_state" where
  "scrub_loop c budget 0 k st = (k, st)"
| "scrub_loop c budget (Suc guard) k st =
     (if \<not> visited k < budget then (k, st)
      else
        let s = (if cur_at k \<ge> hi (descs st (cur_span k))
                 then (case span_after (spans (g_arena st)) (cur_span k) of
                         Some s' \<Rightarrow> s' | None \<Rightarrow> mm_sole_span st)
                 else cur_span k);
            p = (if cur_at k \<ge> hi (descs st (cur_span k)) then lo (descs st s) else cur_at k);
            bad = (\<not> mm_header_ok c st p);
            k = (if bad then k\<lparr>found := (if found k = MM_OK then MM_ERR_CORRUPT_HEADER else found k),
                               hits := hits k + 1\<rparr> else k);
            st = (if bad \<and> mm_is_block c st p then snd (mm_rescue c p st) else st)
        in if bad \<and> \<not> mm_header_ok c st p
           then scrub_loop c budget guard (k\<lparr>cur_span := s, cur_at := lo (descs st s)\<rparr>) st
           else
             let (e, st) = scrub_block c p st;
                 k = (if e \<noteq> MM_OK
                      then k\<lparr>found := (if found k = MM_OK then e else found k), hits := hits k + 1\<rparr>
                      else k)
             in scrub_loop c budget guard
                  (k\<lparr>cur_span := s, cur_at := p + mm_block_size (mem st) p, visited := visited k + 1\<rparr>) st)"

definition scrub_run :: "mm_config \<Rightarrow> nat \<Rightarrow> mm_state \<Rightarrow> mm_status \<times> mm_state" where
  "scrub_run c budget_blocks st =
     (if budget_blocks = 0 then (MM_OK, st)
      else
        let s = scrub_span (g_arena st);
            s = (if s = 0 then mm_sole_span st else s)
        in if s = 0 then (MM_OK, st)
           else
             let p = scrub_at (g_arena st);
                 p = (if p = 0 \<or> p < lo (descs st s) \<or> p \<ge> hi (descs st s) then lo (descs st s) else p);
                 guard = mm_max_blocks c st + span_count (g_arena st);
                 (k, st) = scrub_loop c budget_blocks guard
                   \<lparr>cur_span = s, cur_at = p, found = MM_OK, visited = 0, hits = 0\<rparr> st;
                 st = upd_arena (\<lambda>a. a\<lparr>scrub_span := cur_span k, scrub_at := cur_at k\<rparr>) st;
                 st = MM_STAT_NOTE c MM_STAT_SCRUB (visited k) st;
                 st = (if hits k > 0 then MM_STAT_NOTE c MM_STAT_SCRUB_HIT (hits k) st else st)
             in if found k \<noteq> MM_OK then (found k, mm_fail (found k) st) else (MM_OK, st))"

definition mm_scrub_tick :: "mm_config \<Rightarrow> mm_state \<Rightarrow> mm_state" where
  "mm_scrub_tick c st =
     (let st = upd_arena (\<lambda>a. a\<lparr>ops := ops a + 1\<rparr>) st
      in if g_scrub_interval st = 0 \<or> \<not> mm_arena_live st then st
         else let st = upd_arena (\<lambda>a. a\<lparr>ops_since_scrub := ops_since_scrub a + 1\<rparr>) st
              in if ops_since_scrub (g_arena st) < g_scrub_interval st then st
                 else let st = upd_arena (\<lambda>a. a\<lparr>ops_since_scrub := 0\<rparr>) st
                      in snd (scrub_run c (g_scrub_budget st) st))"

end
