(* ===== verification/Mars_Remote.thy ===== *)
theory Mars_Remote
  imports Mars_State
begin

unbundle bit_operations_syntax

text \<open>
  The remote-free queue of \<^verbatim>\<open>src/mm_lock.c\<close> (the cell and the ring are in \<^verbatim>\<open>src/mm_internal.h\<close>): a
  bounded ring of pointers with a sequence number per cell, many producers and one consumer. The
  sequence numbers and positions are 32-bit words and wrap.

  The definitions here are the operations run to completion with nobody else running.
  \<open>mm_remote_push\<close> then decides at its first attempt, or, if the cell's sequence is ahead of the
  head, reloads the same head for ever: that is \<^const>\<open>None\<close>.
\<close>

definition MM_REMOTE_SLOTS :: nat where "MM_REMOTE_SLOTS = 1024"

definition remote_cell :: "u32 \<Rightarrow> nat" where
  "remote_cell pos = unat (pos AND (of_nat MM_REMOTE_SLOTS - 1))"

definition mm_remote_push :: "nat \<Rightarrow> mm_arena \<Rightarrow> (bool \<times> mm_arena) option" where
  "mm_remote_push payload a =
     (let pos = remote_head a; i = remote_cell pos; diff = sint (seq (remote a i) - pos)
      in if diff = 0
         then Some (True, a\<lparr>remote_head := pos + 1,
                            remote := (remote a)(i := \<lparr>seq = pos + 1, ptr = payload\<rparr>)\<rparr>)
         else if diff < 0 then Some (False, a)
         else None)"

definition mm_remote_pop :: "mm_arena \<Rightarrow> nat \<times> mm_arena" where
  "mm_remote_pop a =
     (let pos = remote_tail a; i = remote_cell pos; sq = seq (remote a i)
      in if sint (sq - (pos + 1)) \<noteq> 0 then (0, a)
         else (ptr (remote a i),
               a\<lparr>remote_tail := pos + 1,
                 remote := (remote a)(i := \<lparr>seq = pos + of_nat MM_REMOTE_SLOTS, ptr = 0\<rparr>)\<rparr>))"

definition mm_remote_forget :: "mm_arena \<Rightarrow> mm_arena" where
  "mm_remote_forget a =
     a\<lparr>remote := (\<lambda>i. if i < MM_REMOTE_SLOTS then \<lparr>seq = of_nat i, ptr = 0\<rparr> else remote a i),
       remote_head := 0, remote_tail := 0\<rparr>"

section \<open>The ring as a queue\<close>

text \<open>\<open>remote_rep a q\<close>: the ring holds the pointers \<open>q\<close>, oldest first. The next \<open>length q\<close> cells from the
  tail are published, the others of the ring are free for the producers that will come to them.\<close>

definition remote_rep :: "mm_arena \<Rightarrow> nat list \<Rightarrow> bool" where
  "remote_rep a q \<longleftrightarrow>
     length q \<le> MM_REMOTE_SLOTS \<and> remote_head a = remote_tail a + of_nat (length q) \<and>
     (\<forall>k < MM_REMOTE_SLOTS.
        let cell = remote a (remote_cell (remote_tail a + of_nat k))
        in if k < length q then seq cell = remote_tail a + of_nat k + 1 \<and> ptr cell = q ! k
           else seq cell = remote_tail a + of_nat k)"

lemma slots [simp]: "MM_REMOTE_SLOTS = 1024"
  by (simp add: MM_REMOTE_SLOTS_def)

lemma remote_cell_mod: "remote_cell pos = unat pos mod 1024"
proof -
  have "of_nat MM_REMOTE_SLOTS - 1 = (mask 10 :: u32)" by (simp add: mask_eq_exp_minus_1)
  then have "remote_cell pos = unat (take_bit 10 pos)" by (simp add: remote_cell_def take_bit_eq_mask)
  then show ?thesis by (simp add: take_bit_eq_mod unat_mod)
qed

lemma remote_cell_add: "remote_cell (pos + of_nat k) = (unat pos + k) mod 1024"
proof -
  have "unat (pos + of_nat k) = (unat pos + k) mod 2 ^ 32"
    by (simp add: unat_word_ariths unat_of_nat take_bit_eq_mod mod_add_right_eq)
  moreover have "(1024::nat) dvd 2 ^ 32" by simp
  ultimately show ?thesis by (simp add: remote_cell_mod mod_mod_cancel)
qed

lemma mod_add_inj:
  assumes "j \<le> k" "k < (n::nat)" "(u + j) mod n = (u + k) mod n"
  shows "j = k"
proof -
  have "n dvd (u + k) - (u + j)" using assms by (metis add_le_cancel_left mod_eq_dvd_iff_nat)
  then show ?thesis using assms(1,2) by (auto dest: dvd_imp_le)
qed

lemma remote_cell_inj:
  assumes "j < 1024" "k < 1024" "remote_cell (pos + of_nat j) = remote_cell (pos + of_nat k)"
  shows "j = k"
  using assms mod_add_inj [of j k 1024 "unat pos"] mod_add_inj [of k j 1024 "unat pos"]
  by (cases "j \<le> k") (simp_all add: remote_cell_add)

lemma remote_cell_lap: "remote_cell (pos + of_nat MM_REMOTE_SLOTS) = remote_cell pos"
  by (simp only: slots remote_cell_add remote_cell_mod [of pos] mod_add_self2)

lemma small_sint: "k < 2 ^ 31 \<Longrightarrow> sint (of_nat k :: u32) = int k"
  by (simp add: signed_of_nat signed_take_bit_int_eq_self)

lemma remote_rep_seq:
  assumes "remote_rep a q" "k < MM_REMOTE_SLOTS"
  shows "seq (remote a (remote_cell (remote_tail a + of_nat k))) =
      remote_tail a + of_nat k + (if k < length q then 1 else 0)"
    and "k < length q \<Longrightarrow> ptr (remote a (remote_cell (remote_tail a + of_nat k))) = q ! k"
  using assms by (auto simp: remote_rep_def Let_def split: if_splits)

lemma mm_remote_push_rep:
  assumes "remote_rep a q"
  shows "if length q < MM_REMOTE_SLOTS
    then \<exists>a'. mm_remote_push p a = Some (True, a') \<and> remote_rep a' (q @ [p])
    else mm_remote_push p a = Some (False, a)"
proof (cases "length q < MM_REMOTE_SLOTS")
  case True
  let ?n = "length q" and ?t = "remote_tail a"
  have h: "remote_head a = ?t + of_nat ?n" using assms by (simp add: remote_rep_def)
  have s: "seq (remote a (remote_cell (remote_head a))) = remote_head a"
    using remote_rep_seq(1) [OF assms True] unfolding h by simp
  let ?a = "a\<lparr>remote_head := remote_head a + 1,
     remote := (remote a)(remote_cell (remote_head a) := \<lparr>seq = remote_head a + 1, ptr = p\<rparr>)\<rparr>"
  have push: "mm_remote_push p a = Some (True, ?a)" using s by (simp add: mm_remote_push_def Let_def)
  have "remote_rep ?a (q @ [p])"
    unfolding remote_rep_def Let_def
  proof (intro conjI allI impI)
    show "length (q @ [p]) \<le> MM_REMOTE_SLOTS" using True by simp
    show "remote_head ?a = remote_tail ?a + of_nat (length (q @ [p]))" using h by simp
    fix k assume k: "k < MM_REMOTE_SLOTS"
    have "remote_cell (?t + of_nat k) = remote_cell (remote_head a) \<longleftrightarrow> k = ?n"
      unfolding h using remote_cell_inj [of k ?n ?t] k True by auto
    then show "if k < length (q @ [p])
        then seq (remote ?a (remote_cell (remote_tail ?a + of_nat k))) = remote_tail ?a + of_nat k + 1 \<and>
             ptr (remote ?a (remote_cell (remote_tail ?a + of_nat k))) = (q @ [p]) ! k
        else seq (remote ?a (remote_cell (remote_tail ?a + of_nat k))) = remote_tail ?a + of_nat k"
      using remote_rep_seq [OF assms k] h by (auto simp: nth_append)
  qed
  then show ?thesis using True push by auto
next
  case False
  then have n: "length q = MM_REMOTE_SLOTS" using assms by (simp add: remote_rep_def)
  have h: "remote_head a = remote_tail a + of_nat MM_REMOTE_SLOTS" using assms n by (simp add: remote_rep_def)
  have "seq (remote a (remote_cell (remote_head a))) = remote_tail a + 1"
    unfolding h remote_cell_lap using remote_rep_seq(1) [OF assms, of 0] n by simp
  then have "seq (remote a (remote_cell (remote_head a))) - remote_head a = - of_nat 1023" using h by simp
  then have "sint (seq (remote a (remote_cell (remote_head a))) - remote_head a) = - 1023" by simp
  then have "mm_remote_push p a = Some (False, a)" unfolding mm_remote_push_def Let_def by simp
  then show ?thesis using False by simp
qed

lemma mm_remote_pop_rep:
  assumes "remote_rep a q"
  shows "case q of [] \<Rightarrow> mm_remote_pop a = (0, a)
    | x # xs \<Rightarrow> \<exists>a'. mm_remote_pop a = (x, a') \<and> remote_rep a' xs"
proof (cases q)
  case Nil
  then have "seq (remote a (remote_cell (remote_tail a))) = remote_tail a"
    using remote_rep_seq(1) [OF assms, of 0] by simp
  then have "sint (seq (remote a (remote_cell (remote_tail a))) - (remote_tail a + 1)) = -1" by simp
  then have "mm_remote_pop a = (0, a)" unfolding mm_remote_pop_def Let_def by simp
  then show ?thesis using Nil by simp
next
  case (Cons x xs)
  let ?t = "remote_tail a"
  have s: "seq (remote a (remote_cell ?t)) = ?t + 1" "ptr (remote a (remote_cell ?t)) = x"
    using remote_rep_seq [OF assms, of 0] Cons by simp_all
  let ?a = "a\<lparr>remote_tail := ?t + 1,
     remote := (remote a)(remote_cell ?t := \<lparr>seq = ?t + of_nat MM_REMOTE_SLOTS, ptr = 0\<rparr>)\<rparr>"
  have pop: "mm_remote_pop a = (x, ?a)" using s by (simp add: mm_remote_pop_def Let_def)
  have len: "length q \<le> MM_REMOTE_SLOTS" and h: "remote_head a = ?t + of_nat (length q)"
    using assms by (simp_all add: remote_rep_def)
  have "remote_rep ?a xs"
    unfolding remote_rep_def Let_def
  proof (intro conjI allI impI)
    show "length xs \<le> MM_REMOTE_SLOTS" using len Cons by simp
    show "remote_head ?a = remote_tail ?a + of_nat (length xs)" using h Cons by (simp add: add.assoc)
    fix k assume k: "k < MM_REMOTE_SLOTS"
    have at: "remote_tail ?a + of_nat k = ?t + of_nat (Suc k)" by (simp add: add.assoc)
    have "seq (remote ?a (remote_cell (?t + of_nat (Suc k)))) =
        ?t + of_nat (Suc k) + (if k < length xs then 1 else 0) \<and>
      (k < length xs \<longrightarrow> ptr (remote ?a (remote_cell (?t + of_nat (Suc k)))) = xs ! k)"
    proof (cases "Suc k = MM_REMOTE_SLOTS")
      case True
      have "remote_cell (?t + of_nat (Suc k)) = remote_cell ?t" unfolding True by (rule remote_cell_lap)
      then show ?thesis using True len Cons by simp
    next
      case False
      then have k': "Suc k < MM_REMOTE_SLOTS" using k by simp
      have "remote_cell (?t + of_nat (Suc k)) \<noteq> remote_cell ?t"
        using remote_cell_inj [of "Suc k" 0 ?t] k' by auto
      then show ?thesis using remote_rep_seq [OF assms k'] Cons by simp
    qed
    then show "if k < length xs
        then seq (remote ?a (remote_cell (remote_tail ?a + of_nat k))) = remote_tail ?a + of_nat k + 1 \<and>
             ptr (remote ?a (remote_cell (remote_tail ?a + of_nat k))) = xs ! k
        else seq (remote ?a (remote_cell (remote_tail ?a + of_nat k))) = remote_tail ?a + of_nat k"
      unfolding at by simp
  qed
  then show ?thesis using Cons pop by auto
qed

lemma mm_remote_forget_rep: "remote_rep (mm_remote_forget a) []"
  by (auto simp: remote_rep_def Let_def mm_remote_forget_def remote_cell_mod unat_of_nat take_bit_eq_mod)
section \<open>Producers and the owner, interleaved\<close>

text \<open>
  One step for each access to shared memory of \<^verbatim>\<open>mm_remote_push\<close>. \<open>Loaded\<close> has read a head position
  and will look at its cell; \<open>Seen\<close> found the cell free and will try the compare-exchange;
  \<open>Claimed\<close> won it and will store the pointer; \<open>Written\<close> will publish the sequence. The number beside
  a position is a ghost: how many positions had been claimed when it was read. The owner's pop is one
  step, since no producer reads the tail or a pointer. \<open>order\<close> lists the payloads in the order their
  positions were claimed and \<open>taken\<close> what the owner popped; both are ghosts.
\<close>

datatype producer =
    Idle
  | Loaded u32 nat nat
  | Seen u32 nat nat
  | Claimed u32 nat
  | Written u32 nat
  | Returned bool

record rq =
  ring :: mm_arena
  producers :: "nat \<Rightarrow> producer"
  order :: "nat list"
  taken :: "nat list"

definition cell_at :: "mm_arena \<Rightarrow> u32 \<Rightarrow> mm_remote_cell" where
  "cell_at a pos = remote a (remote_cell pos)"

definition set_cell :: "u32 \<Rightarrow> (mm_remote_cell \<Rightarrow> mm_remote_cell) \<Rightarrow> mm_arena \<Rightarrow> mm_arena" where
  "set_cell pos f a = a\<lparr>remote := (remote a)(remote_cell pos := f (cell_at a pos))\<rparr>"

definition seq_diff :: "rq \<Rightarrow> u32 \<Rightarrow> int" where
  "seq_diff s pos = sint (seq (cell_at (ring s) pos) - pos)"

text \<open>The premise of \<open>cas_won\<close> on the ghost is the one assumption about scheduling: positions are 32-bit
  words, so a producer must not sleep between reading the head and the compare-exchange while
  2^32 positions are claimed.\<close>

inductive rq_step :: "rq \<Rightarrow> rq \<Rightarrow> bool" where
  start: "producers s t \<in> {Idle, Returned True, Returned False} \<Longrightarrow> p \<noteq> 0 \<Longrightarrow>
    rq_step s (s\<lparr>producers := (producers s)(t := Loaded (remote_head (ring s)) p (length (order s)))\<rparr>)"
| look_free: "producers s t = Loaded pos p n \<Longrightarrow> seq_diff s pos = 0 \<Longrightarrow>
    rq_step s (s\<lparr>producers := (producers s)(t := Seen pos p n)\<rparr>)"
| look_full: "producers s t = Loaded pos p n \<Longrightarrow> seq_diff s pos < 0 \<Longrightarrow>
    rq_step s (s\<lparr>producers := (producers s)(t := Returned False)\<rparr>)"
| look_late: "producers s t = Loaded pos p n \<Longrightarrow> 0 < seq_diff s pos \<Longrightarrow>
    rq_step s (s\<lparr>producers := (producers s)(t := Loaded (remote_head (ring s)) p (length (order s)))\<rparr>)"
| cas_lost: "producers s t = Seen pos p n \<Longrightarrow>
    rq_step s (s\<lparr>producers := (producers s)(t := Loaded (remote_head (ring s)) p (length (order s)))\<rparr>)"
| cas_won: "producers s t = Seen pos p n \<Longrightarrow> remote_head (ring s) = pos \<Longrightarrow> length (order s) < n + 2 ^ 32 \<Longrightarrow>
    rq_step s (s\<lparr>ring := (ring s)\<lparr>remote_head := pos + 1\<rparr>, producers := (producers s)(t := Claimed pos p),
                order := order s @ [p]\<rparr>)"
| put: "producers s t = Claimed pos p \<Longrightarrow>
    rq_step s (s\<lparr>ring := set_cell pos (\<lambda>cell. cell\<lparr>ptr := p\<rparr>) (ring s), producers := (producers s)(t := Written pos p)\<rparr>)"
| publish: "producers s t = Written pos p \<Longrightarrow>
    rq_step s (s\<lparr>ring := set_cell pos (\<lambda>cell. cell\<lparr>seq := pos + 1\<rparr>) (ring s),
                producers := (producers s)(t := Returned True)\<rparr>)"
| pop: "mm_remote_pop (ring s) = (x, a) \<Longrightarrow> x \<noteq> 0 \<Longrightarrow>
    rq_step s (s\<lparr>ring := a, taken := taken s @ [x]\<rparr>)"

definition rq_init :: "mm_arena \<Rightarrow> rq" where
  "rq_init a = \<lparr>ring = mm_remote_forget a, producers = (\<lambda>_. Idle), order = [], taken = []\<rparr>"

text \<open>The invariant. A producer \<open>holds\<close> position \<open>n\<close> while it has claimed but not yet published it.\<close>

definition holds :: "rq \<Rightarrow> nat \<Rightarrow> nat \<Rightarrow> bool" where
  "holds s t n \<longleftrightarrow> (\<exists>p. producers s t = Claimed (of_nat n) p \<or> producers s t = Written (of_nat n) p)"

definition slot_ok :: "rq \<Rightarrow> nat \<Rightarrow> bool" where
  "slot_ok s n \<longleftrightarrow> (let cell = cell_at (ring s) (of_nat n) in
     if n < length (order s)
     then seq cell = of_nat n + 1 \<and> ptr cell = order s ! n \<or> seq cell = of_nat n \<and> (\<exists>t. holds s t n)
     else seq cell = of_nat n)"

definition producer_ok :: "rq \<Rightarrow> producer \<Rightarrow> bool" where
  "producer_ok s r \<longleftrightarrow> (let H = length (order s); T = length (taken s) in
     case r of
       Loaded pos p n \<Rightarrow> p \<noteq> 0 \<and> n \<le> H \<and> pos = of_nat n
     | Seen pos p n \<Rightarrow> p \<noteq> 0 \<and> n \<le> H \<and> pos = of_nat n \<and> (n = H \<longrightarrow> H < T + MM_REMOTE_SLOTS)
     | Claimed pos p \<Rightarrow> \<exists>n. T \<le> n \<and> n < H \<and> pos = of_nat n \<and> p = order s ! n \<and>
         seq (cell_at (ring s) pos) = of_nat n
     | Written pos p \<Rightarrow> \<exists>n. T \<le> n \<and> n < H \<and> pos = of_nat n \<and> p = order s ! n \<and>
         seq (cell_at (ring s) pos) = of_nat n \<and> ptr (cell_at (ring s) pos) = p
     | _ \<Rightarrow> True)"

definition rq_inv :: "rq \<Rightarrow> bool" where
  "rq_inv s \<longleftrightarrow> (let H = length (order s); T = length (taken s) in
     T \<le> H \<and> H \<le> T + MM_REMOTE_SLOTS \<and> remote_head (ring s) = of_nat H \<and> remote_tail (ring s) = of_nat T \<and>
     taken s = take T (order s) \<and> 0 \<notin> set (order s) \<and>
     (\<forall>n. T \<le> n \<and> n < T + MM_REMOTE_SLOTS \<longrightarrow> slot_ok s n) \<and>
     (\<forall>t. producer_ok s (producers s t)) \<and>
     (\<forall>t t' n. holds s t n \<and> holds s t' n \<longrightarrow> t = t'))"

lemma remote_cell_of_nat: "remote_cell (of_nat n) = n mod 1024"
proof -
  have "(1024::nat) dvd 2 ^ 32" by simp
  then show ?thesis by (simp add: remote_cell_mod unat_of_nat take_bit_eq_mod mod_mod_cancel)
qed

text \<open>Inside one lap, distinct positions have distinct cells and distinct 32-bit words.\<close>

lemma window_cell:
  assumes "T \<le> n" "n < T + 1024" "T \<le> m" "m < T + 1024"
  shows "remote_cell (of_nat n) = remote_cell (of_nat m) \<longleftrightarrow> n = m"
    and "(of_nat n :: u32) = of_nat m \<longleftrightarrow> n = m"
proof -
  have "n = m" if "n mod 1024 = m mod 1024"
  proof (cases "n \<le> m")
    case True
    then show ?thesis using mod_add_inj [of "n - T" "m - T" 1024 T] that assms by (simp add: less_diff_conv2 diff_le_mono)
  next
    case False
    then show ?thesis using mod_add_inj [of "m - T" "n - T" 1024 T] that assms by (simp add: less_diff_conv2 diff_le_mono)
  qed
  then show *: "remote_cell (of_nat n) = remote_cell (of_nat m) \<longleftrightarrow> n = m" by (auto simp: remote_cell_of_nat)
  show "(of_nat n :: u32) = of_nat m \<longleftrightarrow> n = m" using * by metis
qed

lemma rq_init_inv: "rq_inv (rq_init a)"
  by (auto simp: rq_inv_def rq_init_def Let_def slot_ok_def producer_ok_def holds_def cell_at_def
      mm_remote_forget_def remote_cell_of_nat)

lemma rq_invD:
  assumes "rq_inv s"
  defines "H \<equiv> length (order s)" and "T \<equiv> length (taken s)"
  shows "T \<le> H" "H \<le> T + 1024" "remote_head (ring s) = of_nat H" "remote_tail (ring s) = of_nat T"
    "taken s = take T (order s)" "0 \<notin> set (order s)"
    "T \<le> n \<Longrightarrow> n < T + 1024 \<Longrightarrow> slot_ok s n" "producer_ok s (producers s t)"
    "holds s t n \<Longrightarrow> holds s t' n \<Longrightarrow> t = t'"
  using assms(1) unfolding rq_inv_def Let_def H_def T_def slots by blast+

lemma holdsD:
  assumes "rq_inv s" "holds s t n'"
  obtains n where "length (taken s) \<le> n" "n < length (order s)" "(of_nat n' :: u32) = of_nat n"
    "seq (cell_at (ring s) (of_nat n)) = of_nat n"
  using rq_invD(8) [OF assms(1), of t] assms(2) by (auto simp: holds_def producer_ok_def Let_def)

text \<open>A step of a producer that holds no position, before and after.\<close>

lemma rq_inv_producer:
  assumes "rq_inv s" "\<And>n. \<not> holds s t n" "\<And>q p. r \<noteq> Claimed q p \<and> r \<noteq> Written q p" "producer_ok s r"
  shows "rq_inv (s\<lparr>producers := (producers s)(t := r)\<rparr>)"
proof -
  let ?s = "s\<lparr>producers := (producers s)(t := r)\<rparr>"
  have h: "holds ?s u n \<longleftrightarrow> holds s u n" for u n using assms(2,3) [of _] by (auto simp: holds_def)
  have "slot_ok ?s n \<longleftrightarrow> slot_ok s n" for n by (simp add: slot_ok_def h)
  moreover have "producer_ok ?s q \<longleftrightarrow> producer_ok s q" for q
    by (cases q) (simp_all add: producer_ok_def Let_def)
  ultimately show ?thesis using assms(1,4) by (auto simp: rq_inv_def Let_def h)
qed

lemma cell_at_head [simp]: "cell_at (a\<lparr>remote_head := x\<rparr>) q = cell_at a q"
  by (simp add: cell_at_def)

lemma loaded_ok: "rq_inv s \<Longrightarrow> p \<noteq> 0 \<Longrightarrow> producer_ok s (Loaded (remote_head (ring s)) p (length (order s)))"
  using rq_invD(3) by (simp add: producer_ok_def Let_def)

lemma seen_ok:
  assumes "rq_inv s" "producers s t = Loaded pos p n" "seq_diff s pos = 0"
  shows "producer_ok s (Seen pos p n)"
proof -
  let ?H = "length (order s)" and ?T = "length (taken s)"
  have r: "p \<noteq> 0" "n \<le> ?H" "pos = of_nat n"
    using rq_invD(8) [OF assms(1), of t] assms(2) by (simp_all add: producer_ok_def Let_def)
  have "seq (cell_at (ring s) pos) - pos = 0" using assms(3) by (simp add: seq_diff_def signed_eq_0_iff)
  then have sq: "seq (cell_at (ring s) pos) = pos" by simp
  have "?H < ?T + 1024" if "n = ?H"
  proof (rule ccontr)
    assume "\<not> ?thesis"
    then have H: "?H = ?T + 1024" using rq_invD(2) [OF assms(1)] by simp
    then have "cell_at (ring s) pos = cell_at (ring s) (of_nat ?T)"
      unfolding r(3) that by (simp only: cell_at_def remote_cell_of_nat mod_add_self2)
    moreover have "slot_ok s ?T" using rq_invD(7) [OF assms(1), of ?T] by simp
    ultimately have "of_nat ?H = (of_nat ?T + 1 :: u32) \<or> of_nat ?H = (of_nat ?T :: u32)"
      using sq r(3) that H by (auto simp: slot_ok_def Let_def)
    then show False using H by auto
  qed
  then show ?thesis using r by (simp add: producer_ok_def Let_def)
qed

lemma cas_won_inv:
  assumes inv: "rq_inv s" and t: "producers s t = Seen pos p n" and hd: "remote_head (ring s) = pos"
    and near: "length (order s) < n + 2 ^ 32"
  shows "rq_inv (s\<lparr>ring := (ring s)\<lparr>remote_head := pos + 1\<rparr>, producers := (producers s)(t := Claimed pos p),
                   order := order s @ [p]\<rparr>)" (is "rq_inv ?s")
proof -
  let ?H = "length (order s)" and ?T = "length (taken s)"
  have r: "p \<noteq> 0" "n \<le> ?H" "pos = of_nat n" "n = ?H \<longrightarrow> ?H < ?T + 1024"
    using rq_invD(8) [OF inv, of t] t by (simp_all add: producer_ok_def Let_def)
  have "(of_nat n :: u32) = of_nat ?H" using r(3) hd rq_invD(3) [OF inv] by simp
  then have "unat (of_nat n :: u32) = unat (of_nat ?H :: u32)" by (rule arg_cong)
  then have "n mod 2 ^ 32 = ?H mod 2 ^ 32" by (simp only: unat_of_nat take_bit_eq_mod) simp
  then have "2 ^ 32 dvd ?H - n" using r(2) by (metis mod_eq_dvd_iff_nat)
  then have nH: "n = ?H" using near r(2) by (auto dest: dvd_imp_le)
  then have room: "?H < ?T + 1024" using r(4) by blast
  have free: "seq (cell_at (ring s) (of_nat ?H)) = of_nat ?H"
    using rq_invD(7) [OF inv, of ?H] rq_invD(1) [OF inv] room by (simp add: slot_ok_def Let_def)
  have nt: "\<not> holds s t m" for m using t by (simp add: holds_def)
  have none: "\<not> holds s u ?H" for u
  proof
    assume "holds s u ?H"
    then obtain m where m: "?T \<le> m" "m < ?H" "(of_nat ?H :: u32) = of_nat m" by (rule holdsD [OF inv]) blast
    then show False using window_cell(2) [of ?T ?H m] room rq_invD(1) [OF inv] by simp
  qed
  have holds: "holds ?s u m \<longleftrightarrow> holds s u m \<or> u = t \<and> (of_nat m :: u32) = of_nat ?H" for u m
    using nt r(3) nH by (auto simp: holds_def)
  have excl: "u = u'" if "holds ?s u m" "holds ?s u' m" for u u' m
  proof -
    have clash: False if "holds s v m" "(of_nat m :: u32) = of_nat ?H" for v
      using that none [of v] by (simp add: holds_def)
    show ?thesis using that rq_invD(9) [OF inv] clash by (auto simp: holds)
  qed
  have slot: "slot_ok ?s m" if m: "?T \<le> m" "m < ?T + 1024" for m
  proof -
    consider "m < ?H" | "m = ?H" | "?H < m" by linarith
    then show ?thesis
    proof cases
      case 1
      then show ?thesis using rq_invD(7) [OF inv m] by (auto simp: slot_ok_def Let_def nth_append holds)
    next
      case 2
      then show ?thesis using free by (auto simp: slot_ok_def Let_def holds)
    next
      case 3
      then show ?thesis using rq_invD(7) [OF inv m] by (simp add: slot_ok_def Let_def)
    qed
  qed
  have prods: "producer_ok ?s (producers ?s u)" for u
  proof (cases "u = t")
    case True
    then show ?thesis using r(3) nH free rq_invD(1) [OF inv]
      by (auto simp: producer_ok_def Let_def intro!: exI [of _ ?H])
  next
    case False
    then show ?thesis using rq_invD(8) [OF inv, of u]
      by (cases "producers s u") (auto simp: producer_ok_def Let_def nth_append)
  qed
  have "remote_head (ring ?s) = of_nat (length (order ?s))" using r(3) nH by simp
  moreover have "taken s = take ?T (order s @ [p])" using rq_invD(5,1) [OF inv] by simp
  ultimately show ?thesis
    using rq_invD(1,4,6) [OF inv] room r(1) slot prods excl unfolding rq_inv_def Let_def slots by auto
qed

lemma cell_at_set_cell:
  "cell_at (set_cell pos f a) q = (if remote_cell q = remote_cell pos then f (cell_at a pos) else cell_at a q)"
  by (simp add: cell_at_def set_cell_def)

lemma set_cell_frame [simp]:
  "remote_head (set_cell pos f a) = remote_head a" "remote_tail (set_cell pos f a) = remote_tail a"
  by (simp_all add: set_cell_def)

text \<open>A step of the producer that holds position \<open>n\<close>, on the cell of that position.\<close>

lemma holder_step_inv:
  assumes inv: "rq_inv s" and n: "length (taken s) \<le> n" "n < length (order s)"
    and t: "holds s t n" and r: "r = Written (of_nat n) (order s ! n) \<or> r = Returned True"
    and cell: "ptr (f (cell_at (ring s) (of_nat n))) = order s ! n"
      "seq (f (cell_at (ring s) (of_nat n))) = (if r = Returned True then of_nat n + 1 else of_nat n)"
  shows "rq_inv (s\<lparr>ring := set_cell (of_nat n) f (ring s), producers := (producers s)(t := r)\<rparr>)" (is "rq_inv ?s")
proof -
  let ?H = "length (order s)" and ?T = "length (taken s)"
  have H: "?H \<le> ?T + 1024" by (rule rq_invD(2) [OF inv])
  have same: "remote_cell (of_nat m) = remote_cell (of_nat n) \<longleftrightarrow> m = n" if "?T \<le> m" "m < ?T + 1024" for m
    using window_cell(1) [OF that, of n] n H by simp
  have at: "cell_at (ring ?s) (of_nat m) = (if m = n then f (cell_at (ring s) (of_nat n)) else cell_at (ring s) (of_nat m))"
    if "?T \<le> m" "m < ?T + 1024" for m using same [OF that] by (simp add: cell_at_set_cell)
  have pos: "(of_nat m :: u32) = of_nat n \<longleftrightarrow> m = n" if "?T \<le> m" "m < ?T + 1024" for m
    using window_cell(2) [OF that, of n] n H by simp
  have mono: "holds s u m" if "holds ?s u m" for u m
    using that t r by (auto simp: holds_def split: if_splits)
  have slot: "slot_ok ?s m" if m: "?T \<le> m" "m < ?T + 1024" for m
  proof (cases "m = n")
    case True
    have "holds ?s t n" if "r \<noteq> Returned True" using r that by (auto simp: holds_def)
    then show ?thesis using True n(2) cell at [OF m] by (auto simp: slot_ok_def Let_def)
  next
    case False
    have "holds ?s u m" if "holds s u m" for u
    proof -
      have "u \<noteq> t"
      proof
        assume "u = t"
        then have "(of_nat m :: u32) = of_nat n" using t that by (auto simp: holds_def)
        then show False using pos [OF m] False by simp
      qed
      then show ?thesis using that by (simp add: holds_def)
    qed
    then have "(\<exists>u. holds s u m) \<longrightarrow> (\<exists>u. holds ?s u m)" by blast
    then show ?thesis using rq_invD(7) [OF inv m] False at [OF m]
      by (cases "m < ?H") (simp_all add: slot_ok_def Let_def, blast)
  qed
  have prods: "producer_ok ?s (producers ?s u)" for u
  proof (cases "u = t")
    case True
    have "?T \<le> n" "n < ?T + 1024" using n H by simp_all
    then show ?thesis using True r n cell at [of n] by (auto simp: producer_ok_def Let_def intro!: exI [of _ n])
  next
    case False
    have other: "cell_at (ring ?s) q = cell_at (ring s) q" if held: "producers s u = Claimed q p \<or> producers s u = Written q p" for q p
    proof -
      obtain m where m: "?T \<le> m" "m < ?H" "q = of_nat m"
        using rq_invD(8) [OF inv, of u] held by (auto simp: producer_ok_def Let_def)
      then have "holds s u m" using held by (auto simp: holds_def)
      then have "m \<noteq> n" using rq_invD(9) [OF inv t] False by blast
      then show ?thesis using at [of m] m H by simp
    qed
    then show ?thesis using rq_invD(8) [OF inv, of u] False
      by (cases "producers s u") (simp_all add: producer_ok_def Let_def)
  qed
  show ?thesis
    using rq_invD(1-6) [OF inv] slot prods rq_invD(9) [OF inv mono mono] unfolding rq_inv_def Let_def slots
    by simp blast
qed

lemma pop_inv:
  assumes inv: "rq_inv s" and pop: "mm_remote_pop (ring s) = (x, a)" "x \<noteq> 0"
  shows "rq_inv (s\<lparr>ring := a, taken := taken s @ [x]\<rparr>)" (is "rq_inv ?s")
proof -
  let ?H = "length (order s)" and ?T = "length (taken s)"
  let ?cell = "cell_at (ring s) (of_nat ?T)"
  have tl: "remote_tail (ring s) = of_nat ?T" by (rule rq_invD(4) [OF inv])
  have "sint (seq ?cell - (of_nat ?T + 1)) = 0"
    using pop tl by (auto simp: mm_remote_pop_def Let_def cell_at_def split: if_splits)
  then have sq: "seq ?cell = of_nat ?T + 1" by (simp add: signed_eq_0_iff)
  then have a: "x = ptr ?cell" "a = set_cell (of_nat ?T) (\<lambda>_. \<lparr>seq = of_nat (?T + 1024), ptr = 0\<rparr>)
      ((ring s)\<lparr>remote_tail := of_nat (Suc ?T)\<rparr>)"
    using pop tl by (auto simp: mm_remote_pop_def Let_def cell_at_def set_cell_def add.commute)
  have slotT: "slot_ok s ?T" by (rule rq_invD(7) [OF inv]) simp_all
  then have TH: "?T < ?H" and x: "x = order s ! ?T" using sq a(1) by (auto simp: slot_ok_def Let_def split: if_splits)
  have at: "cell_at a (of_nat m) = (if m = ?T + 1024 then \<lparr>seq = of_nat (?T + 1024), ptr = 0\<rparr> else cell_at (ring s) (of_nat m))"
    if "?T < m" "m \<le> ?T + 1024" for m
  proof -
    have "remote_cell (of_nat (?T + 1024)) = remote_cell (of_nat ?T)"
      by (simp only: remote_cell_of_nat mod_add_self2)
    moreover have "m < ?T + 1024 \<Longrightarrow> remote_cell (of_nat m) \<noteq> remote_cell (of_nat ?T)"
      using window_cell(1) [of ?T m ?T] that by simp
    moreover have "cell_at ((ring s)\<lparr>remote_tail := y\<rparr>) q = cell_at (ring s) q" for y q by (simp add: cell_at_def)
    ultimately show ?thesis using that by (cases "m = ?T + 1024") (simp_all add: a(2) cell_at_set_cell)
  qed
  have holds: "holds ?s = holds s" by (simp add: holds_def fun_eq_iff)
  have slot: "slot_ok ?s m" if m: "Suc ?T \<le> m" "m < Suc ?T + 1024" for m
  proof (cases "m = ?T + 1024")
    case True
    then show ?thesis using at [of m] rq_invD(2) [OF inv] by (simp add: slot_ok_def Let_def)
  next
    case False
    then show ?thesis using rq_invD(7) [OF inv, of m] m at [of m] by (simp add: slot_ok_def Let_def holds)
  qed
  have prods: "producer_ok ?s (producers ?s u)" for u
  proof -
    have other: "\<exists>m. Suc ?T \<le> m \<and> m < ?H \<and> q = of_nat m \<and> p = order s ! m \<and>
        seq (cell_at (ring s) q) = of_nat m \<and> cell_at a q = cell_at (ring s) q"
      if held: "producers s u = Claimed q p \<or> producers s u = Written q p" for q p
    proof -
      obtain m where m: "?T \<le> m" "m < ?H" "q = of_nat m" "p = order s ! m" "seq (cell_at (ring s) q) = of_nat m"
        using rq_invD(8) [OF inv, of u] held by (auto simp: producer_ok_def Let_def)
      then have "m \<noteq> ?T" using sq by auto
      then show ?thesis using m at [of m] rq_invD(2) [OF inv] by (intro exI [of _ m]) simp
    qed
    show ?thesis
    proof (cases "producers s u")
      case (Claimed q p)
      then show ?thesis using other [of q p] by (auto simp: producer_ok_def Let_def)
    next
      case (Written q p)
      then show ?thesis using other [of q p] rq_invD(8) [OF inv, of u] by (auto simp: producer_ok_def Let_def)
    qed (use rq_invD(8) [OF inv, of u] in \<open>auto simp: producer_ok_def Let_def\<close>)
  qed
  have "remote_head a = of_nat ?H" "remote_tail a = of_nat (Suc ?T)"
    using rq_invD(3) [OF inv] by (simp_all add: a(2))
  moreover have "taken s @ [x] = take (Suc ?T) (order s)"
    using rq_invD(5) [OF inv] TH x by (simp add: take_Suc_conv_app_nth)
  ultimately show ?thesis
    using rq_invD(2,6) [OF inv] TH slot prods rq_invD(9) [OF inv] unfolding rq_inv_def Let_def slots holds
    by simp blast
qed

lemma rq_step_inv: "rq_step s s' \<Longrightarrow> rq_inv s \<Longrightarrow> rq_inv s'"
proof (induction rule: rq_step.induct)
  case (start s t p)
  then show ?case by (intro rq_inv_producer loaded_ok) (auto simp: holds_def)
next
  case (look_free s t pos p n)
  then show ?case by (intro rq_inv_producer seen_ok) (auto simp: holds_def)
next
  case (look_full s t pos p n)
  then show ?case by (intro rq_inv_producer) (auto simp: holds_def producer_ok_def Let_def)
next
  case (look_late s t pos p n)
  then show ?case using rq_invD(8) [of s t]
    by (intro rq_inv_producer loaded_ok) (auto simp: holds_def producer_ok_def Let_def)
next
  case (cas_lost s t pos p n)
  then show ?case using rq_invD(8) [of s t]
    by (intro rq_inv_producer loaded_ok) (auto simp: holds_def producer_ok_def Let_def)
next
  case (cas_won s t pos p n)
  then show ?case by (intro cas_won_inv)
next
  case (put s t pos p)
  then obtain n where n: "length (taken s) \<le> n" "n < length (order s)" "pos = of_nat n" "p = order s ! n"
      "seq (cell_at (ring s) pos) = of_nat n"
    using rq_invD(8) [of s t] by (auto simp: producer_ok_def Let_def)
  have "holds s t n" using put n by (auto simp: holds_def)
  then show ?case unfolding n(3,4)
    by (rule holder_step_inv [OF put.prems n(1,2)]) (use n in simp_all)
next
  case (publish s t pos p)
  then obtain n where n: "length (taken s) \<le> n" "n < length (order s)" "pos = of_nat n" "p = order s ! n"
      "seq (cell_at (ring s) pos) = of_nat n" "ptr (cell_at (ring s) pos) = p"
    using rq_invD(8) [of s t] by (auto simp: producer_ok_def Let_def)
  have "holds s t n" using publish n by (auto simp: holds_def)
  then show ?case unfolding n(3)
    by (rule holder_step_inv [OF publish.prems n(1,2)]) (use n in simp_all)
next
  case (pop s x a)
  then show ?case by (intro pop_inv)
qed

lemma rq_reachable_inv: "rq_step\<^sup>*\<^sup>* (rq_init a) s \<Longrightarrow> rq_inv s"
  by (induction rule: rtranclp_induct) (auto intro: rq_init_inv rq_step_inv)

text \<open>With no producer in the middle of a push, the ring is the sequential queue of what was claimed and
  not yet taken.\<close>

lemma quiescent_rep:
  assumes "rq_inv s" "\<And>t n. \<not> holds s t n"
  shows "remote_rep (ring s) (drop (length (taken s)) (order s))"
proof -
  let ?H = "length (order s)" and ?T = "length (taken s)"
  have "if k < ?H - ?T
      then seq (cell_at (ring s) (of_nat ?T + of_nat k)) = of_nat ?T + of_nat k + 1 \<and>
           ptr (cell_at (ring s) (of_nat ?T + of_nat k)) = order s ! (?T + k)
      else seq (cell_at (ring s) (of_nat ?T + of_nat k)) = of_nat ?T + of_nat k" if "k < 1024" for k
  proof -
    have "slot_ok s (?T + k)" using that rq_invD(7) [OF assms(1), of "?T + k"] by simp
    then show ?thesis using assms(2) by (cases "?T + k < ?H") (auto simp: slot_ok_def Let_def)
  qed
  note cells = this [unfolded cell_at_def]
  have len: "length (drop ?T (order s)) = ?H - ?T" by simp
  show ?thesis
    unfolding remote_rep_def Let_def slots len rq_invD(3,4) [OF assms(1)]
  proof (intro conjI allI impI)
    fix k :: nat assume "k < 1024"
    from cells [OF this] show "if k < ?H - ?T
      then seq (remote (ring s) (remote_cell (of_nat ?T + of_nat k))) = of_nat ?T + of_nat k + 1 \<and>
           ptr (remote (ring s) (remote_cell (of_nat ?T + of_nat k))) = drop ?T (order s) ! k
      else seq (remote (ring s) (remote_cell (of_nat ?T + of_nat k))) = of_nat ?T + of_nat k"
      by (auto split: if_splits)
  qed (use rq_invD(1,2) [OF assms(1)] in \<open>simp_all add: of_nat_diff\<close>)
qed

text \<open>The oldest pointer in the ring can always be brought to the owner: the producer that holds its
  position, if there is one, finishes in at most two steps and the owner's next pop returns it.\<close>

lemma pop_head:
  assumes "rq_inv s" "length (taken s) < length (order s)" "\<And>t. \<not> holds s t (length (taken s))"
  shows "\<exists>a. mm_remote_pop (ring s) = (order s ! length (taken s), a)"
proof -
  let ?T = "length (taken s)"
  have "slot_ok s ?T" by (rule rq_invD(7) [OF assms(1)]) simp_all
  then have "seq (cell_at (ring s) (of_nat ?T)) = of_nat ?T + 1" "ptr (cell_at (ring s) (of_nat ?T)) = order s ! ?T"
    using assms(2,3) by (auto simp: slot_ok_def Let_def)
  then show ?thesis using rq_invD(4) [OF assms(1)] by (simp add: mm_remote_pop_def Let_def cell_at_def)
qed

lemma finish_holder:
  assumes inv: "rq_inv s"
  shows "\<exists>s'. rq_step\<^sup>*\<^sup>* s s' \<and> order s' = order s \<and> taken s' = taken s \<and> (\<forall>t. \<not> holds s' t (length (taken s)))"
proof (cases "\<exists>t. holds s t (length (taken s))")
  case True
  let ?n = "length (taken s)"
  obtain t where t: "holds s t ?n" using True by blast
  have publish: "\<exists>s'. rq_step\<^sup>*\<^sup>* u s' \<and> order s' = order s \<and> taken s' = taken s \<and> (\<forall>t. \<not> holds s' t ?n)"
    if u: "producers u t = Written (of_nat ?n) p" "rq_inv u" "order u = order s" "taken u = taken s" for u p
  proof -
    let ?s' = "u\<lparr>ring := set_cell (of_nat ?n) (\<lambda>cell. cell\<lparr>seq := of_nat ?n + 1\<rparr>) (ring u),
      producers := (producers u)(t := Returned True)\<rparr>"
    have "holds u t ?n" using u(1) by (auto simp: holds_def)
    then have "\<not> holds ?s' v ?n" for v using rq_invD(9) [OF u(2)] by (auto simp: holds_def split: if_splits)
    then show ?thesis using rq_step.publish [OF u(1)] u(3,4) by (intro exI [of _ ?s']) simp
  qed
  show ?thesis
  proof (cases "\<exists>p. producers s t = Written (of_nat ?n) p")
    case True
    then show ?thesis using publish inv by blast
  next
    case False
    then obtain p where p: "producers s t = Claimed (of_nat ?n) p" using t by (auto simp: holds_def)
    note step = rq_step.put [OF p]
    obtain s' where "rq_step\<^sup>*\<^sup>* (s\<lparr>ring := set_cell (of_nat ?n) (\<lambda>cell. cell\<lparr>ptr := p\<rparr>) (ring s),
        producers := (producers s)(t := Written (of_nat ?n) p)\<rparr>) s'" "order s' = order s" "taken s' = taken s"
        "\<forall>t. \<not> holds s' t ?n"
      using publish [OF _ rq_step_inv [OF step inv]] by auto
    then show ?thesis using step by (meson converse_rtranclp_into_rtranclp)
  qed
qed (use inv in blast)

lemma drain_reachable:
  "rq_inv s \<Longrightarrow> length (order s) - length (taken s) = k \<Longrightarrow>
     \<exists>s'. rq_step\<^sup>*\<^sup>* s s' \<and> order s' = order s \<and> taken s' = order s"
proof (induction k arbitrary: s)
  case 0
  then show ?case using rq_invD(1,5) [OF 0(1)] by auto
next
  case (Suc k)
  let ?T = "length (taken s)"
  obtain u where u: "rq_step\<^sup>*\<^sup>* s u" "order u = order s" "taken u = taken s" "\<forall>t. \<not> holds u t ?T"
    using finish_holder [OF Suc.prems(1)] by blast
  have inv: "rq_inv u" using u(1) Suc.prems(1) by (induction rule: rtranclp_induct) (auto intro: rq_step_inv)
  have T: "?T < length (order s)" using Suc.prems(2) by simp
  then obtain a where a: "mm_remote_pop (ring u) = (order s ! ?T, a)" using pop_head [OF inv] u by auto
  have "order s ! ?T \<noteq> 0" using rq_invD(6) [OF Suc.prems(1)] T nth_mem by metis
  note step = rq_step.pop [OF a this]
  have "length (order s) - Suc ?T = k" using Suc.prems(2) by linarith
  then obtain s' where "rq_step\<^sup>*\<^sup>* (u\<lparr>ring := a, taken := taken u @ [order s ! ?T]\<rparr>) s'" "order s' = order s" "taken s' = order s"
    using Suc.IH [OF rq_step_inv [OF step inv]] u(2,3) by auto
  then show ?case using u(1) step by (meson converse_rtranclp_into_rtranclp rtranclp_trans)
qed
section \<open>The queue interface\<close>

text \<open>What freeing across arenas relies on: a bounded queue that accepts until it is full, refuses
  without a change when it is, never runs for ever, and gives back in order.\<close>

locale bounded_fifo =
  fixes rep :: "'q \<Rightarrow> 'a list \<Rightarrow> bool"
    and push :: "'a \<Rightarrow> 'q \<Rightarrow> (bool \<times> 'q) option"
    and pop :: "'q \<Rightarrow> 'a \<times> 'q"
    and none :: 'a
    and slots :: nat
  assumes push_room: "rep a q \<Longrightarrow> length q < slots \<Longrightarrow> \<exists>a'. push p a = Some (True, a') \<and> rep a' (q @ [p])"
    and push_full: "rep a q \<Longrightarrow> \<not> length q < slots \<Longrightarrow> push p a = Some (False, a)"
    and pop_empty: "rep a [] \<Longrightarrow> pop a = (none, a)"
    and pop_first: "rep a (x # xs) \<Longrightarrow> \<exists>a'. pop a = (x, a') \<and> rep a' xs"
begin

lemma push_decides: "rep a q \<Longrightarrow> \<exists>ok a'. push p a = Some (ok, a') \<and> rep a' (if ok then q @ [p] else q)"
  using push_room push_full by (cases "length q < slots") fastforce+

fun pops :: "nat \<Rightarrow> 'q \<Rightarrow> 'a list \<times> 'q" where
  "pops 0 a = ([], a)"
| "pops (Suc k) a = (let (x, a) = pop a; (xs, a) = pops k a in (x # xs, a))"

lemma pops_rep: "rep a (xs @ ys) \<Longrightarrow> \<exists>a'. pops (length xs) a = (xs, a') \<and> rep a' ys"
proof (induction xs arbitrary: a)
  case (Cons x xs)
  obtain a' where "pop a = (x, a')" "rep a' (xs @ ys)" using pop_first Cons.prems by fastforce
  then show ?case using Cons.IH [of a'] by auto
qed simp

end

interpretation rf: bounded_fifo remote_rep mm_remote_push mm_remote_pop 0 MM_REMOTE_SLOTS
proof unfold_locales
  show "\<exists>a'. mm_remote_push p a = Some (True, a') \<and> remote_rep a' (q @ [p])"
    if "remote_rep a q" "length q < MM_REMOTE_SLOTS" for a q p
    using mm_remote_push_rep [OF that(1), of p] that(2) by simp
  show "mm_remote_push p a = Some (False, a)" if "remote_rep a q" "\<not> length q < MM_REMOTE_SLOTS" for a q p
    using mm_remote_push_rep [OF that(1), of p] that(2) by simp
  show "mm_remote_pop a = (0, a)" if "remote_rep a []" for a using mm_remote_pop_rep [OF that] by simp
  show "\<exists>a'. mm_remote_pop a = (x, a') \<and> remote_rep a' xs" if "remote_rep a (x # xs)" for a x xs
    using mm_remote_pop_rep [OF that] by simp
qed

section \<open>Properties of the queue\<close>

text \<open>C17 (refinement). Run alone, the ring is a bounded first-in first-out queue: a push answers at its
  first attempt, accepting the pointer at the end while there is room and refusing it with nothing
  changed when 1024 are pending; a pop returns the oldest pointer, or \<^verbatim>\<open>NULL\<close> with nothing changed
  when there is none. Positions and sequence numbers wrap at 2^32.\<close>

theorem remote_queue_fifo:
  assumes "remote_rep a q"
  shows "(\<exists>ok a'. mm_remote_push p a = Some (ok, a') \<and> ok = (length q < MM_REMOTE_SLOTS) \<and>
       remote_rep a' (if ok then q @ [p] else q) \<and> (\<not> ok \<longrightarrow> a' = a)) \<and>
    (case q of [] \<Rightarrow> mm_remote_pop a = (0, a)
     | x # xs \<Rightarrow> \<exists>a'. mm_remote_pop a = (x, a') \<and> remote_rep a' xs)"
  using rf.push_room [OF assms, of p] rf.push_full [OF assms, of p] mm_remote_pop_rep [OF assms] assms
  by (cases "length q < MM_REMOTE_SLOTS") auto



text \<open>A producer that has won the first position and not yet stored its pointer.\<close>

definition sample_claim :: rq where
  "sample_claim = (rq_init arena_zero)\<lparr>ring := (mm_remote_forget arena_zero)\<lparr>remote_head := 1\<rparr>,
     producers := (\<lambda>_. Idle)(5 := Claimed 0 4096), order := [4096]\<rparr>"

lemma sample_claim_reachable: "rq_step\<^sup>*\<^sup>* (rq_init arena_zero) sample_claim"
proof -
  define s1 where "s1 = (rq_init arena_zero)\<lparr>producers := (\<lambda>_. Idle)(5 := Loaded 0 4096 0)\<rparr>"
  define s2 where "s2 = (rq_init arena_zero)\<lparr>producers := (\<lambda>_. Idle)(5 := Seen 0 4096 0)\<rparr>"
  have "rq_step (rq_init arena_zero) s1"
    using rq_step.start [of "rq_init arena_zero" 5 4096] by (simp add: s1_def rq_init_def mm_remote_forget_def)
  moreover have "seq_diff s1 0 = 0"
    by (simp add: s1_def seq_diff_def cell_at_def remote_cell_def rq_init_def mm_remote_forget_def)
  then have "rq_step s1 s2" using rq_step.look_free [of s1 5 0 4096 0] by (simp add: s1_def s2_def rq_init_def)
  moreover have "rq_step s2 sample_claim"
    using rq_step.cas_won [of s2 5 0 4096 0] by (simp add: s2_def sample_claim_def rq_init_def mm_remote_forget_def)
  ultimately show ?thesis by (meson converse_rtranclp_into_rtranclp rtranclp.rtrancl_refl)
qed

theorem remote_queue_fifo_witness:
  "\<exists>a'. mm_remote_push 4096 (mm_remote_forget arena_zero) = Some (True, a') \<and> remote_rep a' [4096]"
proof -
  obtain ok a' where "mm_remote_push 4096 (mm_remote_forget arena_zero) = Some (ok, a')"
      "ok = (length ([] :: nat list) < MM_REMOTE_SLOTS)" "remote_rep a' (if ok then [] @ [4096] else [])"
    using remote_queue_fifo [OF mm_remote_forget_rep, of 4096 arena_zero] by blast
  then show ?thesis by simp
qed


end
