(* ===== verification/Mars_Arena.thy ===== *)
theory Mars_Arena
  imports Mars_Recovery Mars_Remote
begin

unbundle bit_operations_syntax

text \<open>
  Building, growing and releasing spans, from \<^verbatim>\<open>src/mm_arena.c\<close>; drawing the secret, from
  \<^verbatim>\<open>src/mm_core.c\<close>; resetting every arena, from \<^verbatim>\<open>src/mm_lock.c\<close>. An operation that can fail
  returns 0 or \<open>False\<close> with the state in which it failed.
\<close>

section \<open>The arena secret\<close>

definition mm_pin_secret :: "u64 \<Rightarrow> mm_state \<Rightarrow> mm_state" where
  "mm_pin_secret s st = st\<lparr>g_pinned_secret := s\<rparr>"

definition mm_draw_secret :: "mm_state \<Rightarrow> u64" where
  "mm_draw_secret st =
     (if g_pinned_secret st \<noteq> 0 then g_pinned_secret st
      else let (addr, time, clock) = os_entropy st;
               z = addr;
               z = z XOR push_bit 20 time;
               z = z XOR (clock * 0x2545F4914F6CDD1D);
               z = z + 0x9E3779B97F4A7C15;
               z = (z XOR drop_bit 30 z) * 0xBF58476D1CE4E5B9;
               z = (z XOR drop_bit 27 z) * 0x94D049BB133111EB;
               z = z XOR drop_bit 31 z
           in z OR 1)"

section \<open>Building a span\<close>

definition span_adopt :: "mm_config \<Rightarrow> nat \<Rightarrow> mm_state \<Rightarrow> bool \<times> mm_state" where
  "span_adopt c s st =
     (let st = upd_desc s (\<lambda>d. d\<lparr>owner := mm_self st\<rparr>) st;
          (ok, st) = mm_span_register s st
      in if \<not> ok then (False, st)
         else
           let d = descs st s;
               usable = sub64 (hi d) (lo d);
               st = upd_arena (\<lambda>a. a\<lparr>spans := s # spans a, span_count := span_count a + 1,
                                     total_bytes := total_bytes a + usable,
                                     next_index_base := next_index_base a + of_nat (usable div MM_ALIGNMENT)\<rparr>) st;
               first = lo d;
               st = upd_mem (\<lambda>m. set_word_at m first 0) st;
               st = (if MM_HAS_CRC c then upd_mem (\<lambda>m. set_payload_crc m first 0) st else st);
               st = upd_mem (\<lambda>m. mm_set_word m first usable 0 False False) st;
               st = upd_mem (\<lambda>m. mm_set_prev_in_use m first True) st;
               st = snd (mm_publish c first st);
               st = mm_bin_insert c first st
           in (True, if scrub_span (g_arena st) = 0
                     then upd_arena (\<lambda>a. a\<lparr>scrub_span := s, scrub_at := lo d\<rparr>) st else st))"

definition mm_arena_install_user :: "mm_config \<Rightarrow> nat \<Rightarrow> nat \<Rightarrow> mm_state \<Rightarrow> nat \<times> mm_state" where
  "mm_arena_install_user c heap heap_size st =
     (let usable = sub64 heap_size (MM_BLOCK_OFFSET c);
          usable = usable - usable mod MM_ALIGNMENT;
          st = upd_desc user_desc (\<lambda>_.
                 \<lparr>magic = mm_span_magic_for user_desc, lo = heap + MM_BLOCK_OFFSET c,
                  hi = heap + MM_BLOCK_OFFSET c + usable, owner = mm_self st,
                  index_base = next_index_base (g_arena st), map_base = 0, map_size = 0,
                  kind = MM_SPAN_USER, fresh = False, trim_after = 0\<rparr>) st;
          (ok, st) = span_adopt c user_desc st
      in (if ok then user_desc else 0, st))"

definition map_chunk_aligned :: "nat \<Rightarrow> mm_state \<Rightarrow> nat \<times> mm_state" where
  "map_chunk_aligned n st =
     (let over = n + MM_CHUNK_SIZE
      in if over \<ge> 2 ^ 64 then (0, st)
         else let (raw, st) = sys_map over st
              in if raw = 0 then (0, st)
                 else let aligned = mm_round_up raw MM_CHUNK_SIZE;
                          front = aligned - raw;
                          st = (if front \<noteq> 0 then sys_unmap raw front st else st);
                          back = over - front - n;
                          st = (if back \<noteq> 0 then sys_unmap (aligned + n) back st else st)
                      in (aligned, st))"

definition map_span :: "mm_config \<Rightarrow> nat \<Rightarrow> mm_span_kind \<Rightarrow> mm_state \<Rightarrow> nat \<times> mm_state" where
  "map_span c block_size knd st =
     (if \<not> mm_arena_can_grow \<or> \<not> growable (g_arena st) then (0, st)
      else
        let want = MM_BLOCK_OFFSET c + block_size
        in if want \<ge> 2 ^ 64 then (0, st)
           else let n = mm_round_up want MM_CHUNK_SIZE
                in if n < want then (0, st)
                   else let (s, st) = span_desc_alloc st
                        in if s = 0 then (0, st)
                           else let (base, st) = map_chunk_aligned n st
                                in if base = 0 then (0, span_desc_free s st)
                                   else
                                     let first = base + MM_BLOCK_OFFSET c;
                                         usable = base + n - first;
                                         usable = usable - usable mod MM_ALIGNMENT;
                                         st = upd_desc s (\<lambda>d. d\<lparr>
                                                magic := mm_span_magic_for s, lo := first, hi := first + usable,
                                                index_base := next_index_base (g_arena st), map_base := base,
                                                map_size := n, kind := knd, fresh := True, trim_after := 0\<rparr>) st;
                                         (ok, st) = span_adopt c s st
                                     in if \<not> ok then (0, span_desc_free s (sys_unmap base n st))
                                        else (s, upd_arena (\<lambda>a. a\<lparr>fresh_spans := fresh_spans a + 1\<rparr>) st))"

definition mm_arena_grow :: "mm_config \<Rightarrow> nat \<Rightarrow> mm_state \<Rightarrow> nat \<times> mm_state" where
  "mm_arena_grow c block_size st =
     (if block_size > MM_LARGE_THRESHOLD then (0, st) else map_span c block_size MM_SPAN_CHUNK st)"

definition mm_arena_map_large :: "mm_config \<Rightarrow> nat \<Rightarrow> mm_state \<Rightarrow> nat \<times> mm_state" where
  "mm_arena_map_large c block_size st = map_span c block_size MM_SPAN_LARGE st"

section \<open>Release\<close>

definition MM_FRESH_DIRTY_PREFIX :: nat where "MM_FRESH_DIRTY_PREFIX = 2 * 8"

definition mm_span_take_fresh :: "nat \<Rightarrow> mm_state \<Rightarrow> nat \<times> mm_state" where
  "mm_span_take_fresh b st =
     (let s = mm_span_of st b
      in if s = 0 \<or> \<not> fresh (descs st s) then (SIZE_MAX, st)
         else let st = upd_desc s (\<lambda>d. d\<lparr>fresh := False\<rparr>) st;
                  st = upd_arena (\<lambda>a. a\<lparr>fresh_spans := sub64 (fresh_spans a) 1\<rparr>) st
              in (if b \<noteq> lo (descs st s) then SIZE_MAX else MM_FRESH_DIRTY_PREFIX, st))"

definition mm_arena_release_span :: "nat \<Rightarrow> mm_state \<Rightarrow> mm_state" where
  "mm_arena_release_span s st =
     (if s = 0 \<or> kind (descs st s) = MM_SPAN_USER then st
      else
        let st = (if fresh (descs st s)
                  then upd_arena (\<lambda>a. a\<lparr>fresh_spans := sub64 (fresh_spans a) 1\<rparr>) st else st);
            st = mm_scrub_leave s st;
            st = mm_span_unregister s st;
            d = descs st s;
            st = upd_arena (\<lambda>a. a\<lparr>spans := remove1 s (spans a), span_count := sub64 (span_count a) 1,
                                  total_bytes := sub64 (total_bytes a) (sub64 (hi d) (lo d))\<rparr>) st;
            st = upd_desc s (\<lambda>d. d\<lparr>lo := 0, hi := 0, magic := 0\<rparr>) st;
            st = sys_unmap (map_base d) (map_size d) st
        in span_desc_free s st)"

definition reset_span :: "nat \<Rightarrow> mm_state \<Rightarrow> mm_state" where
  "reset_span s st =
     (let st = mm_span_unregister s st; d = descs st s
      in if kind d = MM_SPAN_USER then st
         else let st = upd_desc s (\<lambda>d. d\<lparr>lo := 0, hi := 0, magic := 0\<rparr>) st;
                  st = sys_unmap (map_base d) (map_size d) st
              in span_desc_free s st)"

definition mm_arena_reset :: "mm_state \<Rightarrow> mm_state" where
  "mm_arena_reset st =
     (let st = foldl (\<lambda>st s. reset_span s st) st (spans (g_arena st));
          st = upd_arena (\<lambda>a. a\<lparr>spans := [], span_count := 0, fresh_spans := 0, total_bytes := 0,
                                span_cache := 0, scrub_span := 0, scrub_at := 0, growable := False,
                                lost_bytes := 0, next_index_base := 0\<rparr>) st
      in mm_bins_reset st)"

section \<open>Every arena\<close>

text \<open>Under per-thread arenas every arena is emptied in turn with the calling thread pointed at it;
  all but the first then go back to the pool, and the caller is left on the first.\<close>

definition mm_arenas_reset :: "mm_config \<Rightarrow> mm_state \<Rightarrow> mm_state" where
  "mm_arenas_reset c st =
     (let st = st\<lparr>g_arena_epoch := g_arena_epoch st + 1\<rparr>
      in if cfg_lock c \<noteq> MM_LOCK_ARENA then mm_arena_reset st
         else
           let st = foldl (\<lambda>st a.
                      let st = st\<lparr>mm_self := a\<rparr>;
                          st = mm_arena_reset st
                      in upd_arena (\<lambda>r. (mm_remote_forget r)\<lparr>claimed := False\<rparr>) st) st (g_arenas st);
               st = st\<lparr>g_orphans := tl (g_arenas st)\<rparr>;
               st = st\<lparr>mm_self := g_main_arena\<rparr>
           in upd_arena (\<lambda>a. a\<lparr>claimed := True, epoch := g_arena_epoch st\<rparr>) st)"

definition mm_arena_init_growable :: "mm_config \<Rightarrow> mm_state \<Rightarrow> bool \<times> mm_state" where
  "mm_arena_init_growable c st =
     (if \<not> mm_arena_can_grow then (False, st)
      else
        let st = mm_arenas_reset c st;
            st = upd_arena (\<lambda>a. a\<lparr>secret := mm_draw_secret st, mode := MM_MODE_MANAGED, growable := True\<rparr>) st;
            (s, st) = map_span c (MM_MIN_BLOCK c) MM_SPAN_CHUNK st
        in if s = 0 then (False, upd_arena (\<lambda>a. a\<lparr>growable := False\<rparr>) st) else (True, st))"

end
