(* ===== verification/Mars_Check.thy ===== *)
theory Mars_Check
  imports Mars_Freelist
begin

unbundle bit_operations_syntax

text \<open>
  Pointer recovery, the read-only checks and the mode switch, from \<^verbatim>\<open>src/mm_integrity.c\<close>, as the
  unlocked forms that run inside an arena.
\<close>

section \<open>Pointer recovery and verification\<close>

definition mm_block_of :: "mm_config \<Rightarrow> nat \<Rightarrow> mm_state \<Rightarrow> nat \<times> mm_state" where
  "mm_block_of c p st =
     (if \<not> mm_arena_live st then (0, mm_fail MM_ERR_NOT_INITIALIZED st)
      else let s = (if p = 0 then 0 else mm_span_of st p); d = descs st s
           in if s = 0 \<or> p < lo d + MM_HDR_SIZE c then (0, mm_fail MM_ERR_INVALID_PTR st)
              else if (p - (lo d + MM_HDR_SIZE c)) mod MM_ALIGNMENT \<noteq> 0
              then (0, mm_fail MM_ERR_INVALID_PTR st)
              else let b = p - MM_HDR_SIZE c
                   in if \<not> mm_is_block c st b then (0, mm_fail MM_ERR_INVALID_PTR st) else (b, st))"

definition payload_bytes :: "mm_config \<Rightarrow> bytes \<Rightarrow> nat \<Rightarrow> u8 list" where
  "payload_bytes c m b = mem_read m (mm_payload_of c b) (mm_requested_size c m b)"

definition verify_unlocked :: "mm_config \<Rightarrow> nat \<Rightarrow> mm_state \<Rightarrow> mm_status \<times> mm_state" where
  "verify_unlocked c p st =
     (let (b, st) = mm_block_of c p st; m = mem st;
          failed = \<lambda>e. (e, mm_fail e st)
      in if b = 0 then (mm_last_error st, st)
         else if \<not> mm_header_ok c st b then failed MM_ERR_CORRUPT_HEADER
         else if mm_is_quarantined m b then failed MM_ERR_QUARANTINED
         else if \<not> mm_canary_ok c st b then failed MM_ERR_CORRUPT_CANARY
         else if MM_HAS_CRC c \<and> mm_is_used m b \<and> payload_crc m b \<noteq> 0 \<and>
                 mm_payload_crc (payload_bytes c m b) \<noteq> payload_crc m b
         then failed MM_ERR_CORRUPT_PAYLOAD
         else if mode (g_arena st) = MM_MODE_LIBC then failed MM_ERR_DEGRADED
         else (MM_OK, st))"

section \<open>The consistency check\<close>

record check_acc =
  covered :: nat
  lost :: nat
  per_bin :: "nat \<Rightarrow> nat"
  have_prev :: bool
  prev_free :: bool

definition check_block :: "mm_config \<Rightarrow> mm_state \<Rightarrow> nat \<Rightarrow> check_acc \<Rightarrow> mm_status + check_acc" where
  "check_block c st p k =
     (let m = mem st; n = mm_block_size m p;
          expect_prev_used = (if have_prev k then \<not> prev_free k else True)
      in if \<not> mm_is_block c st p then Inl MM_ERR_CORRUPT_HEADER
         else if \<not> mm_header_ok c st p then Inl MM_ERR_CORRUPT_HEADER
         else if mm_prev_in_use m p \<noteq> expect_prev_used then Inl MM_ERR_CORRUPT_LINKS
         else if \<not> mm_canary_ok c st p then Inl MM_ERR_CORRUPT_CANARY
         else if mm_is_used m p
         then Inr (k\<lparr>lost := (if mm_is_quarantined m p then lost k + n else lost k),
                     prev_free := False, covered := covered k + n, have_prev := True\<rparr>)
         else if load64 m (p + n - 8) \<noteq> of_nat n then Inl MM_ERR_CORRUPT_LINKS
         else if prev_free k then Inl MM_ERR_CORRUPT_LINKS
         else Inr (k\<lparr>per_bin := (per_bin k)(mm_bin_of c n := per_bin k (mm_bin_of c n) + 1),
                     prev_free := True, covered := covered k + n, have_prev := True\<rparr>))"

fun check_walk :: "mm_config \<Rightarrow> mm_state \<Rightarrow> mm_span \<Rightarrow> nat \<Rightarrow> nat \<Rightarrow> check_acc \<Rightarrow> mm_status + check_acc" where
  "check_walk c st d 0 p k = (if p < hi d then Inl MM_ERR_CORRUPT_LINKS else Inr k)"
| "check_walk c st d (Suc budget) p k =
     (if \<not> p < hi d then Inr k
      else case check_block c st p k of
             Inl e \<Rightarrow> Inl e
           | Inr k \<Rightarrow> check_walk c st d budget (p + mm_block_size (mem st) p) k)"

definition check_span :: "mm_config \<Rightarrow> mm_state \<Rightarrow> mm_span \<Rightarrow> check_acc \<Rightarrow> mm_status + check_acc" where
  "check_span c st d k =
     (case check_walk c st d (mm_span_max_blocks c d) (lo d)
             (k\<lparr>covered := 0, have_prev := False, prev_free := False\<rparr>) of
        Inl e \<Rightarrow> Inl e
      | Inr k \<Rightarrow> if covered k \<noteq> sub64 (hi d) (lo d) then Inl MM_ERR_CORRUPT_LINKS else Inr k)"

fun check_spans :: "mm_config \<Rightarrow> mm_state \<Rightarrow> nat list \<Rightarrow> check_acc \<Rightarrow> mm_status + check_acc" where
  "check_spans c st [] k = Inr k"
| "check_spans c st (s # ss) k =
     (case check_span c st (descs st s) k of Inl e \<Rightarrow> Inl e | Inr k \<Rightarrow> check_spans c st ss k)"

definition check_heap_unlocked :: "mm_config \<Rightarrow> mm_state \<Rightarrow> mm_status \<times> mm_state" where
  "check_heap_unlocked c st =
     (if \<not> mm_arena_live st then (MM_ERR_NOT_INITIALIZED, mm_fail MM_ERR_NOT_INITIALIZED st)
      else case check_spans c st (spans (g_arena st))
                  \<lparr>covered = 0, lost = 0, per_bin = (\<lambda>_. 0), have_prev = False, prev_free = False\<rparr> of
             Inl e \<Rightarrow> (e, mm_fail e st)
           | Inr k \<Rightarrow>
               if lost k \<noteq> lost_bytes (g_arena st)
               then (MM_ERR_CORRUPT_LINKS, mm_fail MM_ERR_CORRUPT_LINKS st)
               else mm_bins_check c (per_bin k) st)"

section \<open>Modes\<close>

fun forget_span_crcs :: "mm_config \<Rightarrow> mm_span \<Rightarrow> nat \<Rightarrow> nat \<Rightarrow> mm_state \<Rightarrow> mm_state" where
  "forget_span_crcs c d 0 p st = st"
| "forget_span_crcs c d (Suc budget) p st =
     (if \<not> p < hi d then st
      else if \<not> mm_header_ok c st p then st
      else let st = (if payload_crc (mem st) p \<noteq> 0
                     then mm_seal c p (upd_mem (\<lambda>m. set_payload_crc m p 0) st) else st)
           in forget_span_crcs c d budget (p + mm_block_size (mem st) p) st)"

definition forget_payload_crcs :: "mm_config \<Rightarrow> mm_state \<Rightarrow> mm_state" where
  "forget_payload_crcs c st =
     foldl (\<lambda>st s. forget_span_crcs c (descs st s) (mm_span_max_blocks c (descs st s)) (lo (descs st s)) st)
       st (spans (g_arena st))"

definition set_arena_mode :: "mm_config \<Rightarrow> mm_mode \<Rightarrow> mm_state \<Rightarrow> mm_state" where
  "set_arena_mode c md st =
     (if mode (g_arena st) \<noteq> md
      then let st = upd_arena (\<lambda>a. a\<lparr>mode := md\<rparr>) st
           in if MM_HAS_CRC c \<and> md = MM_MODE_LIBC \<and> mm_arena_live st then forget_payload_crcs c st else st
      else st)"

text \<open>Every arena in turn, with the calling thread pointed at it and put back afterwards.\<close>

definition mm_set_mode :: "mm_config \<Rightarrow> mm_mode \<Rightarrow> mm_state \<Rightarrow> mm_state" where
  "mm_set_mode c md st =
     (let self = mm_self st; st = st\<lparr>g_mode_default := md\<rparr>
      in (foldl (\<lambda>st a. set_arena_mode c md (st\<lparr>mm_self := a\<rparr>)) st (mm_arena_list c st))\<lparr>mm_self := self\<rparr>)"

fun check_arenas :: "mm_config \<Rightarrow> nat list \<Rightarrow> bool \<Rightarrow> mm_state \<Rightarrow> mm_status \<times> mm_state" where
  "check_arenas c [] any st =
     (if any then (MM_OK, st) else (MM_ERR_NOT_INITIALIZED, mm_fail MM_ERR_NOT_INITIALIZED st))"
| "check_arenas c (a # as) any st =
     (let self = mm_self st; st = st\<lparr>mm_self := a\<rparr>;
          live = mm_arena_live st;
          (e, st) = (if live then check_heap_unlocked c st else (MM_OK, st));
          st = st\<lparr>mm_self := self\<rparr>
      in if e \<noteq> MM_OK then (e, st) else check_arenas c as (any \<or> live) st)"

definition mm_check_heap :: "mm_config \<Rightarrow> mm_state \<Rightarrow> mm_status \<times> mm_state" where
  "mm_check_heap c st = check_arenas c (mm_arena_list c st) False (mm_clear_error st)"

end
