(* ===== verification/Mars_Core.thy ===== *)
theory Mars_Core
  imports Mars_Arena Mars_Check
begin

unbundle bit_operations_syntax

text \<open>
  Splitting, coalescing, allocation, release and resizing, from \<^verbatim>\<open>src/mm_core.c\<close>, as the unlocked
  forms every public entry point wraps. A block or a payload pointer that is returned is paired
  with the state; 0 is \<^verbatim>\<open>NULL\<close>.
\<close>

section \<open>Splitting and coalescing\<close>

text \<open>The two halves of \<^verbatim>\<open>absorb_neighbours\<close>. Each returns \<^const>\<open>None\<close> where the source returns
  \<^verbatim>\<open>NULL\<close> because the block itself stopped standing up. The forward half returns the extent the
  block now has.\<close>

definition absorb_next :: "mm_config \<Rightarrow> nat \<Rightarrow> mm_state \<Rightarrow> nat option \<times> mm_state" where
  "absorb_next c b st =
     (let own = mm_block_size (mem st) b;
          d = descs st (mm_span_of st b);
          n = mm_block_end (mem st) b
      in if n < hi d \<and> mm_header_ok c st n \<and> \<not> mm_is_used (mem st) n
         then let theirs = mm_block_size (mem st) n;
                  st = mm_bin_remove c n st
              in if \<not> mm_unchanged c st b own True
                 then (None, mm_fail MM_ERR_CORRUPT_HEADER (mm_quarantine c b st))
                 else if \<not> mm_unchanged c st n theirs False
                 then (Some own, mm_fail MM_ERR_CORRUPT_HEADER (mm_quarantine c n st))
                 else let st = upd_mem (\<lambda>m. mm_set_block_size m b (own + theirs)) st;
                          st = mm_scrub_forget b (mm_block_end (mem st) b) st
                      in (Some (own + theirs), mm_seal c b st)
         else (Some own, st))"

definition absorb_prev :: "mm_config \<Rightarrow> nat \<Rightarrow> nat \<Rightarrow> mm_state \<Rightarrow> nat \<times> mm_state" where
  "absorb_prev c b own st =
     (let prev = mm_prev_free_block c st b
      in if prev = 0 then (b, st)
         else let before = mm_block_size (mem st) prev;
                  st = mm_bin_remove c prev st
              in if \<not> mm_unchanged c st b own True
                 then (0, mm_fail MM_ERR_CORRUPT_HEADER (mm_quarantine c b st))
                 else if \<not> mm_unchanged c st prev before False
                 then (b, mm_fail MM_ERR_CORRUPT_HEADER (mm_quarantine c prev st))
                 else let st = upd_mem (\<lambda>m. mm_set_word m prev (before + own) (MM_TRAIL c) True False) st;
                          st = mm_scrub_forget prev (mm_block_end (mem st) prev) st
                      in (prev, mm_seal c prev st))"

definition absorb_neighbours :: "mm_config \<Rightarrow> nat \<Rightarrow> mm_state \<Rightarrow> nat \<times> mm_state" where
  "absorb_neighbours c b st =
     (if mm_span_of st b = 0 then (0, st)
      else case absorb_next c b st of
             (None, st) \<Rightarrow> (0, st)
           | (Some own, st) \<Rightarrow> absorb_prev c b own st)"

definition reclaim :: "mm_config \<Rightarrow> nat \<Rightarrow> mm_state \<Rightarrow> mm_state" where
  "reclaim c b st =
     (let s = mm_span_of st b; d = descs st s
      in if s = 0 \<or> kind d = MM_SPAN_USER then st
         else if mm_is_used (mem st) b then st
         else if kind d = MM_SPAN_LARGE \<and> b = lo d \<and> mm_block_end (mem st) b = hi d
         then mm_arena_release_span s (mm_bin_remove c b st)
         else if mm_block_size (mem st) b \<ge> MM_DONTNEED_MIN \<and> ops (g_arena st) \<ge> trim_after d
         then let st = mm_arena_release_pages (mm_payload_of c b + 2 * 8) (mm_block_end (mem st) b - 8) st
              in upd_desc s (\<lambda>d. d\<lparr>trim_after := ops (g_arena st) + MM_TRIM_INTERVAL\<rparr>) st
         else st)"

definition release_block :: "mm_config \<Rightarrow> nat \<Rightarrow> mm_state \<Rightarrow> mm_state" where
  "release_block c b st =
     (let st = upd_mem (\<lambda>m. mm_set_word m b (mm_block_size m b) 0 False False) st;
          st = (if MM_HAS_CRC c then upd_mem (\<lambda>m. set_payload_crc m b 0) st else st);
          (ok, st) = mm_publish c b st
      in if \<not> ok then st else mm_bin_insert c b st)"

definition split_block :: "mm_config \<Rightarrow> nat \<Rightarrow> nat \<Rightarrow> mm_state \<Rightarrow> mm_state" where
  "split_block c b need st =
     (let leftover = sub64 (mm_block_size (mem st) b) need
      in if leftover < MM_MIN_BLOCK c then st
         else let st = upd_mem (\<lambda>m. mm_set_block_size m b need) st;
                  st = mm_seal c b st;
                  tail = b + need;
                  st = upd_mem (\<lambda>m. set_word_at m tail 0) st;
                  st = (if MM_HAS_CRC c then upd_mem (\<lambda>m. set_payload_crc m tail 0) st else st);
                  st = upd_mem (\<lambda>m. mm_set_word m tail leftover (MM_TRAIL c) True False) st;
                  st = upd_mem (\<lambda>m. mm_set_prev_in_use m tail True) st;
                  st = mm_seal c tail st;
                  (run, st) = absorb_neighbours c tail st
              in if run \<noteq> 0 then release_block c run st else st)"

definition finish_allocation :: "mm_config \<Rightarrow> nat \<Rightarrow> nat \<Rightarrow> mm_state \<Rightarrow> bool \<times> mm_state" where
  "finish_allocation c b sz st =
     (let total = mm_block_size (mem st) b;
          give = (if mode (g_arena st) = MM_MODE_LIBC
                  then sub64 (sub64 total (MM_HDR_SIZE c)) (MM_TRAIL c) else sz);
          st = upd_mem (\<lambda>m. mm_set_word m b total (sub64 (sub64 total (MM_HDR_SIZE c)) give) True False) st;
          st = mm_write_canary c b st
      in mm_publish c b st)"

section \<open>Allocation\<close>

definition grow_for :: "mm_config \<Rightarrow> nat \<Rightarrow> mm_state \<Rightarrow> nat \<times> mm_state" where
  "grow_for c need st =
     (if \<not> growable (g_arena st) then (0, st)
      else let (s, st) = (if need > MM_LARGE_THRESHOLD then mm_arena_map_large c need st
                          else mm_arena_grow c need st)
           in if s = 0 then (0, st)
              else let b = lo (descs st s)
                   in if \<not> mm_header_ok c st b \<or> mm_is_used (mem st) b \<or> mm_block_size (mem st) b < need
                      then (0, st) else (b, st))"

text \<open>The payload, what calloc may assume about its prefix, and the state.\<close>

definition find_block :: "mm_config \<Rightarrow> nat \<Rightarrow> mm_state \<Rightarrow> nat \<times> mm_state" where
  "find_block c need st =
     (let dedicated = (growable (g_arena st) \<and> need > MM_LARGE_THRESHOLD);
          (b, st) = (if dedicated then (0, st) else mm_bin_find c need st);
          (b, st) = (if b = 0 then grow_for c need st else (b, st))
      in if b = 0 \<and> dedicated then mm_bin_find c need st else (b, st))"

definition malloc_unlocked :: "mm_config \<Rightarrow> nat \<Rightarrow> mm_state \<Rightarrow> nat \<times> nat \<times> mm_state" where
  "malloc_unlocked c sz st =
     (let st = mm_clear_error st
      in if \<not> mm_arena_live st then (0, SIZE_MAX, mm_fail MM_ERR_NOT_INITIALIZED st)
         else if sz = 0 then (0, SIZE_MAX, mm_fail MM_ERR_NOMEM st)
         else let need = mm_size_for c sz
              in if need = 0 then (0, SIZE_MAX, mm_fail MM_ERR_NOMEM st)
                 else let (b, st) = find_block c need st
                      in if b = 0
                         then (0, SIZE_MAX,
                               mm_scrub_tick c (mm_fail MM_ERR_NOMEM (MM_STAT_NOTE c MM_STAT_ALLOC_FAILED 0 st)))
                         else let fnd = mm_block_size (mem st) b;
                                  st = mm_bin_remove c b st
                              in if \<not> mm_unchanged c st b fnd False
                                 then (0, SIZE_MAX,
                                       mm_scrub_tick c (mm_fail MM_ERR_CORRUPT_LINKS (mm_quarantine c b st)))
                                 else
                                   let (dirty, st) = (if fresh_spans (g_arena st) \<noteq> 0
                                                      then mm_span_take_fresh b st else (SIZE_MAX, st));
                                       st = upd_mem (\<lambda>m. mm_set_word m b fnd 0 True False) st;
                                       st = mm_seal c b st;
                                       st = split_block c b need st;
                                       st = (if MM_HAS_CRC c then upd_mem (\<lambda>m. set_payload_crc m b 0) st else st);
                                       (ok, st) = finish_allocation c b sz st
                                   in if \<not> ok then (0, dirty, mm_scrub_tick c st)
                                      else let st = MM_STAT_NOTE c MM_STAT_ALLOC sz st;
                                               st = MM_STAT_ADD c b st
                                           in (mm_payload_of c b, dirty, mm_scrub_tick c st))"

definition size_of_live :: "mm_config \<Rightarrow> nat \<Rightarrow> mm_state \<Rightarrow> nat \<times> mm_state" where
  "size_of_live c p st =
     (let (b, st) = mm_block_of c p st
      in if b = 0 \<or> \<not> mm_header_ok c st b then (0, st)
         else if \<not> mm_is_used (mem st) b \<or> mm_is_quarantined (mem st) b then (0, st)
         else (mm_requested_size c (mem st) b, st))"

section \<open>Release\<close>

definition live_block :: "mm_config \<Rightarrow> nat \<Rightarrow> mm_state \<Rightarrow> nat \<times> mm_state" where
  "live_block c p st =
     (let (b, st) = mm_block_of c p st
      in if b = 0 then (0, st)
         else let (ok, st) = (if \<not> mm_header_ok c st b then mm_rescue c b st else (True, st))
              in if \<not> ok then (0, st)
                 else if mm_is_quarantined (mem st) b then (0, mm_fail MM_ERR_QUARANTINED st)
                 else (b, st))"

definition free_unlocked :: "mm_config \<Rightarrow> nat \<Rightarrow> mm_state \<Rightarrow> mm_state" where
  "free_unlocked c p st =
     (let (b, st) = live_block c p (mm_clear_error st)
      in if b = 0 then st
         else if \<not> mm_is_used (mem st) b then mm_fail MM_ERR_DOUBLE_FREE st
         else if \<not> mm_canary_ok c st b then mm_quarantine c b st
         else let st = MM_STAT_NOTE c MM_STAT_FREE (mm_requested_size c (mem st) b) st;
                  st = MM_STAT_SUB c b st;
                  st = (if cfg_zero_on_free c
                        then upd_mem (\<lambda>m. mem_fill m (mm_payload_of c b)
                                            (mm_block_size m b - MM_HDR_SIZE c) 0) st else st);
                  (run, st) = absorb_neighbours c b st;
                  st = (if run \<noteq> 0 then reclaim c run (release_block c run st) else st)
              in mm_scrub_tick c st)"

section \<open>Aligned allocation\<close>

text \<open>\<open>want\<close> advances by \<open>align\<close> until the front piece can be a block; an alignment of at
  least 32 needs at most two steps.\<close>

function memalign_want :: "mm_config \<Rightarrow> nat \<Rightarrow> nat \<Rightarrow> nat \<Rightarrow> nat" where
  "memalign_want c align raw want =
     (if 0 < align \<and> want - raw < MM_MIN_BLOCK c then memalign_want c align raw (want + align) else want)"
  by pat_completeness auto
termination by (relation "measure (\<lambda>(c, align, raw, want). MM_MIN_BLOCK c + raw - want)") auto

declare memalign_want.simps [simp del]

definition memalign_unlocked :: "mm_config \<Rightarrow> nat \<Rightarrow> nat \<Rightarrow> mm_state \<Rightarrow> nat \<times> mm_state" where
  "memalign_unlocked c align sz st =
     (if align \<le> MM_ALIGNMENT then (let (p, _, st) = malloc_unlocked c sz st in (p, st))
      else
        let pad = (2 * align + MM_MIN_BLOCK c) mod 2 ^ 64
        in if sz > SIZE_MAX - pad then (0, mm_fail MM_ERR_NOMEM (mm_clear_error st))
           else let (raw, _, st) = malloc_unlocked c (sz + pad) st
                in if raw = 0 then (0, st)
                   else
                     let want = memalign_want c align raw (mm_round_up raw align);
                         (b, st) = mm_block_of c raw st
                     in if b = 0 then (raw, st)
                        else
                          let total = mm_block_size (mem st) b;
                              front = want - raw;
                              need = mm_size_for c sz
                          in if need = 0 \<or> front + need > total
                             then (0, mm_fail MM_ERR_NOMEM (free_unlocked c raw st))
                             else
                               let st = MM_STAT_SUB c b st;
                                   st = upd_mem (\<lambda>m. mm_set_block_size m b front) st;
                                   st = mm_seal c b st;
                                   tail = want - MM_HDR_SIZE c;
                                   st = upd_mem (\<lambda>m. set_word_at m tail 0) st;
                                   st = (if MM_HAS_CRC c then upd_mem (\<lambda>m. set_payload_crc m tail 0) st else st);
                                   st = upd_mem (\<lambda>m. mm_set_word m tail (total - front) (MM_TRAIL c) True False) st;
                                   st = upd_mem (\<lambda>m. mm_set_prev_in_use m tail True) st;
                                   st = mm_seal c tail st;
                                   st = split_block c tail need st;
                                   (ok, st) = finish_allocation c tail sz st
                               in if \<not> ok then (0, mm_scrub_tick c st)
                                  else let st = MM_STAT_ADD c tail st;
                                           (run, st) = absorb_neighbours c b st;
                                           st = (if run \<noteq> 0 then reclaim c run (release_block c run st) else st)
                                       in (mm_payload_of c tail, mm_scrub_tick c st))"

section \<open>Resize\<close>

definition carry_payload_crc :: "mm_config \<Rightarrow> nat \<Rightarrow> nat \<Rightarrow> u32 \<Rightarrow> nat \<Rightarrow> mm_state \<Rightarrow> mm_state" where
  "carry_payload_crc c b old_size old_sum new_size st =
     (if MM_HAS_CRC c
      then if mm_payload_crc_live c st \<and> old_sum \<noteq> 0 \<and> new_size \<le> old_size
           then upd_mem (\<lambda>m. set_payload_crc m b
                  (mm_payload_crc (mem_read m (mm_payload_of c b) new_size))) st
           else upd_mem (\<lambda>m. set_payload_crc m b 0) st
      else st)"

definition payload_crc_of :: "mm_config \<Rightarrow> bytes \<Rightarrow> nat \<Rightarrow> u32" where
  "payload_crc_of c m b = (if MM_HAS_CRC c then payload_crc m b else 0)"

text \<open>The common end of the two in-place paths: trim, carry the checksum, finish.\<close>

definition realloc_in_place :: "mm_config \<Rightarrow> nat \<Rightarrow> nat \<Rightarrow> nat \<Rightarrow> u32 \<Rightarrow> nat \<Rightarrow> mm_state \<Rightarrow> nat \<times> mm_state" where
  "realloc_in_place c b need old_size old_sum new_size st =
     (let st = split_block c b need st;
          st = carry_payload_crc c b old_size old_sum new_size st;
          (ok, st) = finish_allocation c b new_size st
      in if \<not> ok then (0, mm_scrub_tick c st)
         else (mm_payload_of c b, mm_scrub_tick c (MM_STAT_ADD c b st)))"

definition realloc_move :: "mm_config \<Rightarrow> nat \<Rightarrow> nat \<Rightarrow> nat \<Rightarrow> u32 \<Rightarrow> nat \<Rightarrow> mm_state \<Rightarrow> nat \<times> mm_state" where
  "realloc_move c p payload old_size old_sum new_size st =
     (let (fsh, _, st) = malloc_unlocked c new_size st
      in if fsh = 0 then (0, st)
         else let carry = (if old_size < new_size then old_size else new_size);
                  st = upd_mem (\<lambda>m. mem_write m fsh (mem_read m payload carry)) st;
                  (fb, st) = mm_block_of c fsh st;
                  st = (if fb \<noteq> 0 then mm_seal c fb (carry_payload_crc c fb carry old_sum new_size st) else st)
              in (fsh, free_unlocked c p st))"

definition realloc_block :: "mm_config \<Rightarrow> nat \<Rightarrow> nat \<Rightarrow> nat \<Rightarrow> nat \<Rightarrow> mm_state \<Rightarrow> nat \<times> mm_state" where
  "realloc_block c p b need new_size st =
     (let old_size = mm_requested_size c (mem st) b;
          old_sum = payload_crc_of c (mem st) b
      in if mm_block_size (mem st) b \<ge> need
         then realloc_in_place c b need old_size old_sum new_size (MM_STAT_SUB c b st)
         else
           let s = mm_span_of st b;
               n = mm_block_end (mem st) b;
               own = mm_block_size (mem st) b;
               mergeable = (mm_header_ok c st n \<and> \<not> mm_is_used (mem st) n);
               theirs = (if mergeable then mm_block_size (mem st) n else 0)
           in if s \<noteq> 0 \<and> n < hi (descs st s) \<and> mergeable \<and> own + theirs \<ge> need
              then let st = mm_bin_remove c n (MM_STAT_SUB c b st)
                   in if \<not> mm_unchanged c st b own True
                      then (0, mm_fail MM_ERR_CORRUPT_HEADER (mm_quarantine c b st))
                      else if \<not> mm_unchanged c st n theirs False
                      then (0, mm_fail MM_ERR_CORRUPT_HEADER (mm_quarantine c n (MM_STAT_ADD c b st)))
                      else let st = upd_mem (\<lambda>m. mm_set_block_size m b (own + theirs)) st;
                               st = mm_scrub_forget b (mm_block_end (mem st) b) st;
                               st = mm_seal c b st
                           in realloc_in_place c b need old_size old_sum new_size st
              else realloc_move c p (mm_payload_of c b) old_size old_sum new_size st)"

definition realloc_unlocked :: "mm_config \<Rightarrow> nat \<Rightarrow> nat \<Rightarrow> mm_state \<Rightarrow> nat \<times> mm_state" where
  "realloc_unlocked c p new_size st =
     (let st = mm_clear_error st
      in if p = 0 then (let (q, _, st) = malloc_unlocked c new_size st in (q, st))
         else if new_size = 0 then (0, free_unlocked c p st)
         else let (b, st) = live_block c p st
              in if b = 0 then (0, st)
                 else if \<not> mm_is_used (mem st) b then (0, mm_fail MM_ERR_DOUBLE_FREE st)
                 else if \<not> mm_canary_ok c st b then (0, mm_quarantine c b st)
                 else let need = mm_size_for c new_size
                      in if need = 0 then (0, mm_fail MM_ERR_NOMEM st)
                         else realloc_block c p b need new_size (MM_STAT_NOTE c MM_STAT_REALLOC new_size st))"

section \<open>Initialisation\<close>

text \<open>\<^verbatim>\<open>mm_init\<close> up to and after \<^verbatim>\<open>mm_enter\<close>, which finds the main arena claimed at the current epoch
  and its queue empty right after the reset, and so only takes the lock.\<close>

definition mm_init :: "mm_config \<Rightarrow> nat \<Rightarrow> nat \<Rightarrow> mm_state \<Rightarrow> bool \<times> mm_state" where
  "mm_init c heap heap_size st =
     (let st = mm_clear_error st
      in if heap = 0 \<or> heap_size < mm_min_arena c then (False, mm_fail MM_ERR_BAD_ARENA st)
         else if heap mod MM_ALIGNMENT \<noteq> 0 then (False, mm_fail MM_ERR_BAD_ARENA st)
         else let st = mm_arenas_reset c st;
                  st = upd_arena (\<lambda>a. a\<lparr>secret := mm_draw_secret st, mode := MM_MODE_MANAGED\<rparr>) st;
                  st = upd_mem (\<lambda>m. mem_fill m heap heap_size 0) st;
                  (s, st) = mm_arena_install_user c heap heap_size st
              in if s = 0 then (False, mm_fail MM_ERR_BAD_ARENA st) else (True, st))"

end
