(* ===== verification/Mars_Api.thy ===== *)
theory Mars_Api
  imports Mars_Core
begin

unbundle bit_operations_syntax

text \<open>
  Validated access (\<^verbatim>\<open>src/mm_access.c\<close>), the arenas threads take for themselves and entering and
  leaving them (\<^verbatim>\<open>src/mm_lock.c\<close>, \<^verbatim>\<open>src/mm_internal.h\<close>), and the public entry points, each of which
  is an unlocked form between entering and leaving.

  A mutex is held for the whole of an operation, so an operation is one transition of the state;
  locking itself leaves no trace. \<open>mm_self\<close> is the calling thread's.
\<close>

section \<open>Validated access\<close>

definition checked_block :: "mm_config \<Rightarrow> nat \<Rightarrow> nat \<Rightarrow> nat \<Rightarrow> mm_state \<Rightarrow> nat \<times> mm_state" where
  "checked_block c p offset len st =
     (let (b, st) = mm_block_of c p st
      in if b = 0 then (0, st)
         else let (ok, st) = (if \<not> mm_header_ok c st b then mm_rescue c b st else (True, st))
              in if \<not> ok then (0, st)
                 else if mm_is_quarantined (mem st) b then (0, mm_fail MM_ERR_QUARANTINED st)
                 else if \<not> mm_is_used (mem st) b then (0, mm_fail MM_ERR_INVALID_PTR st)
                 else if \<not> mm_canary_ok c st b then (0, mm_quarantine c b st)
                 else let requested = mm_requested_size c (mem st) b
                      in if offset > requested then (0, mm_fail MM_ERR_OOB st)
                         else if len > requested - offset then (0, mm_fail MM_ERR_OOB st)
                         else (b, st))"

definition read_unlocked :: "mm_config \<Rightarrow> nat \<Rightarrow> nat \<Rightarrow> nat \<Rightarrow> nat \<Rightarrow> mm_state \<Rightarrow> int \<times> mm_state" where
  "read_unlocked c p offset buf len st =
     (let (b, st) = checked_block c p offset len st
      in if b = 0 then (-1, st)
         else if MM_HAS_CRC c \<and> payload_crc (mem st) b \<noteq> 0 \<and>
                 mm_payload_crc (payload_bytes c (mem st) b) \<noteq> payload_crc (mem st) b
         then (-1, mm_fail MM_ERR_CORRUPT_PAYLOAD (mm_quarantine c b st))
         else (int len,
               if len > 0
               then upd_mem (\<lambda>m. mem_write m buf (mem_read m (mm_payload_of c b + offset) len)) st
               else st))"

definition write_unlocked :: "mm_config \<Rightarrow> nat \<Rightarrow> nat \<Rightarrow> nat \<Rightarrow> nat \<Rightarrow> mm_state \<Rightarrow> int \<times> mm_state" where
  "write_unlocked c p offset src len st =
     (let (b, st) = checked_block c p offset len st
      in if b = 0 then (-1, st)
         else let st = (if len > 0
                        then upd_mem (\<lambda>m. mem_write m (mm_payload_of c b + offset) (mem_read m src len)) st
                        else st)
              in if \<not> mm_canary_ok c st b then (-1, mm_quarantine c b st)
                 else (int len,
                       if MM_HAS_CRC c \<and> mm_payload_crc_live c st
                       then mm_seal c b (upd_mem (\<lambda>m. set_payload_crc m b
                              (mm_payload_crc (payload_bytes c m b))) st)
                       else st))"

section \<open>The remote-free queue, drained\<close>

text \<open>The loop pops until the queue answers \<^verbatim>\<open>NULL\<close>. Only the owner pops, so with nobody pushing it
  ends after at most one lap of the ring; the fuel is one lap and the pop that finds it empty.\<close>

fun drain_loop :: "mm_config \<Rightarrow> nat \<Rightarrow> mm_state \<Rightarrow> mm_state" where
  "drain_loop c 0 st = st"
| "drain_loop c (Suc k) st =
     (let (p, a) = mm_remote_pop (g_arena st); st = upd_arena (\<lambda>_. a) st
      in if p = 0 then st else drain_loop c k (free_unlocked c p st))"

definition mm_remote_drain :: "mm_config \<Rightarrow> mm_state \<Rightarrow> mm_state" where
  "mm_remote_drain c st =
     (if cfg_lock c = MM_LOCK_ARENA
      then let saved = mm_last_error st in mm_fail saved (drain_loop c (MM_REMOTE_SLOTS + 1) st)
      else st)"

section \<open>Arenas and threads\<close>

definition on_thread_exit :: "nat \<Rightarrow> mm_state \<Rightarrow> mm_state" where
  "on_thread_exit a st =
     (if a = 0 \<or> a = g_main_arena then st
      else if claimed (arenas st a)
      then st\<lparr>arenas := (arenas st)(a := (arenas st a)\<lparr>claimed := False\<rparr>), g_orphans := a # g_orphans st\<rparr>
      else st)"

definition sizeof_mm_arena :: nat where "sizeof_mm_arena = 17856"

definition arena_new :: "mm_state \<Rightarrow> nat \<times> mm_state" where
  "arena_new st =
     (let (a, st) = mm_sys_alloc sizeof_mm_arena st
      in if a = 0 then (0, st)
         else (a, st\<lparr>arenas := (arenas st)(a := mm_remote_forget arena_zero)\<rparr>))"

text \<open>The arena given to a thread: the main one if nobody has it, the shared main one where it
  cannot grow (\<open>True\<close> in the first component: nothing further is done to it), an orphan, or a new
  one.\<close>

definition choose_arena :: "mm_state \<Rightarrow> bool \<times> nat \<times> mm_state" where
  "choose_arena st =
     (if \<not> claimed (arenas st g_main_arena)
      then (False, g_main_arena,
            st\<lparr>arenas := (arenas st)(g_main_arena := mm_remote_forget (arenas st g_main_arena))\<rparr>)
      else if \<not> growable (arenas st g_main_arena) then (True, g_main_arena, st)
      else case g_orphans st of
             a # rest \<Rightarrow> (False, a, st\<lparr>g_orphans := rest\<rparr>)
           | [] \<Rightarrow>
               let (a, st) = arena_new st
               in if a = 0 then (True, g_main_arena, st)
                  else (False, a, st\<lparr>g_arenas := g_arenas st @ [a], g_arena_count := g_arena_count st + 1\<rparr>))"

definition mm_arena_adopt :: "mm_config \<Rightarrow> mm_state \<Rightarrow> mm_state" where
  "mm_arena_adopt c st =
     (if cfg_lock c \<noteq> MM_LOCK_ARENA then st
      else
        let (shared, a, st) = choose_arena st
        in if shared then st\<lparr>mm_self := a\<rparr>
           else
             let st = st\<lparr>arenas := (arenas st)(a := (arenas st a)\<lparr>claimed := True, epoch := g_arena_epoch st\<rparr>)\<rparr>;
                 st = st\<lparr>mm_self := a\<rparr>
             in if a \<noteq> g_main_arena \<and> spans (g_arena st) = []
                then let st = upd_arena (\<lambda>r. r\<lparr>secret := mm_draw_secret st, mode := mm_mode_default st,
                                               growable := True\<rparr>) st;
                         (s, st) = mm_arena_grow c (MM_MIN_BLOCK c) st
                     in if s = 0 then upd_arena (\<lambda>r. r\<lparr>growable := False\<rparr>) st else st
                else st)"

definition mm_enter :: "mm_config \<Rightarrow> mm_state \<Rightarrow> mm_state" where
  "mm_enter c st =
     (if cfg_lock c = MM_LOCK_ARENA
      then let st = (if mm_self st = 0 \<or> epoch (g_arena st) \<noteq> g_arena_epoch st
                     then mm_arena_adopt c st else st)
           in if remote_head (g_arena st) \<noteq> remote_tail (g_arena st) then mm_remote_drain c st else st
      else st)"

record mm_guard =
  guard_saved :: nat
  guard_swapped :: bool

definition mm_enter_for :: "mm_config \<Rightarrow> nat \<Rightarrow> mm_state \<Rightarrow> mm_guard \<times> mm_state" where
  "mm_enter_for c p st =
     (let own = mm_owner_of c st p
      in if cfg_lock c \<noteq> MM_LOCK_ARENA \<or> own = 0 \<or> own = mm_self st
         then (\<lparr>guard_saved = 0, guard_swapped = False\<rparr>, mm_enter c st)
         else (\<lparr>guard_saved = mm_self st, guard_swapped = True\<rparr>, st\<lparr>mm_self := own\<rparr>))"

definition mm_leave_for :: "mm_guard \<Rightarrow> mm_state \<Rightarrow> mm_state" where
  "mm_leave_for g st = (if guard_swapped g then st\<lparr>mm_self := guard_saved g\<rparr> else st)"

definition mm_arena_count :: "mm_config \<Rightarrow> mm_state \<Rightarrow> nat" where
  "mm_arena_count c st = (if cfg_lock c = MM_LOCK_ARENA then g_arena_count st else 1)"

definition mm_lock_strategy :: "mm_config \<Rightarrow> string" where
  "mm_lock_strategy c = (case cfg_lock c of
     MM_LOCK_NONE \<Rightarrow> ''none'' | MM_LOCK_GLOBAL \<Rightarrow> ''global'' | MM_LOCK_ARENA \<Rightarrow> ''arena'')"

section \<open>The public entry points\<close>

definition mm_malloc_fresh :: "mm_config \<Rightarrow> nat \<Rightarrow> mm_state \<Rightarrow> nat \<times> nat \<times> mm_state" where
  "mm_malloc_fresh c sz st = malloc_unlocked c sz (mm_enter c st)"

definition mm_malloc :: "mm_config \<Rightarrow> nat \<Rightarrow> mm_state \<Rightarrow> nat \<times> mm_state" where
  "mm_malloc c sz st = (let (p, _, st) = mm_malloc_fresh c sz st in (p, st))"

definition mm_memalign :: "mm_config \<Rightarrow> nat \<Rightarrow> nat \<Rightarrow> mm_state \<Rightarrow> nat \<times> mm_state" where
  "mm_memalign c align sz st = memalign_unlocked c align sz (mm_enter c st)"

text \<open>Freeing a pointer of another arena hands it over; a full queue falls back to freeing it with
  the owner's arena current. \<^const>\<open>None\<close> of the push would be a push that never returns; that it does not
  occur on a well-formed queue is shown with the queue.\<close>

definition mm_free :: "mm_config \<Rightarrow> nat \<Rightarrow> mm_state \<Rightarrow> mm_state" where
  "mm_free c p st =
     (if p = 0 then mm_clear_error st
      else let own = mm_owner_of c st p
           in if cfg_lock c = MM_LOCK_ARENA \<and> own \<noteq> 0 \<and> own \<noteq> mm_self st
              then let st = mm_clear_error st
                   in case mm_remote_push p (arenas st own) of
                        Some (True, a) \<Rightarrow> st\<lparr>arenas := (arenas st)(own := a)\<rparr>
                      | _ \<Rightarrow> let saved = mm_self st; st = st\<lparr>mm_self := own\<rparr>;
                                 st = free_unlocked c p (mm_remote_drain c st)
                             in st\<lparr>mm_self := saved\<rparr>
              else free_unlocked c p (mm_enter c st))"

definition mm_usable_size :: "mm_config \<Rightarrow> nat \<Rightarrow> mm_state \<Rightarrow> nat \<times> mm_state" where
  "mm_usable_size c p st =
     (let (g, st) = mm_enter_for c p (mm_clear_error st); (n, st) = size_of_live c p st
      in (n, mm_leave_for g st))"

definition realloc_foreign :: "mm_config \<Rightarrow> nat \<Rightarrow> nat \<Rightarrow> mm_state \<Rightarrow> nat \<times> mm_state" where
  "realloc_foreign c p new_size st =
     (let (g, st) = mm_enter_for c p (mm_clear_error st);
          (old_size, st) = size_of_live c p st;
          why = mm_last_error st;
          st = mm_leave_for g st
      in if old_size = 0
         then (0, mm_fail (if why \<noteq> MM_OK then why else MM_ERR_INVALID_PTR) st)
         else let (fsh, st) = mm_malloc c new_size st
              in if fsh = 0 then (0, st)
                 else let n = (if old_size < new_size then old_size else new_size);
                          st = upd_mem (\<lambda>m. mem_write m fsh (mem_read m p n)) st
                      in (fsh, mm_free c p st))"

definition mm_realloc :: "mm_config \<Rightarrow> nat \<Rightarrow> nat \<Rightarrow> mm_state \<Rightarrow> nat \<times> mm_state" where
  "mm_realloc c p new_size st =
     (let own = mm_owner_of c st p
      in if cfg_lock c = MM_LOCK_ARENA \<and> p \<noteq> 0 \<and> new_size \<noteq> 0 \<and> own \<noteq> 0 \<and> own \<noteq> mm_self st
         then realloc_foreign c p new_size st
         else realloc_unlocked c p new_size (mm_enter c st))"

definition mm_read :: "mm_config \<Rightarrow> nat \<Rightarrow> nat \<Rightarrow> nat \<Rightarrow> nat \<Rightarrow> mm_state \<Rightarrow> int \<times> mm_state" where
  "mm_read c p offset buf len st =
     (let st = mm_clear_error st
      in if buf = 0 \<and> len \<noteq> 0 then (-1, mm_fail MM_ERR_INVALID_PTR st)
         else let (g, st) = mm_enter_for c p st; (n, st) = read_unlocked c p offset buf len st
              in (n, mm_leave_for g st))"

definition mm_write :: "mm_config \<Rightarrow> nat \<Rightarrow> nat \<Rightarrow> nat \<Rightarrow> nat \<Rightarrow> mm_state \<Rightarrow> int \<times> mm_state" where
  "mm_write c p offset src len st =
     (let st = mm_clear_error st
      in if src = 0 \<and> len \<noteq> 0 then (-1, mm_fail MM_ERR_INVALID_PTR st)
         else let (g, st) = mm_enter_for c p st; (n, st) = write_unlocked c p offset src len st
              in (n, mm_leave_for g st))"

definition mm_verify :: "mm_config \<Rightarrow> nat \<Rightarrow> mm_state \<Rightarrow> mm_status \<times> mm_state" where
  "mm_verify c p st =
     (let (g, st) = mm_enter_for c p (mm_clear_error st); (e, st) = verify_unlocked c p st
      in (e, mm_leave_for g st))"

definition mm_scrub :: "mm_config \<Rightarrow> nat \<Rightarrow> mm_state \<Rightarrow> mm_status \<times> mm_state" where
  "mm_scrub c budget_blocks st =
     (let st = mm_enter c (mm_clear_error st)
      in if mm_arena_live st then scrub_run c budget_blocks st
         else (MM_ERR_NOT_INITIALIZED, mm_fail MM_ERR_NOT_INITIALIZED st))"

definition mm_set_scrub_interval :: "mm_config \<Rightarrow> nat \<Rightarrow> nat \<Rightarrow> mm_state \<Rightarrow> mm_state" where
  "mm_set_scrub_interval c n budget_blocks st =
     (let st = mm_enter c st;
          st = st\<lparr>g_scrub_interval := n,
                  g_scrub_budget := (if budget_blocks = 0 then MM_SCRUB_BUDGET_DEFAULT else budget_blocks)\<rparr>
      in upd_arena (\<lambda>a. a\<lparr>ops_since_scrub := 0\<rparr>) st)"

definition mm_get_mode :: "mm_config \<Rightarrow> mm_state \<Rightarrow> mm_mode \<times> mm_state" where
  "mm_get_mode c st = (let st = mm_enter c st in (mode (g_arena st), st))"

end
