(* ===== verification/Mars_Bins.thy ===== *)
theory Mars_Bins
  imports Mars_Freelist
begin

unbundle bit_operations_syntax

text \<open>
  The free lists as lists. Every bin is a doubly linked list threaded through the blocks it holds;
  \<open>bins_rep c st L\<close> says that the bins of the calling thread's arena hold exactly the lists \<open>L\<close>.
  The theorems show that insertion, removal, search and the consistency check of
  \<^verbatim>\<open>src/mm_freelist.c\<close> are the operations on those lists, that they report no error on a well-formed
  arena and that they touch nothing but link words.
\<close>

section \<open>Doubly linked lists\<close>

text \<open>\<open>nx\<close> and \<open>pv\<close> read the two links of a node; 0 ends the list.\<close>

fun dll :: "(nat \<Rightarrow> nat) \<Rightarrow> (nat \<Rightarrow> nat) \<Rightarrow> nat \<Rightarrow> nat \<Rightarrow> nat list \<Rightarrow> bool" where
  "dll nx pv pr cur [] \<longleftrightarrow> cur = 0"
| "dll nx pv pr cur (x # xs) \<longleftrightarrow> cur = x \<and> x \<noteq> 0 \<and> pv x = pr \<and> dll nx pv x (nx x) xs"

lemma dll_cong:
  "(\<And>x. x \<in> set xs \<Longrightarrow> nx' x = nx x \<and> pv' x = pv x) \<Longrightarrow> dll nx' pv' pr cur xs = dll nx pv pr cur xs"
  by (induction xs arbitrary: pr cur) auto

lemma dll_nonzero: "dll nx pv pr cur xs \<Longrightarrow> x \<in> set xs \<Longrightarrow> x \<noteq> 0"
  by (induction xs arbitrary: pr cur) auto

lemma dll_cur: "dll nx pv pr cur xs \<Longrightarrow> cur = (case xs of [] \<Rightarrow> 0 | x # _ \<Rightarrow> x)"
  by (cases xs) auto

lemma dll_unique: "dll nx pv pr cur xs \<Longrightarrow> dll nx pv pr' cur ys \<Longrightarrow> xs = ys"
proof (induction xs arbitrary: pr pr' cur ys)
  case Nil
  then show ?case by (cases ys) auto
next
  case (Cons x xs)
  then show ?case by (cases ys) auto
qed

lemma dll_push:
  assumes "dll nx pv 0 h xs" "distinct (b # xs)" "b \<noteq> 0"
    and "\<And>x. x \<in> set (b # xs) \<Longrightarrow> nx' x = (if x = b then h else nx x)"
    and "\<And>x. x \<in> set (b # xs) \<Longrightarrow> pv' x = (if x = b then 0 else if x = h then b else pv x)"
  shows "dll nx' pv' 0 b (b # xs)"
proof (cases xs)
  case (Cons y ys)
  have "dll nx' pv' y (nx' y) ys = dll nx pv y (nx y) ys"
    using assms Cons by (intro trans [OF dll_cong [of ys nx' nx pv' pv]]) auto
  then show ?thesis using assms Cons by auto
qed (use assms in auto)

lemma dll_pred: "dll nx pv pr cur (xs @ b # ys) \<Longrightarrow> pv b = (if xs = [] then pr else last xs)"
  by (induction xs arbitrary: pr cur) auto

lemma dll_succ: "dll nx pv pr cur (xs @ b # ys) \<Longrightarrow> nx b = (case ys of [] \<Rightarrow> 0 | y # _ \<Rightarrow> y)"
  by (induction xs arbitrary: pr cur) (auto dest: dll_cur)

lemma dll_unlink:
  assumes "dll nx pv pr cur (xs @ b # ys)" "distinct (xs @ b # ys)"
    and "\<And>x. x \<in> set (xs @ ys) \<Longrightarrow> nx' x = (if x = pv b then nx b else nx x)"
    and "\<And>x. x \<in> set (xs @ ys) \<Longrightarrow> pv' x = (if x = nx b then pv b else pv x)"
    and "pr \<notin> set (xs @ b # ys)"
  shows "dll nx' pv' pr (if xs = [] then nx b else cur) (xs @ ys)"
  using assms
proof (induction xs arbitrary: pr cur)
  case Nil
  show ?case
  proof (cases ys)
    case (Cons y zs)
    have "dll nx' pv' y (nx y) zs = dll nx pv y (nx y) zs"
      using Nil Cons by (intro dll_cong) auto
    then show ?thesis using Nil Cons by auto
  qed (use Nil in auto)
next
  case (Cons x xs)
  have p: "pv b = last (x # xs)" using dll_pred [OF Cons.prems(1)] by simp
  have n: "nx b = (case ys of [] \<Rightarrow> 0 | y # _ \<Rightarrow> y)" using dll_succ [OF Cons.prems(1)] by simp
  have "x \<noteq> nx b" using n Cons.prems(1,2) by (auto split: list.splits)
  then have "pv' x = pr" using Cons.prems(1,4) by simp
  moreover have "nx' x = (if xs = [] then nx b else nx x)"
    using p Cons.prems(2,3) by (cases "xs = []") (auto dest: last_in_set)
  moreover have "dll nx' pv' x (if xs = [] then nx b else nx x) (xs @ ys)"
    by (rule Cons.IH) (use Cons.prems in auto)
  ultimately show ?case using Cons.prems(1) by simp
qed
section \<open>Link words\<close>

text \<open>Two blocks whose smallest extents do not overlap.\<close>

definition apart :: "mm_config \<Rightarrow> nat \<Rightarrow> nat \<Rightarrow> bool" where
  "apart c x y \<longleftrightarrow> x + MM_MIN_BLOCK c \<le> y \<or> y + MM_MIN_BLOCK c \<le> x"

lemma apart_sym: "apart c x y \<Longrightarrow> apart c y x"
  by (auto simp: apart_def)

lemma link_get_set_other:
  assumes "x = b \<and> w \<noteq> w' \<or> apart c x b" "w < 2" "w' < 2"
  shows "mm_free_link_get c (mm_free_link_set c m b w p s) x w' s = mm_free_link_get c m x w' s"
proof -
  have "mm_payload_of c x + w' * 8 + 8 \<le> mm_payload_of c b + w * 8 \<or>
      mm_payload_of c b + w * 8 + 8 \<le> mm_payload_of c x + w' * 8"
    using assms layout_bounds(3) [of c] by (auto simp: mm_payload_of_def apart_def)
  then show ?thesis unfolding mm_free_link_get_def mm_free_link_set_def Let_def
    by (subst load_store_disj(1)) auto
qed

lemma link_set_header:
  assumes "x = b \<or> apart c x b" "w < 2"
  shows "same_on x (MM_HDR_SIZE c) m (mm_free_link_set c m b w p s)"
  unfolding mm_free_link_set_def Let_def
  by (rule same_on_store64) (use assms layout_bounds(3) [of c] in \<open>auto simp: mm_payload_of_def apart_def\<close>)

lemma link_which [simp]: "MM_LINK_NEXT < 2" "MM_LINK_PREV < 2" "MM_LINK_NEXT \<noteq> MM_LINK_PREV" "MM_LINK_PREV \<noteq> MM_LINK_NEXT"
  by (simp_all add: MM_LINK_NEXT_def MM_LINK_PREV_def)

lemma set_link_frame [simp]:
  "g_arena (set_link_next c b p st) = g_arena st" "g_arena (set_link_prev c b p st) = g_arena st"
  "descs (set_link_next c b p st) = descs st" "descs (set_link_prev c b p st) = descs st"
  "same_registry st (set_link_next c b p st)" "same_registry st (set_link_prev c b p st)"
  "g_last_error (set_link_next c b p st) = g_last_error st"
  "g_last_error (set_link_prev c b p st) = g_last_error st"
  by (simp_all add: set_link_next_def set_link_prev_def)

lemma set_link_get:
  assumes "x = b \<or> apart c x b" "p < 2 ^ 64"
  shows "link_next c (set_link_next c b p st) x = (if x = b then p else link_next c st x)"
    and "link_prev c (set_link_prev c b p st) x = (if x = b then p else link_prev c st x)"
    and "link_prev c (set_link_next c b p st) x = link_prev c st x"
    and "link_next c (set_link_prev c b p st) x = link_next c st x"
  using assms link_get_set_other [of x b _ _ c "mem st" p "secret (g_arena st)"]
  by (auto simp: link_next_def link_prev_def set_link_next_def set_link_prev_def)

text \<open>Validity of a node depends on its header, the registry and the secret.\<close>

lemma node_ok_cong:
  assumes "same_registry st st'" "secret (g_arena st') = secret (g_arena st)"
    and "same_on x (MM_HDR_SIZE c) (mem st) (mem st')"
  shows "node_ok c st' x i \<longleftrightarrow> node_ok c st x i"
proof -
  have "same_on x 8 (mem st) (mem st')" using assms(3) layout_bounds(1) [of c] by (auto simp: same_on_def)
  then show ?thesis
    using mm_header_ok_cong [OF assms] mm_is_block_cong [OF assms(1)] header_fields_cong [OF assms(3)]
    by (simp add: node_ok_def)
qed

lemma node_ok_set_link:
  assumes "x = b \<or> apart c x b"
  shows "node_ok c (set_link_next c b p st) x i \<longleftrightarrow> node_ok c st x i"
    and "node_ok c (set_link_prev c b p st) x i \<longleftrightarrow> node_ok c st x i"
  using link_set_header [OF assms] unfolding set_link_next_def set_link_prev_def
  by (simp_all add: node_ok_cong)

lemma node_ok_nonzero: "node_ok c st x i \<Longrightarrow> x \<noteq> 0"
  by (simp add: node_ok_def mm_is_block_def)

text \<open>Changes of the bins and the bitmap leave links and nodes alone.\<close>

lemma bins_upd_frame:
  assumes "\<And>a. span_cache (h a) = span_cache a" "\<And>a. secret (h a) = secret a"
  shows "link_next c (upd_arena h st) x = link_next c st x" "link_prev c (upd_arena h st) x = link_prev c st x"
    "node_ok c (upd_arena h st) x i = node_ok c st x i"
  using assms node_ok_cong [of st "upd_arena h st" x c i]
  by (simp_all add: link_next_def link_prev_def same_registry_def)

lemma bitmap_frame [simp]:
  "bins (bitmap_set i a) = bins a" "secret (bitmap_set i a) = secret a" "span_cache (bitmap_set i a) = span_cache a"
  "bins (bitmap_clear i a) = bins a" "secret (bitmap_clear i a) = secret a" "span_cache (bitmap_clear i a) = span_cache a"
  by (simp_all add: bitmap_set_def bitmap_clear_def)

lemma bin_index_eq: "i div 64 = j div 64 \<and> i mod 64 = j mod 64 \<longleftrightarrow> i = (j::nat)"
  by (metis div_mult_mod_eq)

lemma bitmap_test_set [simp]: "bitmap_test (bitmap_set i a) j \<longleftrightarrow> j = i \<or> bitmap_test a j"
  using bin_index_eq [of j i]
  by (auto simp: bitmap_test_bit bitmap_set_def bit_or_iff bit_push_bit_iff bit_1_iff bit_exp_iff)

lemma bitmap_test_clear [simp]: "bitmap_test (bitmap_clear i a) j \<longleftrightarrow> j \<noteq> i \<and> bitmap_test a j"
  using bin_index_eq [of j i]
  by (auto simp: bitmap_test_bit bitmap_clear_def bit_and_iff bit_not_iff bit_push_bit_iff bit_1_iff bit_exp_iff dest: bit_imp_le_length)
section \<open>The bins as lists\<close>

definition bin_rep :: "mm_config \<Rightarrow> mm_state \<Rightarrow> nat \<Rightarrow> nat list \<Rightarrow> bool" where
  "bin_rep c st i xs \<longleftrightarrow>
     dll (link_next c st) (link_prev c st) 0 (bins (g_arena st) i) xs \<and> distinct xs \<and>
     bitmap_test (g_arena st) i = (xs \<noteq> []) \<and> (\<forall>x \<in> set xs. node_ok c st x i)"

text \<open>The blocks of all bins: pairwise apart, and at 64-bit addresses.\<close>

definition blocks_ok :: "mm_config \<Rightarrow> nat set \<Rightarrow> bool" where
  "blocks_ok c S \<longleftrightarrow> (\<forall>x \<in> S. x < 2 ^ 64) \<and> (\<forall>x \<in> S. \<forall>y \<in> S. x = y \<or> apart c x y)"

definition members :: "(nat \<Rightarrow> nat list) \<Rightarrow> nat set" where
  "members L = (\<Union>i \<in> {..<MM_BIN_COUNT}. set (L i))"

definition bins_rep :: "mm_config \<Rightarrow> mm_state \<Rightarrow> (nat \<Rightarrow> nat list) \<Rightarrow> bool" where
  "bins_rep c st L \<longleftrightarrow> (\<forall>i < MM_BIN_COUNT. bin_rep c st i (L i)) \<and> blocks_ok c (members L)"

text \<open>What a caller of \<^verbatim>\<open>mm_bin_insert\<close> provides: a valid free block that overlaps no listed one.\<close>

definition fileable :: "mm_config \<Rightarrow> mm_state \<Rightarrow> (nat \<Rightarrow> nat list) \<Rightarrow> nat \<Rightarrow> bool" where
  "fileable c st L b \<longleftrightarrow>
     node_ok c st b (mm_bin_of c (mm_block_size (mem st) b)) \<and> b < 2 ^ 64 \<and> (\<forall>x \<in> members L. apart c b x)"

lemma members_memb: "x \<in> set (L i) \<Longrightarrow> i < MM_BIN_COUNT \<Longrightarrow> x \<in> members L"
  by (auto simp: members_def)

lemma members_upd: "i < MM_BIN_COUNT \<Longrightarrow> members (L(i := b # L i)) = insert b (members L)"
  by (auto simp: members_def split: if_splits)

lemma blocks_ok_insert:
  "blocks_ok c S \<Longrightarrow> b < 2 ^ 64 \<Longrightarrow> (\<forall>x \<in> S. apart c b x) \<Longrightarrow> blocks_ok c (insert b S)"
  by (auto simp: blocks_ok_def intro: apart_sym)

lemma blocks_ok_mono: "blocks_ok c S \<Longrightarrow> T \<subseteq> S \<Longrightarrow> blocks_ok c T"
  by (auto simp: blocks_ok_def subset_iff)

lemma blocks_ok_apart: "blocks_ok c S \<Longrightarrow> x \<in> S \<Longrightarrow> y \<in> S \<Longrightarrow> x = y \<or> apart c x y"
  by (auto simp: blocks_ok_def)

lemma not_apart_self [simp]: "\<not> apart c b b"
  using layout_bounds(6) [of c] by (simp add: apart_def)

lemma bin_rep_head:
  "bin_rep c st i xs \<Longrightarrow> bins (g_arena st) i = (case xs of [] \<Rightarrow> 0 | x # _ \<Rightarrow> x)"
  by (auto simp: bin_rep_def dest: dll_cur)

lemma bin_rep_disjoint: "bin_rep c st i xs \<Longrightarrow> bin_rep c st j ys \<Longrightarrow> x \<in> set xs \<Longrightarrow> x \<in> set ys \<Longrightarrow> i = j"
  by (auto simp: bin_rep_def node_ok_def)

text \<open>A bin keeps its list under any change that keeps its head, its bit, and the links and the
  validity of its members.\<close>

lemma bin_rep_cong:
  assumes "bin_rep c st i xs"
    and "bins (g_arena st') i = bins (g_arena st) i" "bitmap_test (g_arena st') i = bitmap_test (g_arena st) i"
    and "\<And>x. x \<in> set xs \<Longrightarrow> link_next c st' x = link_next c st x \<and> link_prev c st' x = link_prev c st x \<and>
           node_ok c st' x i = node_ok c st x i"
  shows "bin_rep c st' i xs"
proof -
  have "dll (link_next c st') (link_prev c st') 0 (bins (g_arena st') i) xs =
      dll (link_next c st) (link_prev c st) 0 (bins (g_arena st) i) xs"
    unfolding assms(2) by (rule dll_cong) (use assms(4) in blast)
  then show ?thesis using assms by (simp add: bin_rep_def)
qed

section \<open>Push\<close>

lemma bitmap_test_bins [simp]: "bitmap_test (a\<lparr>bins := f\<rparr>) j = bitmap_test a j"
  by (simp add: bitmap_test_def)

lemma bin_push_frame:
  "bins (g_arena (bin_push c b i st)) = (bins (g_arena st))(i := b)"
  "bitmap_test (g_arena (bin_push c b i st)) j \<longleftrightarrow> j = i \<or> bitmap_test (g_arena st) j"
  "g_last_error (bin_push c b i st) = g_last_error st" "descs (bin_push c b i st) = descs st"
  "same_registry st (bin_push c b i st)" "secret (g_arena (bin_push c b i st)) = secret (g_arena st)"
  by (simp_all add: bin_push_def Let_def same_registry_def set_link_next_def set_link_prev_def)

lemma bin_push_views:
  assumes "blocks_ok c S" "b \<in> S" "h = 0 \<or> h \<in> S" "x \<in> S" and "h = bins (g_arena st) i"
  shows "link_next c (bin_push c b i st) x = (if x = b then h else link_next c st x)"
    and "link_prev c (bin_push c b i st) x = (if h \<noteq> 0 \<and> x = h then b else if x = b then 0 else link_prev c st x)"
    and "node_ok c (bin_push c b i st) x j = node_ok c st x j"
proof -
  have lt: "h < 2 ^ 64" "b < 2 ^ 64" using assms(1-3) by (auto simp: blocks_ok_def)
  have ap: "x = b \<or> apart c x b" "h \<noteq> 0 \<Longrightarrow> x = h \<or> apart c x h"
    using assms(1-4) blocks_ok_apart by blast+
  let ?st1 = "set_link_prev c b 0 (set_link_next c b h st)"
  let ?st = "if h \<noteq> 0 then set_link_prev c h b ?st1 else ?st1"
  have eq: "bin_push c b i st = upd_arena (\<lambda>a. bitmap_set i (a\<lparr>bins := (bins a)(i := b)\<rparr>)) ?st"
    using assms(5) by (simp add: bin_push_def Let_def)
  note frame = bins_upd_frame [of "\<lambda>a. bitmap_set i (a\<lparr>bins := (bins a)(i := b)\<rparr>)" c ?st x]
  have fr: "link_next c (bin_push c b i st) x = link_next c ?st x" "link_prev c (bin_push c b i st) x = link_prev c ?st x"
    "node_ok c (bin_push c b i st) x j = node_ok c ?st x j"
    unfolding eq by (rule frame; simp)+
  note views = set_link_get [OF ap(1)] set_link_get [OF ap(2)]
  show "link_next c (bin_push c b i st) x = (if x = b then h else link_next c st x)"
    "link_prev c (bin_push c b i st) x = (if h \<noteq> 0 \<and> x = h then b else if x = b then 0 else link_prev c st x)"
    unfolding fr using lt by (cases "h = 0"; simp add: views)+
  show "node_ok c (bin_push c b i st) x j = node_ok c st x j"
    unfolding fr using ap by (cases "h = 0") (simp_all add: node_ok_set_link)
qed

lemma bin_push_rep:
  assumes "bins_rep c st L" "i < MM_BIN_COUNT" "node_ok c st b i" "b < 2 ^ 64" "\<forall>x \<in> members L. apart c b x"
  shows "bins_rep c (bin_push c b i st) (L(i := b # L i))"
proof -
  let ?st' = "bin_push c b i st" and ?h = "bins (g_arena st) i" and ?S = "insert b (members L)"
  have rep: "bin_rep c st j (L j)" if "j < MM_BIN_COUNT" for j using assms(1) that by (simp add: bins_rep_def)
  have S: "blocks_ok c ?S" using assms by (intro blocks_ok_insert) (simp_all add: bins_rep_def)
  have new: "b \<notin> members L" using assms(5) by auto
  have h: "?h = 0 \<or> ?h \<in> set (L i)" using bin_rep_head [OF rep [OF assms(2)]] by (cases "L i") simp_all
  then have hS: "?h = 0 \<or> ?h \<in> ?S" using members_memb [OF _ assms(2)] by blast
  note views = bin_push_views [OF S insertI1 hS _ refl]
  have "bin_rep c ?st' j ((L(i := b # L i)) j)" if j: "j < MM_BIN_COUNT" for j
  proof (cases "j = i")
    case True
    note r = rep [OF assms(2), unfolded bin_rep_def]
    have memb: "x \<in> ?S" if "x \<in> set (b # L i)" for x using that members_memb [OF _ assms(2)] by auto
    have b: "b \<notin> set (L i)" "b \<noteq> 0" using new members_memb [OF _ assms(2)] node_ok_nonzero [OF assms(3)] by auto
    have "0 \<notin> set (L i)" using dll_nonzero r by blast
    then have "dll (link_next c ?st') (link_prev c ?st') 0 b (b # L i)"
      by (intro dll_push [of "link_next c st" "link_prev c st" ?h])
        (use r b h views memb in \<open>auto\<close>)
    moreover have "\<forall>x \<in> set (b # L i). node_ok c ?st' x i"
      using views(3) memb r assms(3) by auto
    ultimately show ?thesis using True r b by (simp add: bin_rep_def bin_push_frame)
  next
    case False
    have other: "x \<noteq> b \<and> x \<noteq> ?h \<and> x \<in> ?S" if "x \<in> set (L j)" for x
    proof -
      have "x \<in> members L" using that j by (rule members_memb)
      moreover have "x \<noteq> 0" using dll_nonzero that rep [OF j] by (auto simp: bin_rep_def)
      ultimately show ?thesis
        using h new False bin_rep_disjoint [OF rep [OF j] rep [OF assms(2)] that] by auto
    qed
    have "link_next c ?st' x = link_next c st x \<and> link_prev c ?st' x = link_prev c st x \<and>
        node_ok c ?st' x j = node_ok c st x j" if "x \<in> set (L j)" for x
      using views [of x] other [OF that] by auto
    then have "bin_rep c ?st' j (L j)"
      using False by (intro bin_rep_cong [OF rep [OF j]]) (simp_all add: bin_push_frame)
    then show ?thesis using False by simp
  qed
  then show ?thesis using S members_upd [OF assms(2)] by (simp add: bins_rep_def)
qed

section \<open>Unlink\<close>

lemma bin_unlink_frame:
  "g_last_error (bin_unlink c b i st) = g_last_error st" "descs (bin_unlink c b i st) = descs st"
  "same_registry st (bin_unlink c b i st)" "secret (g_arena (bin_unlink c b i st)) = secret (g_arena st)"
  "bins (g_arena (bin_unlink c b i st)) =
     (if link_prev c st b = 0 then (bins (g_arena st))(i := link_next c st b) else bins (g_arena st))"
  "bitmap_test (g_arena (bin_unlink c b i st)) j \<longleftrightarrow>
     bitmap_test (g_arena st) j \<and> \<not> (j = i \<and> link_prev c st b = 0 \<and> link_next c st b = 0)"
  by (auto simp: bin_unlink_def Let_def same_registry_def set_link_next_def set_link_prev_def)

lemma bin_unlink_views:
  assumes "blocks_ok c S" "x \<in> S" and "n = 0 \<or> n \<in> S" and "p = 0 \<or> p \<in> S"
    and "n = link_next c st b" "p = link_prev c st b"
  shows "link_next c (bin_unlink c b i st) x = (if p \<noteq> 0 \<and> x = p then n else link_next c st x)"
    and "link_prev c (bin_unlink c b i st) x = (if n \<noteq> 0 \<and> x = n then p else link_prev c st x)"
    and "node_ok c (bin_unlink c b i st) x j = node_ok c st x j"
proof -
  have lt: "n < 2 ^ 64" "p < 2 ^ 64" using assms(1,3,4) by (auto simp: blocks_ok_def)
  have ap: "p \<noteq> 0 \<Longrightarrow> x = p \<or> apart c x p" "n \<noteq> 0 \<Longrightarrow> x = n \<or> apart c x n"
    using assms(1-4) blocks_ok_apart by blast+
  let ?h = "\<lambda>a. let a = a\<lparr>bins := (bins a)(i := n)\<rparr> in if n = 0 then bitmap_clear i a else a"
  define U where "U = upd_arena ?h st"
  define W where "W = (if p \<noteq> 0 then set_link_next c p n st else U)"
  have eq: "bin_unlink c b i st = (if n \<noteq> 0 then set_link_prev c n p W else W)"
    unfolding W_def U_def using assms(5,6) by (simp add: bin_unlink_def Let_def)
  have arena: "link_next c U x = link_next c st x" "link_prev c U x = link_prev c st x"
    "node_ok c U x j = node_ok c st x j"
    unfolding U_def by (rule bins_upd_frame; simp add: Let_def)+
  have "link_next c (bin_unlink c b i st) x = link_next c W x"
    unfolding eq using set_link_get(4) [OF ap(2) lt(2), of W] by simp
  also have "\<dots> = (if p \<noteq> 0 \<and> x = p then n else link_next c st x)"
    using set_link_get(1) [OF ap(1) lt(1), of st] arena(1) by (auto simp: W_def)
  finally show "link_next c (bin_unlink c b i st) x = (if p \<noteq> 0 \<and> x = p then n else link_next c st x)" .
  have "link_prev c (bin_unlink c b i st) x = (if n \<noteq> 0 \<and> x = n then p else link_prev c W x)"
    unfolding eq using set_link_get(2) [OF ap(2) lt(2), of W] by auto
  moreover have "link_prev c W x = link_prev c st x"
    using set_link_get(3) [OF ap(1) lt(1), of st] arena(2) by (simp add: W_def)
  ultimately show "link_prev c (bin_unlink c b i st) x = (if n \<noteq> 0 \<and> x = n then p else link_prev c st x)"
    by simp
  show "node_ok c (bin_unlink c b i st) x j = node_ok c st x j"
    unfolding eq W_def using ap arena(3) by (cases "p = 0"; cases "n = 0") (simp_all add: node_ok_set_link)
qed
lemma bin_rep_neighbours:
  assumes "bin_rep c st i (xs @ b # ys)"
  shows "link_next c st b = (case ys of [] \<Rightarrow> 0 | y # _ \<Rightarrow> y)"
    and "link_prev c st b = (if xs = [] then 0 else last xs)"
    and "link_next c st b = 0 \<or> link_next c st b \<in> set ys"
    and "link_prev c st b = 0 \<or> link_prev c st b \<in> set xs"
proof -
  have d: "dll (link_next c st) (link_prev c st) 0 (bins (g_arena st) i) (xs @ b # ys)"
    using assms by (simp add: bin_rep_def)
  show "link_next c st b = (case ys of [] \<Rightarrow> 0 | y # _ \<Rightarrow> y)" by (rule dll_succ [OF d])
  show "link_prev c st b = (if xs = [] then 0 else last xs)" by (rule dll_pred [OF d])
  show "link_next c st b = 0 \<or> link_next c st b \<in> set ys" using dll_succ [OF d] by (cases ys) simp_all
  show "link_prev c st b = 0 \<or> link_prev c st b \<in> set xs" using dll_pred [OF d] by simp
qed

lemma bin_unlink_rep:
  assumes "bins_rep c st L" "i < MM_BIN_COUNT" "L i = xs @ b # ys"
  shows "bins_rep c (bin_unlink c b i st) (L(i := xs @ ys))"
proof -
  let ?st' = "bin_unlink c b i st" and ?n = "link_next c st b" and ?p = "link_prev c st b"
  have rep: "bin_rep c st j (L j)" if "j < MM_BIN_COUNT" for j using assms(1) that by (simp add: bins_rep_def)
  have S: "blocks_ok c (members L)" using assms(1) by (simp add: bins_rep_def)
  note r = rep [OF assms(2), unfolded assms(3)]
  note nb = bin_rep_neighbours [OF r]
  have dll: "dll (link_next c st) (link_prev c st) 0 (bins (g_arena st) i) (xs @ b # ys)"
    and dist: "distinct (xs @ b # ys)" and nodes: "\<forall>x \<in> set (xs @ b # ys). node_ok c st x i"
    using r by (auto simp: bin_rep_def)
  have z: "0 \<notin> set (xs @ b # ys)" using dll_nonzero [OF dll] by blast
  have memb: "x \<in> members L" if "x \<in> set (xs @ b # ys)" for x
    using that members_memb [of x L i] assms(2,3) by simp
  have nS: "?n = 0 \<or> ?n \<in> members L" "?p = 0 \<or> ?p \<in> members L" using nb(3,4) memb by auto
  note views = bin_unlink_views [OF S _ nS refl refl]
  have "bin_rep c ?st' j ((L(i := xs @ ys)) j)" if j: "j < MM_BIN_COUNT" for j
  proof (cases "j = i")
    case True
    have "dll (link_next c ?st') (link_prev c ?st') 0 (if xs = [] then ?n else bins (g_arena st) i) (xs @ ys)"
    proof (rule dll_unlink [OF dll dist])
      fix x assume x: "x \<in> set (xs @ ys)"
      then have "x \<in> set (xs @ b # ys)" by auto
      then have "x \<noteq> 0" "x \<in> members L" using z memb by metis+
      then show "link_next c ?st' x = (if x = ?p then ?n else link_next c st x)"
        "link_prev c ?st' x = (if x = ?n then ?p else link_prev c st x)" using views by auto
    qed (use z in simp)
    moreover have "xs \<noteq> [] \<Longrightarrow> last xs \<noteq> 0" using z last_in_set [of xs] by (metis Un_iff set_append)
    moreover from this have "bins (g_arena ?st') i = (if xs = [] then ?n else bins (g_arena st) i)"
      using nb(2) by (auto simp: bin_unlink_frame)
    moreover have "bitmap_test (g_arena ?st') i = (xs @ ys \<noteq> [])"
      using nb(1,2) z r calculation(2) by (auto simp: bin_unlink_frame bin_rep_def split: list.splits)
    moreover have "\<forall>x \<in> set (xs @ ys). node_ok c ?st' x i" using views(3) memb nodes by auto
    ultimately show ?thesis using True dist by (simp add: bin_rep_def)
  next
    case False
    have other: "x \<noteq> 0 \<and> x \<noteq> ?n \<and> x \<noteq> ?p \<and> x \<in> members L" if x: "x \<in> set (L j)" for x
    proof -
      have "x \<notin> set (xs @ b # ys)" using bin_rep_disjoint [OF rep [OF j] r x] False by blast
      moreover have "x \<noteq> 0" using dll_nonzero x rep [OF j] by (auto simp: bin_rep_def)
      ultimately show ?thesis using nb(3,4) members_memb [of x L j] x j by auto
    qed
    have "link_next c ?st' x = link_next c st x \<and> link_prev c ?st' x = link_prev c st x \<and>
        node_ok c ?st' x j = node_ok c st x j" if "x \<in> set (L j)" for x
      using views [of x] other [OF that] by auto
    then have "bin_rep c ?st' j (L j)"
      using False by (intro bin_rep_cong [OF rep [OF j]]) (simp_all add: bin_unlink_frame)
    then show ?thesis using False by simp
  qed
  moreover have "blocks_ok c (members (L(i := xs @ ys)))"
    by (rule blocks_ok_mono [OF S]) (use assms(3) in \<open>auto simp: members_def split: if_splits\<close>)
  ultimately show ?thesis by (simp add: bins_rep_def)
qed

lemma links_ok_member:
  assumes "bin_rep c st i (xs @ b # ys)"
  shows "links_ok c st b i"
proof -
  note nb = bin_rep_neighbours [OF assms]
  have d: "dll (link_next c st) (link_prev c st) 0 (bins (g_arena st) i) (xs @ b # ys)"
    and nodes: "\<forall>x \<in> set (xs @ b # ys). node_ok c st x i" using assms by (auto simp: bin_rep_def)
  have n: "link_prev c st y = b" if "ys = y # zs" for y zs
    using dll_pred [of _ _ _ _ "xs @ [b]" y zs] d that by simp
  have p: "link_next c st (last xs) = b" if ne: "xs \<noteq> []"
  proof -
    obtain zs z where "xs = zs @ [z]" using ne by (cases xs rule: rev_cases) simp_all
    then show ?thesis using dll_succ [of _ _ _ _ zs z "b # ys"] d by simp
  qed
  have h: "bins (g_arena st) i = b" if "xs = []" using dll_cur [OF d] that by simp
  have "xs \<noteq> [] \<Longrightarrow> last xs \<noteq> 0" using dll_nonzero [OF d, of "last xs"] by simp
  then have prev: "if link_prev c st b \<noteq> 0 then node_ok c st (link_prev c st b) i \<and>
      link_next c st (link_prev c st b) = b else bins (g_arena st) i = b"
    using nb(2) nodes p h by (cases "xs = []") simp_all
  have "link_next c st b \<noteq> 0 \<longrightarrow> node_ok c st (link_next c st b) i \<and> link_prev c st (link_next c st b) = b"
    using nb(1) nodes n by (cases ys) simp_all
  then show ?thesis using prev nodes by (simp add: links_ok_def Let_def)
qed
section \<open>Insertion and removal on the lists\<close>

lemma node_ok_size:
  "node_ok c st b i \<Longrightarrow> mm_bin_of c (mm_block_size (mem st) b) = i"
  by (simp add: node_ok_def)

lemma mm_block_size_less: "mm_block_size m b < 2 ^ 64"
proof -
  have "unat (mm_word m b) < 2 ^ 64" using unsigned_less [of "mm_word m b", where 'a = nat] by simp
  moreover have "unat (mm_word m b) div 2 ^ 10 * 16 \<le> unat (mm_word m b)" by simp
  ultimately show ?thesis
    by (simp only: mm_block_size_def w_block_size_def unat_drop_bit word_masks MM_ALIGNMENT_16)
qed

lemma mm_bin_insert_push:
  assumes "bins_rep c st L" "fileable c st L b"
  defines "i \<equiv> mm_bin_of c (mm_block_size (mem st) b)"
  shows "mm_bin_insert c b st = bin_push c b i st" and "bins_rep c (mm_bin_insert c b st) (L(i := b # L i))"
proof -
  have i: "i < MM_BIN_COUNT" unfolding i_def by (rule mm_bin_of_less [OF mm_block_size_less])
  then have rep: "bin_rep c st i (L i)" using assms(1) by (simp add: bins_rep_def)
  have "bins (g_arena st) i \<noteq> 0 \<longrightarrow> node_ok c st (bins (g_arena st) i) i"
    using bin_rep_head [OF rep] rep by (cases "L i") (auto simp: bin_rep_def)
  then show eq: "mm_bin_insert c b st = bin_push c b i st"
    unfolding mm_bin_insert_def Let_def i_def by (intro if_not_P) blast
  show "bins_rep c (mm_bin_insert c b st) (L(i := b # L i))"
    unfolding eq by (rule bin_push_rep [OF assms(1) i]) (use assms(2) in \<open>simp_all add: fileable_def i_def\<close>)
qed

lemma mm_bin_remove_unlink:
  assumes "bins_rep c st L" "i < MM_BIN_COUNT" "b \<in> set (L i)"
  shows "mm_bin_remove c b st = bin_unlink c b i st" and "bins_rep c (mm_bin_remove c b st) (L(i := remove1 b (L i)))"
proof -
  obtain xs ys where L: "L i = xs @ b # ys" using assms(3) by (meson split_list)
  have rep: "bin_rep c st i (xs @ b # ys)" using assms(1,2) L by (metis bins_rep_def)
  then have "b \<notin> set xs" by (simp add: bin_rep_def)
  then have rm: "remove1 b (L i) = xs @ ys" using L by (simp add: remove1_append)
  have "mm_bin_of c (mm_block_size (mem st) b) = i" using rep by (simp add: bin_rep_def node_ok_size)
  then show eq: "mm_bin_remove c b st = bin_unlink c b i st"
    using links_ok_member [OF rep] by (simp add: mm_bin_remove_def)
  show "bins_rep c (mm_bin_remove c b st) (L(i := remove1 b (L i)))"
    unfolding eq rm by (rule bin_unlink_rep [OF assms(1,2) L])
qed

section \<open>Search\<close>

text \<open>The block a good-fit search takes: the first of the first 16 blocks of the request's own bin that
  is large enough, otherwise the first block of the least non-empty bin above it.\<close>

definition find_spec :: "mm_config \<Rightarrow> (nat \<Rightarrow> nat) \<Rightarrow> (nat \<Rightarrow> nat list) \<Rightarrow> nat \<Rightarrow> nat" where
  "find_spec c sizes L need =
     (case find (\<lambda>x. need \<le> sizes x) (take MM_BIN_SCAN_CAP (L (mm_bin_of c need))) of
        Some x \<Rightarrow> x
      | None \<Rightarrow> (case filter (\<lambda>i. L i \<noteq> []) [mm_bin_of c need + 1..<MM_BIN_COUNT] of
                   [] \<Rightarrow> 0 | j # _ \<Rightarrow> hd (L j)))"

lemma scan_bin_at_find:
  assumes "dll (link_next c st) (link_prev c st) pr cur xs" "\<forall>x \<in> set xs. node_ok c st x i"
  shows "scan_bin_at c st i need k pr cur =
    (case find (\<lambda>x. need \<le> mm_block_size (mem st) x) (take k xs) of Some x \<Rightarrow> (x, False) | None \<Rightarrow> (0, False))"
  using assms
proof (induction k arbitrary: pr cur xs)
  case (Suc k)
  then show ?case by (cases xs) auto
qed simp

lemma find_take: "find P (take k xs) = Some x \<Longrightarrow> x \<in> set xs \<and> P x"
  by (metis find_Some_iff in_set_takeD nth_mem)

lemma filter_first:
  fixes P :: "nat \<Rightarrow> bool"
  assumes "a \<le> b"
  shows "(case filter P [a..<b] of [] \<Rightarrow> b | j # _ \<Rightarrow> j) =
    (if \<exists>i. a \<le> i \<and> i < b \<and> P i then Min {i. a \<le> i \<and> i < b \<and> P i} else b)"
proof (cases "filter P [a..<b]")
  case Nil
  then show ?thesis by (auto simp: filter_empty_conv)
next
  case (Cons j js)
  have s: "sorted (filter P [a..<b])" by (simp add: sorted_filter [of id, simplified])
  have e: "set (filter P [a..<b]) = {i. a \<le> i \<and> i < b \<and> P i}" by auto
  have "Min {i. a \<le> i \<and> i < b \<and> P i} = j"
    using s e Cons by (intro Min_eqI) auto
  moreover have "j \<in> {i. a \<le> i \<and> i < b \<and> P i}" using e Cons by auto
  ultimately show ?thesis using Cons by auto
qed

lemma next_nonempty_filter:
  assumes "a \<le> MM_BIN_COUNT" "\<And>i. i < MM_BIN_COUNT \<Longrightarrow> bitmap_test A i = P i"
  shows "next_nonempty A a = (case filter P [a..<MM_BIN_COUNT] of [] \<Rightarrow> MM_BIN_COUNT | j # _ \<Rightarrow> j)"
proof -
  have "{i. a \<le> i \<and> i < MM_BIN_COUNT \<and> bitmap_test A i} = {i. a \<le> i \<and> i < MM_BIN_COUNT \<and> P i}"
    using assms(2) by blast
  then show ?thesis unfolding filter_first [OF assms(1)] next_nonempty_min using assms(2) by auto
qed

lemma bin_head_rep:
  assumes "bin_rep c st j xs" "xs \<noteq> []"
  shows "bin_head c st j = (hd xs, False)"
proof -
  obtain x ys where "xs = x # ys" using assms(2) by (cases xs) simp_all
  then show ?thesis using assms(1) by (simp add: bin_head_def bin_rep_def Let_def)
qed

lemma bin_find_once_rep:
  assumes "bins_rep c st L" "need < 2 ^ 64"
  shows "bin_find_once c st need = (find_spec c (mm_block_size (mem st)) L need, False)"
proof -
  let ?i = "mm_bin_of c need" and ?fit = "\<lambda>x. need \<le> mm_block_size (mem st) x"
  have i: "?i < MM_BIN_COUNT" using assms(2) by (rule mm_bin_of_less)
  have rep: "bin_rep c st j (L j)" if "j < MM_BIN_COUNT" for j using assms(1) that by (simp add: bins_rep_def)
  have scan: "scan_bin c st ?i need =
      (case find ?fit (take MM_BIN_SCAN_CAP (L ?i)) of Some x \<Rightarrow> (x, False) | None \<Rightarrow> (0, False))"
    unfolding scan_bin_def by (rule scan_bin_at_find) (use rep [OF i] in \<open>auto simp: bin_rep_def\<close>)
  show ?thesis
  proof (cases "find ?fit (take MM_BIN_SCAN_CAP (L ?i))")
    case (Some x)
    then have "x \<in> set (L ?i)" using find_take by metis
    then have "x \<noteq> 0" using rep [OF i] node_ok_nonzero by (auto simp: bin_rep_def)
    then show ?thesis using Some scan by (simp add: bin_find_once_def find_spec_def)
  next
    case None
    have nn: "next_nonempty (g_arena st) (?i + 1) =
        (case filter (\<lambda>i. L i \<noteq> []) [?i + 1..<MM_BIN_COUNT] of [] \<Rightarrow> MM_BIN_COUNT | j # _ \<Rightarrow> j)"
      by (rule next_nonempty_filter) (use i rep in \<open>auto simp: bin_rep_def\<close>)
    show ?thesis
    proof (cases "filter (\<lambda>i. L i \<noteq> []) [?i + 1..<MM_BIN_COUNT]")
      case Nil
      then have "next_nonempty (g_arena st) (?i + 1) = MM_BIN_COUNT" using nn by simp
      then show ?thesis using None Nil scan unfolding bin_find_once_def find_spec_def Let_def by simp
    next
      case (Cons j js)
      then have "j \<in> set (filter (\<lambda>i. L i \<noteq> []) [?i + 1..<MM_BIN_COUNT])" by simp
      then have j: "j < MM_BIN_COUNT" "L j \<noteq> []" by simp_all
      have "next_nonempty (g_arena st) (?i + 1) = j" using nn Cons by simp
      then show ?thesis
        using None Cons scan j bin_head_rep [OF rep [OF j(1)] j(2)]
        unfolding bin_find_once_def find_spec_def Let_def by simp
    qed
  qed
qed

lemma mm_bin_find_rep:
  assumes "bins_rep c st L" "need < 2 ^ 64"
  shows "mm_bin_find c need st = (find_spec c (mm_block_size (mem st)) L need, st)"
  using bin_find_once_rep [OF assms] by (simp add: mm_bin_find_def numeral_2_eq_2)

lemma find_spec_fits:
  assumes "bins_rep c st L" "need < 2 ^ 64" "find_spec c (mm_block_size (mem st)) L need = b" "b \<noteq> 0"
  shows "\<exists>i < MM_BIN_COUNT. b \<in> set (L i) \<and> node_ok c st b i \<and> need \<le> mm_block_size (mem st) b"
proof -
  let ?i = "mm_bin_of c need" and ?fit = "\<lambda>x. need \<le> mm_block_size (mem st) x"
  have rep: "bin_rep c st j (L j)" if "j < MM_BIN_COUNT" for j using assms(1) that by (simp add: bins_rep_def)
  show ?thesis
  proof (cases "find ?fit (take MM_BIN_SCAN_CAP (L ?i))")
    case (Some x)
    then have "b \<in> set (L ?i)" "?fit b" using assms(3) find_take [OF Some] by (simp_all add: find_spec_def)
    then show ?thesis using rep mm_bin_of_less [OF assms(2), of c] by (auto simp: bin_rep_def)
  next
    case None
    then obtain j js where f: "filter (\<lambda>i. L i \<noteq> []) [?i + 1..<MM_BIN_COUNT] = j # js" and b: "b = hd (L j)"
      using assms(3,4) by (auto simp: find_spec_def split: list.splits)
    then have "j \<in> set (filter (\<lambda>i. L i \<noteq> []) [?i + 1..<MM_BIN_COUNT])" by simp
    then have j: "?i < j" "j < MM_BIN_COUNT" "L j \<noteq> []" by simp_all
    then have bj: "b \<in> set (L j)" "node_ok c st b j" using rep b by (auto simp: bin_rep_def)
    then have "?i < mm_bin_of c (mm_block_size (mem st) b)" using j by (simp add: node_ok_size)
    then have "need \<le> mm_block_size (mem st) b"
      using mm_bin_of_mono [OF _ assms(2), of "mm_block_size (mem st) b" c] by force
    then show ?thesis using bj j by blast
  qed
qed
section \<open>The consistency check\<close>

lemma bin_walk_iff:
  "bin_walk c st i budget pr cur seen = Some r \<longleftrightarrow>
     (\<exists>xs. dll (link_next c st) (link_prev c st) pr cur xs \<and> (\<forall>x \<in> set xs. node_ok c st x i) \<and>
           length xs \<le> budget \<and> r = seen + length xs)"
proof (induction budget arbitrary: pr cur seen)
  case 0
  show ?case by auto
next
  case (Suc budget)
  show ?case
  proof (cases "cur = 0")
    case True
    then have "xs = []" if "dll (link_next c st) (link_prev c st) pr cur xs" for xs
      using that by (cases xs) auto
    then show ?thesis using True by (auto intro!: exI [of _ "[]"])
  next
    case False
    have node: "node_ok c st cur i \<longleftrightarrow> mm_header_ok c st cur \<and> \<not> mm_is_used (mem st) cur \<and>
        mm_bin_of c (mm_block_size (mem st) cur) = i"
      using mm_header_ok_is_block by (auto simp: node_ok_def)
    have step: "bin_walk c st i (Suc budget) pr cur seen =
        (if node_ok c st cur i \<and> link_prev c st cur = pr
         then bin_walk c st i budget cur (link_next c st cur) (seen + 1) else None)"
      using False node by simp
    show ?thesis (is "_ = (\<exists>xs. ?P xs)")
    proof
      assume "bin_walk c st i (Suc budget) pr cur seen = Some r"
      then obtain xs where "node_ok c st cur i" "link_prev c st cur = pr"
          "dll (link_next c st) (link_prev c st) cur (link_next c st cur) xs"
          "\<forall>x \<in> set xs. node_ok c st x i" "length xs \<le> budget" "r = seen + 1 + length xs"
        unfolding step by (auto simp: Suc.IH split: if_splits)
      then have "?P (cur # xs)" using False by simp
      then show "\<exists>xs. ?P xs" by blast
    next
      assume "\<exists>xs. ?P xs"
      then obtain ys where ys: "?P ys" by blast
      then obtain xs where "ys = cur # xs" using False by (cases ys) auto
      with ys have "node_ok c st cur i" "link_prev c st cur = pr"
          "dll (link_next c st) (link_prev c st) cur (link_next c st cur) xs"
          "\<forall>x \<in> set xs. node_ok c st x i" "length xs \<le> budget" "r = seen + 1 + length xs" by simp_all
      then show "bin_walk c st i (Suc budget) pr cur seen = Some r"
        unfolding step using Suc.IH [of cur "link_next c st cur" "seen + 1"] by auto
    qed
  qed
qed

lemma dll_nth_pred:
  "dll nx pv pr cur xs \<Longrightarrow> j < length xs \<Longrightarrow> pv (xs ! j) = (if j = 0 then pr else xs ! (j - 1))"
proof (induction xs arbitrary: pr cur j)
  case (Cons x xs)
  then show ?case by (cases j) (auto simp: nth_Cons')
qed simp

text \<open>Because every node names its predecessor, a list that starts with no predecessor repeats no node.\<close>

lemma dll_distinct:
  assumes d: "dll nx pv 0 cur xs"
  shows "distinct xs"
proof -
  have "i < j \<Longrightarrow> j < length xs \<Longrightarrow> xs ! i \<noteq> xs ! j" for i j
  proof (induction i arbitrary: j)
    case 0
    have "0 < length xs" using 0 by linarith
    with 0 show ?case
      using dll_nth_pred [OF d, of 0] dll_nth_pred [OF d, of j] dll_nonzero [OF d, of "xs ! (j - 1)"] by auto
  next
    case (Suc i)
    then show ?case
      using dll_nth_pred [OF d, of "Suc i"] dll_nth_pred [OF d, of j] Suc.IH [of "j - 1"] by force
  qed
  then show ?thesis by (metis distinct_conv_nth linorder_neqE_nat)
qed

lemma bin_check_iff:
  "bin_check c st counts i \<longleftrightarrow> (\<exists>xs. bin_rep c st i xs \<and> length xs = counts i \<and> length xs \<le> mm_max_blocks c st)"
proof
  assume chk: "bin_check c st counts i"
  then obtain xs where xs: "dll (link_next c st) (link_prev c st) 0 (bins (g_arena st) i) xs"
      "\<forall>x \<in> set xs. node_ok c st x i" "length xs \<le> mm_max_blocks c st" "counts i = length xs"
    unfolding bin_check_def bin_walk_iff by auto
  moreover have "bitmap_test (g_arena st) i = (xs \<noteq> [])"
    using chk dll_cur [OF xs(1)] dll_nonzero [OF xs(1)] by (auto simp: bin_check_def split: list.splits)
  ultimately show "\<exists>xs. bin_rep c st i xs \<and> length xs = counts i \<and> length xs \<le> mm_max_blocks c st"
    using dll_distinct [OF xs(1)] by (auto simp: bin_rep_def)
next
  assume "\<exists>xs. bin_rep c st i xs \<and> length xs = counts i \<and> length xs \<le> mm_max_blocks c st"
  then obtain xs where xs: "bin_rep c st i xs" "length xs = counts i" "length xs \<le> mm_max_blocks c st" by blast
  then have d: "dll (link_next c st) (link_prev c st) 0 (bins (g_arena st) i) xs" by (simp add: bin_rep_def)
  have "bitmap_test (g_arena st) i = (bins (g_arena st) i \<noteq> 0)"
    using xs(1) dll_cur [OF d] dll_nonzero [OF d] by (auto simp: bin_rep_def split: list.splits)
  then show "bin_check c st counts i"
    unfolding bin_check_def bin_walk_iff using xs d by (auto simp: bin_rep_def)
qed

lemma mm_bins_check_iff:
  "fst (mm_bins_check c counts st) = MM_OK \<longleftrightarrow>
     (\<exists>L. \<forall>i < MM_BIN_COUNT. bin_rep c st i (L i) \<and> length (L i) = counts i \<and>
            length (L i) \<le> mm_max_blocks c st)"
proof -
  have "fst (mm_bins_check c counts st) = MM_OK \<longleftrightarrow> (\<forall>i < MM_BIN_COUNT. bin_check c st counts i)"
    by (auto simp: mm_bins_check_def)
  then show ?thesis unfolding bin_check_iff by metis
qed

section \<open>The interface of the free lists\<close>

text \<open>What the allocation core relies on: \<open>rep\<close> relates a state to the lists the store holds, \<open>fits\<close> is
  what a block must satisfy to be filed, \<open>cls\<close> its class, \<open>sz\<close> its size. The laws say that insertion
  files the block at the head of its class, that removal takes it out of whichever list holds it,
  and that a search changes nothing and returns 0 or a listed block that is large enough.\<close>

locale block_store =
  fixes rep :: "'s \<Rightarrow> (nat \<Rightarrow> nat list) \<Rightarrow> bool"
    and fits :: "'s \<Rightarrow> (nat \<Rightarrow> nat list) \<Rightarrow> nat \<Rightarrow> bool"
    and cls :: "'s \<Rightarrow> nat \<Rightarrow> nat"
    and sz :: "'s \<Rightarrow> nat \<Rightarrow> nat"
    and ins rem :: "nat \<Rightarrow> 's \<Rightarrow> 's"
    and look :: "nat \<Rightarrow> 's \<Rightarrow> nat \<times> 's"
    and n :: nat
  assumes ins_rep: "rep st L \<Longrightarrow> fits st L b \<Longrightarrow> rep (ins b st) (L(cls st b := b # L (cls st b)))"
    and cls_bound: "cls st b < n"
    and rem_rep: "rep st L \<Longrightarrow> i < n \<Longrightarrow> b \<in> set (L i) \<Longrightarrow> rep (rem b st) (L(i := remove1 b (L i)))"
    and look_state: "rep st L \<Longrightarrow> need < 2 ^ 64 \<Longrightarrow> snd (look need st) = st"
    and look_fits: "rep st L \<Longrightarrow> need < 2 ^ 64 \<Longrightarrow> fst (look need st) = b \<Longrightarrow> b \<noteq> 0 \<Longrightarrow>
           \<exists>i < n. b \<in> set (L i) \<and> need \<le> sz st b"
begin

lemma ins_rem:
  assumes "rep st L" "fits st L b"
  shows "rep (rem b (ins b st)) L"
proof -
  have "rep (rem b (ins b st)) ((L(cls st b := b # L (cls st b)))
      (cls st b := remove1 b ((L(cls st b := b # L (cls st b))) (cls st b))))"
    by (rule rem_rep [OF ins_rep [OF assms] cls_bound]) simp
  then show ?thesis by simp
qed

text \<open>Taking what a search found: the block was listed, is large enough, and the store afterwards
  holds exactly the rest.\<close>

lemma take_found:
  assumes "rep st L" "need < 2 ^ 64" "look need st = (b, st')" "b \<noteq> 0"
  shows "\<exists>i < n. b \<in> set (L i) \<and> need \<le> sz st b \<and> rep (rem b st') (L(i := remove1 b (L i)))"
proof -
  have "st' = st" using look_state [OF assms(1,2)] assms(3) by simp
  then show ?thesis using look_fits [OF assms(1,2) _ assms(4)] rem_rep [OF assms(1)] assms(3) by fastforce
qed

end

interpretation fl: block_store "bins_rep c" "fileable c" "\<lambda>st b. mm_bin_of c (mm_block_size (mem st) b)"
    "\<lambda>st. mm_block_size (mem st)" "mm_bin_insert c" "mm_bin_remove c" "mm_bin_find c" MM_BIN_COUNT for c
proof unfold_locales
  show "mm_bin_of c (mm_block_size (mem st) b) < MM_BIN_COUNT" for st b
    by (rule mm_bin_of_less [OF mm_block_size_less])
  show "snd (mm_bin_find c need st) = st" if "bins_rep c st L" "need < 2 ^ 64" for st L need
    using mm_bin_find_rep [OF that] by simp
  show "\<exists>i < MM_BIN_COUNT. b \<in> set (L i) \<and> need \<le> mm_block_size (mem st) b"
    if "bins_rep c st L" "need < 2 ^ 64" "fst (mm_bin_find c need st) = b" "b \<noteq> 0" for st L need b
    using find_spec_fits [OF that(1,2) _ that(4)] mm_bin_find_rep [OF that(1,2)] that(3) by auto
qed (fact mm_bin_insert_push(2) mm_bin_remove_unlink(2))+
lemma find_spec_zero:
  assumes "bins_rep c st L" "need < 2 ^ 64"
  shows "find_spec c (mm_block_size (mem st)) L need = 0 \<longrightarrow>
    (\<forall>j. mm_bin_of c need < j \<and> j < MM_BIN_COUNT \<longrightarrow> L j = []) \<and>
    (\<forall>x \<in> set (take MM_BIN_SCAN_CAP (L (mm_bin_of c need))). mm_block_size (mem st) x < need)"
proof
  let ?i = "mm_bin_of c need" and ?fit = "\<lambda>x. need \<le> mm_block_size (mem st) x"
  assume zero: "find_spec c (mm_block_size (mem st)) L need = 0"
  have nz: "x \<noteq> 0" if "x \<in> set (L j)" "j < MM_BIN_COUNT" for x j
    using that assms(1) node_ok_nonzero [of c st x j] by (simp add: bins_rep_def bin_rep_def)
  have none: "find ?fit (take MM_BIN_SCAN_CAP (L ?i)) = None"
    using zero find_take [of ?fit _ "L ?i"] nz mm_bin_of_less [OF assms(2), of c]
    by (cases "find ?fit (take MM_BIN_SCAN_CAP (L ?i))") (auto simp: find_spec_def)
  have "filter (\<lambda>i. L i \<noteq> []) [?i + 1..<MM_BIN_COUNT] = []"
  proof (rule ccontr)
    assume "filter (\<lambda>i. L i \<noteq> []) [?i + 1..<MM_BIN_COUNT] \<noteq> []"
    then obtain j js where f: "filter (\<lambda>i. L i \<noteq> []) [?i + 1..<MM_BIN_COUNT] = j # js" by (meson list.exhaust)
    then have "j \<in> set (filter (\<lambda>i. L i \<noteq> []) [?i + 1..<MM_BIN_COUNT])" by simp
    then have "j < MM_BIN_COUNT" "L j \<noteq> []" by simp_all
    then show False using zero none f nz [of "hd (L j)" j] by (simp add: find_spec_def)
  qed
  then have "\<forall>j. ?i < j \<and> j < MM_BIN_COUNT \<longrightarrow> L j = []" by (auto simp: filter_empty_conv)
  moreover have "\<forall>x \<in> set (take MM_BIN_SCAN_CAP (L ?i)). mm_block_size (mem st) x < need"
    using none by (auto simp: find_None_iff not_le)
  ultimately show "(\<forall>j. ?i < j \<and> j < MM_BIN_COUNT \<longrightarrow> L j = []) \<and>
    (\<forall>x \<in> set (take MM_BIN_SCAN_CAP (L ?i)). mm_block_size (mem st) x < need)" by blast
qed

section \<open>Properties of the free lists\<close>

text \<open>C6 (refinement). Insertion and removal are the list operations: on an arena whose bins hold the
  lists \<open>L\<close>, inserting a valid free block that overlaps no listed one puts it at the head of the
  list of its size class and changes no other list; removing a listed block deletes exactly that
  block, wherever in its list it stands; and neither reports an error.\<close>

theorem bin_insert_remove_refine:
  fixes b :: nat
  assumes "bins_rep c st L"
  defines "k \<equiv> mm_bin_of c (mm_block_size (mem st) b)"
  shows "(fileable c st L b \<longrightarrow>
       bins_rep c (mm_bin_insert c b st) (L(k := b # L k)) \<and>
       g_last_error (mm_bin_insert c b st) = g_last_error st) \<and>
    (i < MM_BIN_COUNT \<and> x \<in> set (L i) \<longrightarrow>
       bins_rep c (mm_bin_remove c x st) (L(i := remove1 x (L i))) \<and>
       g_last_error (mm_bin_remove c x st) = g_last_error st)"
proof (intro conjI impI)
  assume f: "fileable c st L b"
  show "bins_rep c (mm_bin_insert c b st) (L(k := b # L k))"
    unfolding k_def by (rule mm_bin_insert_push(2) [OF assms(1) f])
  show "g_last_error (mm_bin_insert c b st) = g_last_error st"
    unfolding mm_bin_insert_push(1) [OF assms(1) f] by (rule bin_push_frame(3))
next
  assume "i < MM_BIN_COUNT \<and> x \<in> set (L i)"
  then have x: "i < MM_BIN_COUNT" "x \<in> set (L i)" by simp_all
  show "bins_rep c (mm_bin_remove c x st) (L(i := remove1 x (L i)))" by (rule mm_bin_remove_unlink(2) [OF assms(1) x])
  show "g_last_error (mm_bin_remove c x st) = g_last_error st"
    unfolding mm_bin_remove_unlink(1) [OF assms(1) x] by (rule bin_unlink_frame(1))
qed


text \<open>C7 (functional). The good-fit search on well-formed bins changes nothing and returns the block the
  specification names: the first block of the request's own bin that is large enough among the
  first 16, otherwise the head of the least non-empty bin above. What it returns is a valid free
  block at least as large as the request; when it returns none, every bin above is empty and none
  of the first 16 blocks of the request's own bin is large enough.\<close>

theorem bin_find_good_fit:
  assumes "bins_rep c st L" "need < 2 ^ 64"
  defines "b \<equiv> find_spec c (mm_block_size (mem st)) L need"
  shows "mm_bin_find c need st = (b, st) \<and>
    (b \<noteq> 0 \<longrightarrow> (\<exists>i < MM_BIN_COUNT. b \<in> set (L i) \<and> node_ok c st b i) \<and> need \<le> mm_block_size (mem st) b) \<and>
    (b = 0 \<longrightarrow> (\<forall>j. mm_bin_of c need < j \<and> j < MM_BIN_COUNT \<longrightarrow> L j = []) \<and>
       (\<forall>x \<in> set (take MM_BIN_SCAN_CAP (L (mm_bin_of c need))). mm_block_size (mem st) x < need))"
proof (intro conjI)
  show "mm_bin_find c need st = (b, st)" unfolding b_def by (rule mm_bin_find_rep [OF assms(1,2)])
  show "b \<noteq> 0 \<longrightarrow> (\<exists>i < MM_BIN_COUNT. b \<in> set (L i) \<and> node_ok c st b i) \<and> need \<le> mm_block_size (mem st) b"
    using find_spec_fits [OF assms(1,2), of b] unfolding b_def by blast
  show "b = 0 \<longrightarrow> (\<forall>j. mm_bin_of c need < j \<and> j < MM_BIN_COUNT \<longrightarrow> L j = []) \<and>
       (\<forall>x \<in> set (take MM_BIN_SCAN_CAP (L (mm_bin_of c need))). mm_block_size (mem st) x < need)"
    unfolding b_def by (rule find_spec_zero [OF assms(1,2)])
qed

text \<open>C18 (equivalence). The consistency check decides the invariant: \<^verbatim>\<open>mm_bins_check\<close> succeeds exactly
  when each of the 128 bins is a duplicate-free doubly linked list of valid free blocks of its size
  class, whose bitmap bit says whether it is empty and whose length is the number the walk of the
  blocks counted, within the budget of steps.\<close>

theorem bins_check_decides:
  "fst (mm_bins_check c counts st) = MM_OK \<longleftrightarrow>
     (\<exists>L. \<forall>i < MM_BIN_COUNT. bin_rep c st i (L i) \<and> length (L i) = counts i \<and>
            length (L i) \<le> mm_max_blocks c st)"
  by (rule mm_bins_check_iff)

section \<open>A filed block\<close>

text \<open>A caller-supplied span that is one sealed free block, in no bin yet.\<close>

definition sample_free :: "mm_config \<Rightarrow> mm_state" where
  "sample_free c = mm_seal c 4096 (upd_mem (\<lambda>m. mm_set_word m 4096 64 0 False True)
     (upd_desc user_desc (\<lambda>_. span_zero\<lparr>lo := 4096, hi := 4160\<rparr>) ((boot_state [])\<lparr>g_user := user_desc\<rparr>)))"

lemma sample_free_node:
  "mm_block_size (mem (sample_free c)) 4096 = 64" "node_ok c (sample_free c) 4096 (mm_bin_of c 64)"
proof -
  let ?st = "upd_mem (\<lambda>m. mm_set_word m 4096 64 0 False True)
     (upd_desc user_desc (\<lambda>_. span_zero\<lparr>lo := 4096, hi := 4160\<rparr>) ((boot_state [])\<lparr>g_user := user_desc\<rparr>))"
  have w: "mm_block_size (mem ?st) 4096 = 64" "\<not> mm_is_used (mem ?st) 4096"
    using set_word_fields [of 64 0 _ False True]
    by (simp_all add: mm_block_size_def mm_is_used_def mm_set_word_def)
  have "mm_span_of ?st 4096 = user_desc"
    by (simp add: mm_span_of_def mm_span_lookup_uncached_def upd_desc_def boot_state_def
        g_arena_def upd_mem_def arena_zero_def user_desc_def)
  moreover have "descs ?st user_desc = span_zero\<lparr>lo := 4096, hi := 4160\<rparr>" by (simp add: upd_desc_def)
  ultimately have blk: "mm_is_block c ?st 4096" using w(1) layout_bounds(5) [of c]
    by (simp add: mm_is_block_def block_ok_in_def start_ok_in_def user_desc_def)
  have min: "MM_MIN_BLOCK c \<le> mm_block_size (mem ?st) 4096" using w(1) layout_bounds(5) [of c] by simp
  show sz: "mm_block_size (mem (sample_free c)) 4096 = 64"
    using mm_seal_fields(1) [OF min] w(1) by (simp add: sample_free_def)
  have "\<not> mm_is_used (mem (sample_free c)) 4096"
    using mm_seal_fields(2) [OF min] w(2) by (simp add: sample_free_def)
  moreover have "mm_header_ok c (sample_free c) 4096" unfolding sample_free_def by (rule mm_seal_header_ok [OF blk])
  ultimately show "node_ok c (sample_free c) 4096 (mm_bin_of c 64)"
    using sz mm_header_ok_is_block by (simp add: node_ok_def)
qed

lemma sample_free_rep:
  "bins_rep c (sample_free c) (\<lambda>_. [])" "fileable c (sample_free c) (\<lambda>_. []) 4096"
proof -
  have "bins (g_arena (sample_free c)) i = 0" "bin_bitmap (g_arena (sample_free c)) i = 0" for i
    by (simp_all add: sample_free_def upd_desc_def boot_state_def g_arena_def arena_zero_def)
  then show "bins_rep c (sample_free c) (\<lambda>_. [])"
    by (simp add: bins_rep_def bin_rep_def bitmap_test_def blocks_ok_def members_def)
  show "fileable c (sample_free c) (\<lambda>_. []) 4096"
    using sample_free_node by (simp add: fileable_def members_def)
qed

lemma sample_filed_rep:
  "bins_rep c (mm_bin_insert c 4096 (sample_free c)) ((\<lambda>_. [])(mm_bin_of c 64 := [4096]))"
  using fl.ins_rep [OF sample_free_rep] sample_free_node(1) by simp

lemma sample_filed_bin: "mm_bin_of (build Hardened) 64 = 1" "mm_bin_of (build Hardened) 48 = 0"
  by code_simp+

theorem bin_insert_remove_refine_witness:
  "bins_rep (build Hardened) (mm_bin_insert (build Hardened) 4096 (sample_free (build Hardened)))
     ((\<lambda>_. [])(1 := [4096])) \<and>
   g_last_error (mm_bin_insert (build Hardened) 4096 (sample_free (build Hardened))) = MM_OK"
proof -
  have "g_last_error (sample_free (build Hardened)) = MM_OK"
    by (simp add: sample_free_def upd_desc_def boot_state_def)
  then show ?thesis
    using bin_insert_remove_refine [OF sample_free_rep(1), of "build Hardened" 4096] sample_free_rep(2)
      sample_free_node(1) [of "build Hardened"] sample_filed_bin by simp
qed


lemma sample_find: "find_spec (build Hardened) s ((\<lambda>_. [])(1 := [4096])) 48 = 4096"
proof -
  have "filter (\<lambda>i. ((\<lambda>_. [])(1 := [4096::nat])) i \<noteq> []) [0 + 1..<MM_BIN_COUNT] = [1]"
    by (subst upt_conv_Cons) (auto simp: filter_empty_conv)
  then show ?thesis by (simp add: find_spec_def sample_filed_bin)
qed

theorem bin_find_good_fit_witness:
  "fst (mm_bin_find (build Hardened) 48 (mm_bin_insert (build Hardened) 4096 (sample_free (build Hardened)))) = 4096"
  using bin_find_good_fit [OF sample_filed_rep, of 48 "build Hardened"] sample_find by (simp add: sample_filed_bin)

theorem bins_check_decides_witness:
  "fst (mm_bins_check (build Hardened) (\<lambda>i. if i = 1 then 1 else 0)
     (mm_bin_insert (build Hardened) 4096 (sample_free (build Hardened)))) = MM_OK"
proof -
  have "bins_rep (build Hardened) (mm_bin_insert (build Hardened) 4096 (sample_free (build Hardened)))
      ((\<lambda>_. [])(1 := [4096]))"
    using sample_filed_rep [of "build Hardened"] by (simp add: sample_filed_bin)
  then show ?thesis
    unfolding bins_check_decides bins_rep_def by (intro exI [of _ "(\<lambda>_. [])(1 := [4096])"]) (simp add: mm_max_blocks_def)
qed
end
