(* ===== verification/Mars_Heap.thy ===== *)
theory Mars_Heap
  imports Mars_Check Mars_Bins
begin

unbundle bit_operations_syntax

text \<open>
  What a consistent heap is, stated without the walk that checks it, and the theorem that
  \<^verbatim>\<open>mm_check_heap\<close> decides exactly that: every span is tiled by valid blocks from its first byte to
  its last, no two free blocks touch, every \<^verbatim>\<open>prev-in-use\<close> bit and free footer tells the truth about
  the neighbour, every used block's canary is intact, the quarantined bytes add up, and the bins are
  well-formed lists holding as many blocks of each class as the walk found free.
\<close>

section \<open>Tiled spans\<close>

definition block_inv :: "mm_config \<Rightarrow> mm_state \<Rightarrow> bool \<Rightarrow> nat \<Rightarrow> bool" where
  "block_inv c st pf p \<longleftrightarrow>
     mm_header_ok c st p \<and> mm_prev_in_use (mem st) p = (\<not> pf) \<and> mm_canary_ok c st p \<and>
     (\<not> mm_is_used (mem st) p \<longrightarrow>
        load64 (mem st) (mm_block_end (mem st) p - 8) = of_nat (mm_block_size (mem st) p) \<and> \<not> pf)"

text \<open>\<open>tiled c st z pf p bs\<close>: the blocks \<open>bs\<close> lie end to end from \<open>p\<close> to \<open>z\<close>; \<open>pf\<close> says whether the block
  before \<open>p\<close> is free.\<close>

fun tiled :: "mm_config \<Rightarrow> mm_state \<Rightarrow> nat \<Rightarrow> bool \<Rightarrow> nat \<Rightarrow> nat list \<Rightarrow> bool" where
  "tiled c st z pf p [] \<longleftrightarrow> p = z"
| "tiled c st z pf p (b # bs) \<longleftrightarrow>
     b = p \<and> p < z \<and> block_inv c st pf p \<and>
     tiled c st z (\<not> mm_is_used (mem st) p) (p + mm_block_size (mem st) p) bs"

definition free_of_bin :: "mm_config \<Rightarrow> mm_state \<Rightarrow> nat \<Rightarrow> nat list \<Rightarrow> nat list" where
  "free_of_bin c st i bs =
     filter (\<lambda>b. \<not> mm_is_used (mem st) b \<and> mm_bin_of c (mm_block_size (mem st) b) = i) bs"

definition quarantined_total :: "mm_state \<Rightarrow> nat list \<Rightarrow> nat" where
  "quarantined_total st bs =
     (\<Sum>b \<leftarrow> filter (\<lambda>b. mm_is_used (mem st) b \<and> mm_is_quarantined (mem st) b) bs. mm_block_size (mem st) b)"

definition heap_ok :: "mm_config \<Rightarrow> mm_state \<Rightarrow> (nat \<Rightarrow> nat list) \<Rightarrow> (nat \<Rightarrow> nat list) \<Rightarrow> bool" where
  "heap_ok c st T L \<longleftrightarrow>
     spans (g_arena st) \<noteq> [] \<and>
     (\<forall>s \<in> set (spans (g_arena st)). tiled c st (hi (descs st s)) False (lo (descs st s)) (T s)) \<and>
     quarantined_total st (concat (map T (spans (g_arena st)))) = lost_bytes (g_arena st) \<and>
     (\<forall>i < MM_BIN_COUNT. bin_rep c st i (L i) \<and> length (L i) \<le> mm_max_blocks c st \<and>
        length (L i) = length (free_of_bin c st i (concat (map T (spans (g_arena st))))))"

lemma tiled_bounds:
  "tiled c st z pf p bs \<Longrightarrow> p \<le> z \<and> length bs * MM_MIN_BLOCK c \<le> z - p \<and>
     (\<Sum>b \<leftarrow> bs. mm_block_size (mem st) b) = z - p"
proof (induction bs arbitrary: pf p)
  case (Cons b bs)
  then have "MM_MIN_BLOCK c \<le> mm_block_size (mem st) p"
    using mm_is_block_bounds(3) mm_header_ok_is_block by (auto simp: block_inv_def)
  then show ?case using Cons by (auto dest!: Cons.IH)
qed simp

lemma tiled_unique: "tiled c st z pf p bs \<Longrightarrow> tiled c st z pf p bs' \<Longrightarrow> bs = bs'"
proof (induction bs arbitrary: pf p bs')
  case Nil
  then show ?case by (cases bs') auto
next
  case (Cons b bs)
  then show ?case by (cases bs') auto
qed

section \<open>The walk\<close>

definition acc_add :: "mm_config \<Rightarrow> mm_state \<Rightarrow> nat list \<Rightarrow> check_acc \<Rightarrow> check_acc \<Rightarrow> bool" where
  "acc_add c st bs k k' \<longleftrightarrow>
     covered k' = covered k + (\<Sum>b \<leftarrow> bs. mm_block_size (mem st) b) \<and>
     lost k' = lost k + quarantined_total st bs \<and>
     per_bin k' = (\<lambda>i. per_bin k i + length (free_of_bin c st i bs))"

lemma check_block_iff:
  assumes "have_prev k \<or> \<not> prev_free k"
  shows "case check_block c st p k of
      Inl e \<Rightarrow> \<not> block_inv c st (prev_free k) p
    | Inr k' \<Rightarrow> block_inv c st (prev_free k) p \<and> acc_add c st [p] k k' \<and> have_prev k' \<and>
        prev_free k' = (\<not> mm_is_used (mem st) p)"
  using assms mm_header_ok_is_block [of c st p]
  by (auto simp: check_block_def block_inv_def Let_def acc_add_def quarantined_total_def free_of_bin_def
      mm_block_end_def fun_eq_iff)

lemma acc_add_Nil: "acc_add c st [] k k"
  by (simp add: acc_add_def quarantined_total_def free_of_bin_def)

lemma acc_add_append: "acc_add c st bs k k' \<Longrightarrow> acc_add c st bs' k' k'' \<Longrightarrow> acc_add c st (bs @ bs') k k''"
  by (auto simp: acc_add_def quarantined_total_def free_of_bin_def)

lemma acc_add_Cons: "acc_add c st [p] k k' \<Longrightarrow> acc_add c st bs k' k'' \<Longrightarrow> acc_add c st (p # bs) k k''"
  using acc_add_append [of c st "[p]" k k' bs k''] by simp

lemma check_walk_sound:
  "check_walk c st d budget p k = Inr k' \<Longrightarrow> have_prev k \<or> \<not> prev_free k \<Longrightarrow> p \<le> hi d \<Longrightarrow>
     \<exists>bs. acc_add c st bs k k' \<and>
       (covered k' = covered k + (hi d - p) \<longrightarrow> tiled c st (hi d) (prev_free k) p bs)"
proof (induction budget arbitrary: p k)
  case 0
  then show ?case by (auto intro!: exI [of _ "[]"] simp: acc_add_Nil split: if_splits)
next
  case (Suc budget)
  show ?case
  proof (cases "p < hi d")
    case False
    then show ?thesis using Suc.prems by (auto intro!: exI [of _ "[]"] simp: acc_add_Nil)
  next
    case True
    let ?n = "mm_block_size (mem st) p"
    obtain k1 where k1: "check_block c st p k = Inr k1" "check_walk c st d budget (p + ?n) k1 = Inr k'"
      using Suc.prems(1) True by (auto split: sum.splits)
    have b: "block_inv c st (prev_free k) p" "acc_add c st [p] k k1" "have_prev k1"
        "prev_free k1 = (\<not> mm_is_used (mem st) p)"
      using check_block_iff [OF Suc.prems(2), of c st p] k1(1) by simp_all
    have cov: "covered k1 = covered k + ?n" using b(2) by (simp add: acc_add_def)
    show ?thesis
    proof (cases "p + ?n \<le> hi d")
      case le: True
      obtain bs where bs: "acc_add c st bs k1 k'"
          "covered k' = covered k1 + (hi d - (p + ?n)) \<longrightarrow> tiled c st (hi d) (prev_free k1) (p + ?n) bs"
        using Suc.IH [OF k1(2) _ le] b(3) by blast
      have "tiled c st (hi d) (prev_free k) p (p # bs)" if "covered k' = covered k + (hi d - p)"
        using bs(2) that cov le True b(1,4) by simp
      then show ?thesis using acc_add_Cons [OF b(2) bs(1)] by blast
    next
      case False
      have "check_walk c st d budget (p + ?n) k1 = Inr k1" using False by (cases budget) auto
      then have "k' = k1" using k1(2) by simp
      then show ?thesis using b(2) cov False True by (intro exI [of _ "[p]"]) simp
    qed
  qed
qed

lemma check_walk_complete:
  "tiled c st (hi d) (prev_free k) p bs \<Longrightarrow> have_prev k \<or> \<not> prev_free k \<Longrightarrow> length bs \<le> budget \<Longrightarrow>
     \<exists>k'. check_walk c st d budget p k = Inr k' \<and> acc_add c st bs k k'"
proof (induction budget arbitrary: p k bs)
  case 0
  then show ?case by (auto simp: acc_add_Nil)
next
  case (Suc budget)
  show ?case
  proof (cases bs)
    case Nil
    then show ?thesis using Suc.prems by (auto simp: acc_add_Nil)
  next
    case (Cons b bs')
    let ?n = "mm_block_size (mem st) p"
    have t: "p < hi d" "block_inv c st (prev_free k) p"
        "tiled c st (hi d) (\<not> mm_is_used (mem st) p) (p + ?n) bs'" "bs = p # bs'"
      using Suc.prems(1) Cons by simp_all
    then obtain k1 where k1: "check_block c st p k = Inr k1" "acc_add c st [p] k k1" "have_prev k1"
        "prev_free k1 = (\<not> mm_is_used (mem st) p)"
      using check_block_iff [OF Suc.prems(2), of c st p] by (cases "check_block c st p k") auto
    have "tiled c st (hi d) (prev_free k1) (p + ?n) bs'" using t(3) k1(4) by simp
    then obtain k' where "check_walk c st d budget (p + ?n) k1 = Inr k'" "acc_add c st bs' k1 k'"
      using Suc.IH [of k1 "p + ?n" bs'] k1(3) Suc.prems(3) t(4) by auto
    then show ?thesis using k1(1) t(1,4) acc_add_Cons [OF k1(2)] by auto
  qed
qed

text \<open>The step budget of a span is never what stops the walk of a tiled span.\<close>

lemma tiled_budget:
  assumes "tiled c st (hi d) pf (lo d) bs"
  shows "length bs \<le> mm_span_max_blocks c d"
proof -
  note b = tiled_bounds [OF assms]
  have "0 < MM_MIN_BLOCK c" using layout_bounds(6) [of c] by linarith
  then have "length bs \<le> (hi d - lo d) div MM_MIN_BLOCK c" using b by (simp add: less_eq_div_iff_mult_less_eq)
  then show ?thesis using b by (simp add: mm_span_max_blocks_def)
qed

lemma acc_add_reset:
  "acc_add c st bs (k\<lparr>covered := 0, have_prev := False, prev_free := False\<rparr>) k' \<Longrightarrow>
     acc_add c st bs k (k'\<lparr>covered := covered k + covered k'\<rparr>)"
  by (simp add: acc_add_def)

lemma check_span_iff:
  assumes "lo d \<le> hi d"
  shows "case check_span c st d k of
      Inl e \<Rightarrow> \<forall>bs. \<not> tiled c st (hi d) False (lo d) bs
    | Inr k' \<Rightarrow> \<exists>bs. tiled c st (hi d) False (lo d) bs \<and> lost k' = lost k + quarantined_total st bs \<and>
        per_bin k' = (\<lambda>i. per_bin k i + length (free_of_bin c st i bs))"
proof -
  let ?k = "k\<lparr>covered := 0, have_prev := False, prev_free := False\<rparr>" and ?B = "mm_span_max_blocks c d"
  have compl: "\<exists>k'. check_walk c st d ?B (lo d) ?k = Inr k' \<and> acc_add c st bs ?k k' \<and> covered k' = hi d - lo d"
    if "tiled c st (hi d) False (lo d) bs" for bs
    using check_walk_complete [of c st d ?k "lo d" bs ?B] tiled_budget [OF that] tiled_bounds [OF that] that
    by (auto simp: acc_add_def)
  show ?thesis
  proof (cases "check_walk c st d ?B (lo d) ?k")
    case (Inl e)
    then show ?thesis using compl by (fastforce simp: check_span_def)
  next
    case (Inr k')
    show ?thesis
    proof (cases "covered k' = hi d - lo d")
      case True
      then obtain bs where "acc_add c st bs ?k k'" "tiled c st (hi d) False (lo d) bs"
        using check_walk_sound [OF Inr _ assms] by auto
      then show ?thesis using Inr True assms by (auto simp: check_span_def acc_add_def)
    next
      case False
      then show ?thesis using Inr assms compl by (fastforce simp: check_span_def)
    qed
  qed
qed

lemma check_spans_iff:
  assumes "\<forall>s \<in> set ss. lo (descs st s) \<le> hi (descs st s)"
  shows "case check_spans c st ss k of
      Inl e \<Rightarrow> \<not> (\<exists>T. \<forall>s \<in> set ss. tiled c st (hi (descs st s)) False (lo (descs st s)) (T s))
    | Inr k' \<Rightarrow> \<exists>T. (\<forall>s \<in> set ss. tiled c st (hi (descs st s)) False (lo (descs st s)) (T s)) \<and>
        lost k' = lost k + quarantined_total st (concat (map T ss)) \<and>
        per_bin k' = (\<lambda>i. per_bin k i + length (free_of_bin c st i (concat (map T ss))))"
  using assms
proof (induction ss arbitrary: k)
  case Nil
  show ?case by (simp add: quarantined_total_def free_of_bin_def)
next
  case (Cons s ss)
  have s: "lo (descs st s) \<le> hi (descs st s)" using Cons.prems by simp
  note span = check_span_iff [OF s, of c st k]
  show ?case
  proof (cases "check_span c st (descs st s) k")
    case (Inl e)
    then show ?thesis using span by auto
  next
    case (Inr k1)
    then obtain bs where bs: "tiled c st (hi (descs st s)) False (lo (descs st s)) bs"
        "lost k1 = lost k + quarantined_total st bs"
        "per_bin k1 = (\<lambda>i. per_bin k i + length (free_of_bin c st i bs))" using span by auto
    note rest = Cons.IH [of k1]
    show ?thesis
    proof (cases "check_spans c st ss k1")
      case (Inl e)
      then show ?thesis using rest Cons.prems Inr by auto
    next
      case (Inr k')
      then obtain T where T: "\<forall>s \<in> set ss. tiled c st (hi (descs st s)) False (lo (descs st s)) (T s)"
          "lost k' = lost k1 + quarantined_total st (concat (map T ss))"
          "per_bin k' = (\<lambda>i. per_bin k1 i + length (free_of_bin c st i (concat (map T ss))))"
        using rest Cons.prems by auto
      let ?T = "T(s := bs)"
      have same: "map ?T ss = map T ss"
      proof (rule map_cong [OF refl])
        fix x assume "x \<in> set ss"
        then show "?T x = T x" using T(1) bs(1) tiled_unique by (cases "x = s") auto
      qed
      have cat: "concat (map ?T (s # ss)) = bs @ concat (map T ss)" by (simp add: same)
      have "\<forall>s' \<in> set (s # ss). tiled c st (hi (descs st s')) False (lo (descs st s')) (?T s')"
        using T(1) bs(1) by auto
      moreover have "lost k' = lost k + quarantined_total st (concat (map ?T (s # ss)))"
        unfolding cat T(2) bs(2) by (simp add: quarantined_total_def)
      moreover have "per_bin k' = (\<lambda>i. per_bin k i + length (free_of_bin c st i (concat (map ?T (s # ss)))))"
        unfolding cat T(3) bs(3) by (simp add: free_of_bin_def add.assoc)
      ultimately have "\<exists>T. (\<forall>s' \<in> set (s # ss). tiled c st (hi (descs st s')) False (lo (descs st s')) (T s')) \<and>
          lost k' = lost k + quarantined_total st (concat (map T (s # ss))) \<and>
          per_bin k' = (\<lambda>i. per_bin k i + length (free_of_bin c st i (concat (map T (s # ss)))))" by blast
      then show ?thesis unfolding check_spans.simps \<open>check_span c st (descs st s) k = Inr k1\<close> sum.case Inr .
    qed
  qed
qed

lemma check_walk_error: "check_walk c st d budget p k = Inl e \<Longrightarrow> e \<noteq> MM_OK"
proof (induction budget arbitrary: p k)
  case (Suc budget)
  have "check_block c st p k = Inl e \<Longrightarrow> e \<noteq> MM_OK" by (auto simp: check_block_def Let_def split: if_splits)
  then show ?case using Suc by (auto split: if_splits sum.splits)
qed (auto split: if_splits)

lemma check_spans_error: "check_spans c st ss k = Inl e \<Longrightarrow> e \<noteq> MM_OK"
proof (induction ss arbitrary: k)
  case (Cons s ss)
  have "check_span c st (descs st s) k = Inl e \<Longrightarrow> e \<noteq> MM_OK"
    by (auto simp: check_span_def dest: check_walk_error split: if_splits sum.splits)
  then show ?case using Cons by (auto split: sum.splits)
qed simp

section \<open>The check decides consistency\<close>

lemma check_heap_iff:
  assumes "\<forall>s \<in> set (spans (g_arena st)). lo (descs st s) \<le> hi (descs st s)"
  shows "fst (check_heap_unlocked c st) = MM_OK \<longleftrightarrow> (\<exists>T L. heap_ok c st T L)"
proof -
  let ?ss = "spans (g_arena st)"
  let ?k = "\<lparr>covered = 0, lost = 0, per_bin = (\<lambda>_. 0), have_prev = False, prev_free = False\<rparr>"
  note walk = check_spans_iff [OF assms, of c ?k]
  show ?thesis
  proof (cases "?ss = []")
    case True
    then show ?thesis by (simp add: check_heap_unlocked_def mm_arena_live_def heap_ok_def)
  next
    case live: False
    show ?thesis
    proof (cases "check_spans c st ?ss ?k")
      case (Inl e)
      then have "e \<noteq> MM_OK" by (rule check_spans_error)
      then show ?thesis using Inl walk live by (auto simp: check_heap_unlocked_def mm_arena_live_def heap_ok_def)
    next
      case (Inr k)
      then obtain T where T: "\<forall>s \<in> set ?ss. tiled c st (hi (descs st s)) False (lo (descs st s)) (T s)"
          "lost k = quarantined_total st (concat (map T ?ss))"
          "per_bin k = (\<lambda>i. length (free_of_bin c st i (concat (map T ?ss))))"
        using walk by auto
      have uniq: "map T' ?ss = map T ?ss"
        if "\<forall>s \<in> set ?ss. tiled c st (hi (descs st s)) False (lo (descs st s)) (T' s)" for T'
        by (rule map_cong [OF refl]) (use that T(1) tiled_unique in blast)
      have "fst (check_heap_unlocked c st) = MM_OK \<longleftrightarrow>
          lost k = lost_bytes (g_arena st) \<and> fst (mm_bins_check c (per_bin k) st) = MM_OK"
        using live Inr by (simp add: check_heap_unlocked_def mm_arena_live_def)
      also have "\<dots> \<longleftrightarrow> (\<exists>L. heap_ok c st T L)"
        unfolding mm_bins_check_iff T(2,3) heap_ok_def using live T(1) by auto
      also have "\<dots> \<longleftrightarrow> (\<exists>T L. heap_ok c st T L)"
      proof
        assume "\<exists>T L. heap_ok c st T L"
        then obtain T' L where h: "heap_ok c st T' L" by blast
        then have "map T' ?ss = map T ?ss" by (intro uniq) (simp add: heap_ok_def)
        then show "\<exists>L. heap_ok c st T L" using h T(1) unfolding heap_ok_def by metis
      qed blast
      finally show ?thesis .
    qed
  qed
qed
section \<open>What a block of a heap depends on\<close>

lemma mm_block_index_cong:
  "same_registry st st' \<Longrightarrow> mm_block_index st' b = mm_block_index st b"
  using mm_span_of_cong [of st st' b] by (simp add: mm_block_index_def Let_def same_registry_def)

text \<open>The bytes that decide about a block besides its header: the canary of a used one, the footer of a
  free one.\<close>

definition tail_bytes_same :: "mm_config \<Rightarrow> nat \<Rightarrow> bytes \<Rightarrow> bytes \<Rightarrow> bool" where
  "tail_bytes_same c p m m' \<longleftrightarrow>
     (if mm_is_used m p then MM_HAS_CANARY c \<longrightarrow> mm_is_quarantined m p \<or> same_on (canary_at c m p) 8 m m'
      else same_on (mm_block_end m p - 8) 8 m m')"

lemma block_inv_cong:
  assumes "same_registry st st'" "secret (g_arena st') = secret (g_arena st)"
    and "same_on p (MM_HDR_SIZE c) (mem st) (mem st')" "tail_bytes_same c p (mem st) (mem st')"
  shows "block_inv c st' pf p \<longleftrightarrow> block_inv c st pf p"
proof -
  note h = header_fields_cong [OF assms(3)]
  have can: "canary_at c (mem st') p = canary_at c (mem st) p" by (simp add: canary_at_def h)
  have "mm_canary_ok c st' p \<longleftrightarrow> mm_canary_ok c st p"
    using assms(2,4) load64_cong [of "canary_at c (mem st) p" "mem st" "mem st'"]
    by (auto simp: mm_canary_ok_def h can mm_block_index_cong [OF assms(1)] tail_bytes_same_def)
  moreover have "mm_is_used (mem st) p \<or> load64 (mem st') (mm_block_end (mem st) p - 8) =
      load64 (mem st) (mm_block_end (mem st) p - 8)"
    using assms(4) load64_cong [of "mm_block_end (mem st) p - 8" "mem st" "mem st'"]
    by (auto simp: tail_bytes_same_def split: if_splits)
  ultimately show ?thesis
    using mm_header_ok_cong [OF assms(1-3)] by (auto simp: block_inv_def h)
qed

lemma tiled_cong:
  assumes "tiled c st z pf p bs" "same_registry st st'" "secret (g_arena st') = secret (g_arena st)"
    and "\<And>b. b \<in> set bs \<Longrightarrow> same_on b (MM_HDR_SIZE c) (mem st) (mem st') \<and> tail_bytes_same c b (mem st) (mem st')"
  shows "tiled c st' z pf p bs"
  using assms
proof (induction bs arbitrary: pf p)
  case (Cons b bs)
  then have b: "same_on p (MM_HDR_SIZE c) (mem st) (mem st')" "tail_bytes_same c p (mem st) (mem st')" by auto
  then show ?case
    using Cons block_inv_cong [OF Cons.prems(2,3) b] header_fields_cong(2,3) [OF b(1)] by simp
qed simp

text \<open>Link words lie between the header and the footer of a free block, so the free lists never touch
  what the walk looks at.\<close>

definition links_only :: "mm_config \<Rightarrow> nat set \<Rightarrow> bytes \<Rightarrow> bytes \<Rightarrow> bool" where
  "links_only c S m m' \<longleftrightarrow>
     (\<forall>a. m' a \<noteq> m a \<longrightarrow> (\<exists>x \<in> S. x + MM_HDR_SIZE c \<le> a \<and> a < x + MM_HDR_SIZE c + 16))"

lemma links_only_refl [simp]: "links_only c S m m"
  by (simp add: links_only_def)

lemma links_only_trans: "links_only c S m m' \<Longrightarrow> links_only c S m' m'' \<Longrightarrow> links_only c S m m''"
  unfolding links_only_def by metis

lemma links_only_mono: "links_only c S m m' \<Longrightarrow> S \<subseteq> S' \<Longrightarrow> links_only c S' m m'"
  unfolding links_only_def by blast

lemma links_only_set:
  assumes "b \<in> S"
  shows "links_only c S (mem st) (mem (set_link_next c b p st))"
    and "links_only c S (mem st) (mem (set_link_prev c b p st))"
  using assms
  by (auto simp: links_only_def set_link_next_def set_link_prev_def mm_free_link_set_def Let_def store64_def
      mem_write_def mm_payload_of_def MM_LINK_NEXT_def MM_LINK_PREV_def split: if_splits intro!: bexI [of _ b])

lemma links_only_set_trans:
  assumes "links_only c S m (mem st)" "b \<in> S"
  shows "links_only c S m (mem (set_link_next c b p st))" and "links_only c S m (mem (set_link_prev c b p st))"
  by (rule links_only_trans [OF assms(1)], rule links_only_set, rule assms(2))+

lemma links_only_push:
  assumes "b \<in> S" "bins (g_arena st) i = 0 \<or> bins (g_arena st) i \<in> S"
  shows "links_only c S (mem st) (mem (bin_push c b i st))"
  using assms by (auto simp: bin_push_def Let_def intro!: links_only_set_trans)

lemma links_only_unlink:
  assumes "link_next c st b = 0 \<or> link_next c st b \<in> S" "link_prev c st b = 0 \<or> link_prev c st b \<in> S"
  shows "links_only c S (mem st) (mem (bin_unlink c b i st))"
  using assms by (auto simp: bin_unlink_def Let_def intro!: links_only_set_trans)
end
