(* ===== verification/Mars_Init.thy ===== *)
theory Mars_Init
  imports Mars_Core Mars_Heap
begin

unbundle bit_operations_syntax

text \<open>
  Initialisation. \<^verbatim>\<open>mm_init\<close> resets every arena, whatever state it was in, installs the caller's
  buffer as the one span and files it as a single free block; the theorem shows that this is a
  consistent heap, on which every public check and operation starts.
\<close>

section \<open>Resetting\<close>

definition arena_cleared :: "mm_arena \<Rightarrow> bool" where
  "arena_cleared a \<longleftrightarrow> spans a = [] \<and> span_cache a = 0 \<and> total_bytes a = 0 \<and> lost_bytes a = 0 \<and>
     scrub_span a = 0 \<and> fresh_spans a = 0 \<and> \<not> growable a \<and>
     (\<forall>i < MM_BIN_COUNT. bins a i = 0) \<and> (\<forall>i < MM_BIN_WORDS. bin_bitmap a i = 0)"

lemma arena_cleared_upd [simp]:
  "arena_cleared (a\<lparr>secret := x\<rparr>) = arena_cleared a" "arena_cleared (a\<lparr>mode := y\<rparr>) = arena_cleared a"
  "arena_cleared (a\<lparr>claimed := z\<rparr>) = arena_cleared a" "arena_cleared (a\<lparr>epoch := e\<rparr>) = arena_cleared a"
  "arena_cleared (mm_remote_forget a) = arena_cleared a"
  by (simp_all add: arena_cleared_def mm_remote_forget_def)

lemma mm_arena_reset_cleared: "arena_cleared (g_arena (mm_arena_reset st))"
  by (simp add: mm_arena_reset_def mm_bins_reset_def Let_def arena_cleared_def)

lemma index_dels_arenas [frame_simps]:
  "arenas (foldl (\<lambda>st u. index_del (of_nat u) st) st us) = arenas st"
  "mm_self (foldl (\<lambda>st u. index_del (of_nat u) st) st us) = mm_self st"
  by (induction us arbitrary: st) (simp_all add: frame_simps)

lemma reset_span_frame:
  "mm_self (reset_span s st) = mm_self st" "a \<noteq> mm_self st \<Longrightarrow> arenas (reset_span s st) a = arenas st a"
  by (auto simp: reset_span_def mm_span_unregister_def Let_def frame_simps upd_arena_def upd_desc_def
      sys_unmap_def span_desc_free_def)

lemma reset_spans_frame:
  "mm_self (foldl (\<lambda>st s. reset_span s st) st ss) = mm_self st"
  "a \<noteq> mm_self st \<Longrightarrow> arenas (foldl (\<lambda>st s. reset_span s st) st ss) a = arenas st a"
  by (induction ss arbitrary: st) (simp_all add: reset_span_frame)

lemma mm_arena_reset_frame:
  "mm_self (mm_arena_reset st) = mm_self st"
  "a \<noteq> mm_self st \<Longrightarrow> arenas (mm_arena_reset st) a = arenas st a"
  by (simp_all add: mm_arena_reset_def mm_bins_reset_def Let_def upd_arena_def reset_spans_frame)

lemma mm_arenas_reset_cleared:
  assumes "cfg_lock c = MM_LOCK_ARENA \<Longrightarrow> g_main_arena \<in> set (g_arenas st)"
  shows "arena_cleared (g_arena (mm_arenas_reset c st))"
proof (cases "cfg_lock c = MM_LOCK_ARENA")
  case False
  then show ?thesis by (simp add: mm_arenas_reset_def mm_arena_reset_cleared)
next
  case True
  let ?f = "\<lambda>st a. let st = st\<lparr>mm_self := a\<rparr>; st = mm_arena_reset st
      in upd_arena (\<lambda>r. (mm_remote_forget r)\<lparr>claimed := False\<rparr>) st"
  have step: "arena_cleared (arenas (?f st a) b)" if "a = b \<or> arena_cleared (arenas st b)" for st a b
  proof (cases "a = b")
    case True
    then show ?thesis
      using mm_arena_reset_cleared [of "st\<lparr>mm_self := a\<rparr>"]
      by (simp add: Let_def upd_arena_def mm_arena_reset_frame g_arena_def)
  next
    case False
    then show ?thesis using that by (simp add: Let_def upd_arena_def mm_arena_reset_frame)
  qed
  have keep: "arena_cleared (arenas st b) \<Longrightarrow> arena_cleared (arenas (foldl ?f st as) b)" for st as b
    by (induction as arbitrary: st) (simp_all only: foldl.simps step simp_thms)
  have "b \<in> set as \<Longrightarrow> arena_cleared (arenas (foldl ?f st as) b)" for st as b
  proof (induction as arbitrary: st)
    case (Cons a as)
    then show ?case
    proof (cases "a = b")
      case True
      then have "arena_cleared (arenas (?f st a) b)" by (intro step) simp
      then show ?thesis unfolding foldl.simps by (rule keep)
    next
      case False
      then show ?thesis using Cons by simp
    qed
  qed simp
  then show ?thesis using True assms
    by (simp add: mm_arenas_reset_def Let_def upd_arena_def g_arena_def)
qed

section \<open>One free block over a whole span\<close>

definition write_first :: "mm_config \<Rightarrow> nat \<Rightarrow> nat \<Rightarrow> bytes \<Rightarrow> bytes" where
  "write_first c first usable m =
     (let m = set_word_at m first 0;
          m = (if MM_HAS_CRC c then set_payload_crc m first 0 else m);
          m = mm_set_word m first usable 0 False False
      in mm_set_prev_in_use m first True)"

lemma write_first_fields:
  assumes "usable < 2 ^ 58" "16 dvd usable"
  shows "mm_block_size (write_first c b usable m) b = usable" "\<not> mm_is_used (write_first c b usable m) b"
    "\<not> mm_is_quarantined (write_first c b usable m) b" "mm_prev_in_use (write_first c b usable m) b"
proof -
  have w: "mm_word (write_first c b usable m) b =
      w_set_prev_in_use (w_set_word (mm_word (if MM_HAS_CRC c then set_payload_crc (set_word_at m b 0) b 0
        else set_word_at m b 0) b) usable 0 False False) True"
    by (simp add: write_first_def Let_def mm_set_prev_in_use_def mm_set_word_def mem_simps)
  show "mm_block_size (write_first c b usable m) b = usable" "\<not> mm_is_used (write_first c b usable m) b"
    "\<not> mm_is_quarantined (write_first c b usable m) b" "mm_prev_in_use (write_first c b usable m) b"
    using set_word_fields [OF assms, of 0] by (simp_all add: mm_block_size_def mm_is_used_def
        mm_is_quarantined_def mm_prev_in_use_def w)
qed

lemma mm_seal_changes:
  assumes "MM_MIN_BLOCK c \<le> mm_block_size (mem st) b" "mem (mm_seal c b st) a \<noteq> mem st a"
  shows "b + 8 \<le> a \<and> a < b + 12 \<or>
    MM_HAS_MIRROR c \<and> mm_is_used (mem st) b \<and> mm_block_end (mem st) b - 16 \<le> a \<and> a < mm_block_end (mem st) b"
proof -
  define m where "m = set_hdr_crc (mem st) b (mm_hdr_crc_of (mem st) b (mm_block_index st b) (secret (g_arena st)))"
  define z where "z = mm_block_end (mem st) b"
  have w: "mm_word m b = mm_word (mem st) b" by (simp add: m_def mem_simps)
  have eq: "mem (mm_seal c b st) = (if MM_HAS_CRC c then if MM_HAS_MIRROR c \<and> mm_is_used (mem st) b
      then mem_write m (z - 16) (mem_read m b 16) else m else mem st)"
    using w by (simp add: mm_seal_def Let_def mm_is_used_def z_def mm_block_end_def mm_block_size_def
        MM_MIRROR_SIZE_def MM_HDR_SIZE_def MM_HAS_MIRROR_def MM_HAS_CRC_def flip: m_def)
  have crc: "m a \<noteq> mem st a \<Longrightarrow> b + 8 \<le> a \<and> a < b + 12"
    using set_hdr_crc_within [of b "mem st"] unfolding within_def m_def by (metis not_le)
  have "16 \<le> z" using assms(1) layout_bounds(6) [of c] by (simp add: z_def mm_block_end_def)
  then have "mem_write m (z - 16) (mem_read m b 16) a \<noteq> m a \<Longrightarrow> z - 16 \<le> a \<and> a < z"
    by (simp add: mem_write_def split: if_splits)
  then show ?thesis using assms(2) crc eq unfolding z_def
    by (cases "MM_HAS_CRC c"; cases "MM_HAS_MIRROR c \<and> mm_is_used (mem st) b"; force)
qed

text \<open>Publishing a free block that is the whole of its span: header, footer, nothing to tell a neighbour.\<close>

lemma publish_whole_span:
  assumes blk: "mm_is_block c st b" and free: "\<not> mm_is_used (mem st) b"
    and whole: "mm_block_end (mem st) b = hi (descs st (mm_span_of st b))"
  shows "mm_publish c b st = (True, mm_seal c b (upd_mem (\<lambda>m. mm_write_free_footer m b) st))"
    and "node_ok c (snd (mm_publish c b st)) b (mm_bin_of c (mm_block_size (mem st) b))"
    and "mm_prev_in_use (mem st) b \<Longrightarrow> block_inv c (snd (mm_publish c b st)) False b"
    and "mm_block_size (mem (snd (mm_publish c b st))) b = mm_block_size (mem st) b"
proof -
  let ?f = "upd_mem (\<lambda>m. mm_write_free_footer m b) st"
  let ?s = "mm_seal c b ?f"
  note bd = mm_is_block_bounds [OF blk]
  have far: "b + 16 + 8 \<le> mm_block_end (mem st) b"
    using bd(3) layout_bounds(6) [of c] by (simp add: mm_block_end_def)
  have hdr: "same_on b (MM_HDR_SIZE c) (mem st) (mem ?f)"
    unfolding upd_simps mm_write_free_footer_def Let_def
    by (rule same_on_store64) (use far layout_bounds(2) [of c] in simp)
  note h = header_fields_cong [OF hdr]
  have min: "MM_MIN_BLOCK c \<le> mm_block_size (mem ?f) b" using bd(3) h(2) by simp
  note sf = mm_seal_fields [OF min]
  have "same_on b 8 (mem st) (mem ?f)" using hdr layout_bounds(1) [of c] by (auto simp: same_on_def)
  then have blkf: "mm_is_block c ?f b" using blk mm_is_block_cong [of st ?f b c] by simp
  then have ok: "mm_header_ok c ?s b" by (rule mm_seal_header_ok)
  have "mm_block_end (mem ?s) b = mm_block_end (mem st) b" using sf(6) h(7) by simp
  then have nx: "mm_recover_next c b ?s = (0, ?s)"
    using whole by (simp add: mm_recover_next_def Let_def)
  show pub: "mm_publish c b st = (True, ?s)" using blk free nx by (simp add: mm_publish_def Let_def)
  show "mm_block_size (mem (snd (mm_publish c b st))) b = mm_block_size (mem st) b" using pub sf(1) h(2) by simp
  show "node_ok c (snd (mm_publish c b st)) b (mm_bin_of c (mm_block_size (mem st) b))"
    using pub ok mm_header_ok_is_block [OF ok] sf h free by (simp add: node_ok_def)
  show "block_inv c (snd (mm_publish c b st)) False b" if pu: "mm_prev_in_use (mem st) b"
  proof -
    have "load64 (mem ?f) (mm_block_end (mem st) b - 8) = of_nat (mm_block_size (mem st) b)"
      by (simp add: mm_write_free_footer_def Let_def)
    moreover have "mem ?s a = mem ?f a" if "b + 16 \<le> a" for a
      by (rule ccontr) (use mm_seal_changes [OF min, of a] h(3) free that in simp)
    then have "same_on (mm_block_end (mem st) b - 8) 8 (mem ?s) (mem ?f)"
      using far by (auto simp: same_on_def)
    ultimately have "load64 (mem ?s) (mm_block_end (mem st) b - 8) = of_nat (mm_block_size (mem st) b)"
      using load64_cong [of "mm_block_end (mem st) b - 8" "mem ?s" "mem ?f"] by metis
    moreover have "\<not> mm_is_used (mem ?s) b" "mm_prev_in_use (mem ?s) b"
        "mm_block_end (mem ?s) b = mm_block_end (mem st) b" "mm_block_size (mem ?s) b = mm_block_size (mem st) b"
      using sf h free pu by simp_all
    ultimately show ?thesis using pub ok by (simp add: block_inv_def mm_canary_ok_def)
  qed
qed

lemma upd_mem_upd_mem [simp]: "upd_mem f (upd_mem g st) = upd_mem (\<lambda>m. f (g m)) st"
  by (simp add: upd_mem_def)

lemma write_first_steps:
  "(let st = upd_mem (\<lambda>m. set_word_at m b 0) st;
        st = (if MM_HAS_CRC c then upd_mem (\<lambda>m. set_payload_crc m b 0) st else st);
        st = upd_mem (\<lambda>m. mm_set_word m b n 0 False False) st
    in upd_mem (\<lambda>m. mm_set_prev_in_use m b True) st) = upd_mem (write_first c b n) st"
  by (simp add: write_first_def [abs_def] Let_def)

text \<open>The free lists leave a block of the heap as it was, unless the block is too small to keep its links
  clear of its footer, which no block is.\<close>

lemma links_only_block:
  assumes "links_only c {p} (mem st) (mem st')" "MM_MIN_BLOCK c \<le> mm_block_size (mem st) p"
    "\<not> mm_is_used (mem st) p"
  shows "same_on p (MM_HDR_SIZE c) (mem st) (mem st') \<and> tail_bytes_same c p (mem st) (mem st')"
proof -
  have lowb: "a < p + MM_HDR_SIZE c \<Longrightarrow> mem st' a = mem st a"
    and highb: "p + MM_HDR_SIZE c + 16 \<le> a \<Longrightarrow> mem st' a = mem st a" for a
    using assms(1) unfolding links_only_def by (metis not_le singletonD)+
  show ?thesis
    using assms(2,3) layout_bounds(3) [of c] lowb highb by (auto simp: same_on_def tail_bytes_same_def mm_block_end_def)
qed

text \<open>The state in which the first block of a fresh span is filed.\<close>

lemma file_first_block:
  assumes empty: "\<forall>i < MM_BIN_COUNT. bins (g_arena st) i = 0" "\<forall>i < MM_BIN_WORDS. bin_bitmap (g_arena st) i = 0"
    and blk: "mm_is_block c st b" "\<not> mm_is_used (mem st) b" "mm_prev_in_use (mem st) b"
      "mm_block_end (mem st) b = hi (descs st (mm_span_of st b))" "b < 2 ^ 64"
  defines "st' \<equiv> mm_bin_insert c b (snd (mm_publish c b st))" and "i \<equiv> mm_bin_of c (mm_block_size (mem st) b)"
  shows "bins_rep c st' ((\<lambda>_. [])(i := [b]))" "block_inv c st' False b" "same_registry st st'"
    "mm_block_size (mem st') b = mm_block_size (mem st) b" "\<not> mm_is_used (mem st') b"
    "g_arena st' = bitmap_set i ((g_arena st)\<lparr>bins := (bins (g_arena st))(i := b)\<rparr>)" "descs st' = descs st"
    "mm_self st' = mm_self st"
proof -
  let ?p = "snd (mm_publish c b st)"
  note pub = publish_whole_span [OF blk(1,2,4)]
  have ga: "g_arena ?p = g_arena st" "same_registry st ?p" "descs ?p = descs st" "mm_self ?p = mm_self st"
    using pub(1) by (simp_all add: same_registry_def)
  have i: "i < MM_BIN_COUNT" unfolding i_def by (rule mm_bin_of_less [OF mm_block_size_less])
  have "bitmap_test (g_arena ?p) j = False" if "j < MM_BIN_COUNT" for j
    using empty(2) that by (simp add: ga bitmap_test_def less_mult_imp_div_less)
  then have rep: "bins_rep c ?p (\<lambda>_. [])"
    using empty(1) by (simp add: bins_rep_def bin_rep_def ga blocks_ok_def members_def)
  have fit: "fileable c ?p (\<lambda>_. []) b" using pub(2,4) blk(5) by (simp add: fileable_def members_def)
  note ins = mm_bin_insert_push [OF rep fit]
  have eq: "st' = bin_push c b i ?p" using ins(1) pub(4) by (simp add: st'_def i_def)
  show "bins_rep c st' ((\<lambda>_. [])(i := [b]))" using ins(2) pub(4) by (simp add: st'_def i_def)
  show reg: "same_registry st st'" using ga(2) bin_push_frame(5) [of ?p c b i] eq by (simp add: same_registry_def)
  show ga': "g_arena st' = bitmap_set i ((g_arena st)\<lparr>bins := (bins (g_arena st))(i := b)\<rparr>)" "descs st' = descs st"
    "mm_self st' = mm_self st"
    using empty(1) i unfolding eq by (simp_all add: bin_push_def Let_def ga set_link_next_def set_link_prev_def)
  have head: "bins (g_arena ?p) i = 0" using empty(1) i by (simp add: ga)
  have min: "MM_MIN_BLOCK c \<le> mm_block_size (mem ?p) b" using mm_is_block_bounds(3) [OF blk(1)] pub(4) by simp
  have free: "\<not> mm_is_used (mem ?p) b" using pub(2) by (simp add: node_ok_def)
  have same: "same_on b (MM_HDR_SIZE c) (mem ?p) (mem st') \<and> tail_bytes_same c b (mem ?p) (mem st')"
    unfolding eq by (rule links_only_block [OF links_only_push [of b "{b}"]]) (use head min free in simp_all)
  note h = header_fields_cong [OF conjunct1 [OF same]]
  show "mm_block_size (mem st') b = mm_block_size (mem st) b" "\<not> mm_is_used (mem st') b"
    using h(2,3) pub(4) free by simp_all
  have "same_registry ?p st'" using reg ga(2) by (simp add: same_registry_def)
  moreover have "secret (g_arena st') = secret (g_arena ?p)" by (simp add: ga' ga)
  ultimately show "block_inv c st' False b"
    using block_inv_cong [of ?p st' b c False] same pub(3) [OF blk(3)] by simp
qed

section \<open>mm_init\<close>

lemma desc_simps [simp]:
  "g_arena (upd_desc s f st) = g_arena st" "g_arena (st\<lparr>g_user := u\<rparr>) = g_arena st"
  "descs (upd_desc s f st) = (descs st)(s := f (descs st s))" "mem (upd_desc s f st) = mem st"
  "mm_self (upd_desc s f st) = mm_self st" "g_user (upd_desc s f st) = g_user st"
  by (simp_all add: upd_desc_def g_arena_def)

lemma mm_init_state:
  assumes "heap \<noteq> 0" "heap mod 16 = 0" "mm_min_arena c \<le> heap_size" "heap + heap_size \<le> 2 ^ 64" "heap_size < 2 ^ 58"
    and "cfg_lock c = MM_LOCK_ARENA \<Longrightarrow> g_main_arena \<in> set (g_arenas st)"
  defines "first \<equiv> heap + MM_BLOCK_OFFSET c"
    and "usable \<equiv> (heap_size - MM_BLOCK_OFFSET c) div 16 * 16"
  obtains st' where "mm_init c heap heap_size st = (True, st')"
    "mm_block_size (mem st') first = usable"
    "heap_ok c st' (\<lambda>_. [first]) ((\<lambda>_. [])(mm_bin_of c usable := [first]))"
    "spans (g_arena st') = [user_desc]" "g_user st' = user_desc" "span_cache (g_arena st') = 0"
    "kind (descs st' user_desc) = MM_SPAN_USER" "lo (descs st' user_desc) = first"
    "hi (descs st' user_desc) = first + usable" "total_bytes (g_arena st') = usable"
    "fresh_spans (g_arena st') = 0" "\<not> growable (g_arena st')" "scrub_span (g_arena st') = user_desc"
    "scrub_at (g_arena st') = first" "mode (g_arena st') = MM_MODE_MANAGED"
proof -
  have off: "MM_BLOCK_OFFSET c + MM_MIN_BLOCK c \<le> heap_size" using assms(3) by (simp add: mm_min_arena_def)
  have us: "usable < 2 ^ 58" "16 dvd usable" "usable \<le> heap_size - MM_BLOCK_OFFSET c" "MM_MIN_BLOCK c \<le> usable"
  proof -
    show le: "usable \<le> heap_size - MM_BLOCK_OFFSET c" by (simp add: usable_def)
    then show "usable < 2 ^ 58" using assms(5) by linarith
    have "MM_MIN_BLOCK c div 16 * 16 \<le> usable"
      unfolding usable_def using off by (intro mult_le_mono1 div_le_mono) simp
    then show "MM_MIN_BLOCK c \<le> usable" using layout_bounds(7) [of c] by simp
  qed (simp add: usable_def)
  have down: "heap_size - MM_BLOCK_OFFSET c - (heap_size - MM_BLOCK_OFFSET c) mod 16 = usable"
    unfolding usable_def by (simp add: minus_mod_eq_div_mult)
  let ?r = "mm_arenas_reset c (mm_clear_error st)"
  have cl: "arena_cleared (g_arena ?r)"
    by (rule mm_arenas_reset_cleared) (use assms(6) in \<open>simp add: mm_clear_error_def\<close>)
  define st0 where "st0 = upd_mem (\<lambda>m. mem_fill m heap heap_size 0)
    (upd_arena (\<lambda>a. a\<lparr>secret := mm_draw_secret ?r, mode := MM_MODE_MANAGED\<rparr>) ?r)"
  have cl0: "arena_cleared (g_arena st0)" using cl by (simp add: st0_def)
  define d where "d = \<lparr>magic = mm_span_magic_for user_desc, lo = first, hi = first + usable, owner = mm_self st0,
    index_base = next_index_base (g_arena st0), map_base = 0, map_size = 0, kind = MM_SPAN_USER, fresh = False,
    trim_after = 0\<rparr>"
  define st1 where "st1 = upd_arena (\<lambda>a. a\<lparr>spans := user_desc # spans a, span_count := span_count a + 1,
    total_bytes := total_bytes a + usable, next_index_base := next_index_base a + of_nat (usable div 16)\<rparr>)
    (upd_desc user_desc (\<lambda>_. d) st0\<lparr>g_user := user_desc\<rparr>)"
  define st2 where "st2 = upd_mem (write_first c first usable) st1"
  have d2: "descs st2 user_desc = d" "g_user st2 = user_desc" "span_cache (g_arena st2) = 0"
    "spans (g_arena st2) = [user_desc]" "total_bytes (g_arena st2) = usable" "lost_bytes (g_arena st2) = 0"
    "scrub_span (g_arena st2) = 0"
    "fresh_spans (g_arena st2) = 0" "\<not> growable (g_arena st2)"
    "\<forall>i < MM_BIN_COUNT. bins (g_arena st2) i = 0" "\<forall>i < MM_BIN_WORDS. bin_bitmap (g_arena st2) i = 0"
    using cl0 by (simp_all add: st2_def st1_def arena_cleared_def)
  have md2: "mode (g_arena st2) = MM_MODE_MANAGED" by (simp add: st2_def st1_def st0_def)
  have user_nz: "user_desc \<noteq> 0" "0 < user_desc" by (simp_all add: user_desc_def)
  note wf = write_first_fields [OF us(1,2), of c first "mem st1"]
  have span: "mm_span_of st2 first = user_desc"
    using us(4) layout_bounds(6) [of c] by (simp add: mm_span_of_def mm_span_lookup_uncached_def Let_def d2 d_def user_nz)
  have flags: "\<not> mm_is_used (mem st2) first" "mm_prev_in_use (mem st2) first" "mm_block_size (mem st2) first = usable"
    using wf by (simp_all add: st2_def)
  have "first \<noteq> 0" using assms(1) by (simp add: first_def)
  then have blk: "mm_is_block c st2 first"
    using us(4) by (simp add: mm_is_block_def Let_def span block_ok_in_def start_ok_in_def d2 d_def flags user_nz)
  have whole: "mm_block_end (mem st2) first = hi (descs st2 (mm_span_of st2 first))"
    by (simp add: span d2 d_def flags mm_block_end_def)
  have lt: "first < 2 ^ 64" using assms(4) us layout_bounds(6) [of c] off by (simp add: first_def)
  note filed = file_first_block [OF d2(10,11) blk flags(1,2) whole lt, unfolded flags(3)]
  define st3 where "st3 = mm_bin_insert c first (snd (mm_publish c first st2))"
  define st4 where "st4 = upd_arena (\<lambda>a. a\<lparr>scrub_span := user_desc, scrub_at := first\<rparr>) st3"
  have adopt: "span_adopt c user_desc (upd_desc user_desc (\<lambda>_. d) st0) = (True, st4)"
  proof -
    have own: "upd_desc user_desc (\<lambda>a. a\<lparr>owner := mm_self st0\<rparr>) (upd_desc user_desc (\<lambda>_. d) st0) =
        upd_desc user_desc (\<lambda>_. d) st0" by (simp add: upd_desc_def d_def)
    have "span_adopt c user_desc (upd_desc user_desc (\<lambda>_. d) st0) =
        (let st = upd_mem (write_first c first usable) st1; st = snd (mm_publish c first st); st = mm_bin_insert c first st
         in (True, if scrub_span (g_arena st) = 0
                   then upd_arena (\<lambda>a. a\<lparr>scrub_span := user_desc, scrub_at := first\<rparr>) st else st))"
      unfolding span_adopt_def write_first_steps [symmetric] desc_simps own
      by (simp add: mm_span_register_def d_def st1_def Let_def)
    moreover have "scrub_span (g_arena st3) = 0" using filed(6) d2(7) by (simp add: st3_def bitmap_set_def)
    ultimately show ?thesis by (simp add: Let_def st4_def st3_def flip: st2_def)
  qed
  have upd: "upd_desc user_desc (\<lambda>_. d) st0 = upd_desc user_desc (\<lambda>_. \<lparr>magic = mm_span_magic_for user_desc,
      lo = heap + MM_BLOCK_OFFSET c, hi = heap + MM_BLOCK_OFFSET c + usable, owner = mm_self st0,
      index_base = next_index_base (g_arena st0), map_base = 0, map_size = 0, kind = MM_SPAN_USER, fresh = False,
      trim_after = 0\<rparr>) st0" by (simp add: d_def first_def)
  have user: "mm_arena_install_user c heap heap_size st0 = (user_desc, st4)"
    using adopt unfolding upd mm_arena_install_user_def Let_def sub64_le [OF add_leD1 [OF off]] MM_ALIGNMENT_16 down
    by simp
  have "mm_init c heap heap_size st = (True, st4)"
    using assms(1-3) user user_nz by (simp add: mm_init_def Let_def st0_def)
  moreover have "mm_block_size (mem st4) first = usable" using filed(4) flags(3) by (simp add: st4_def st3_def)
  moreover have "heap_ok c st4 (\<lambda>_. [first]) ((\<lambda>_. [])(mm_bin_of c usable := [first]))"
  proof -
    have st4: "mem st4 = mem st3" "same_registry st3 st4" "secret (g_arena st4) = secret (g_arena st3)"
      "bins (g_arena st4) = bins (g_arena st3)" "bitmap_test (g_arena st4) j = bitmap_test (g_arena st3) j"
      "descs st4 = descs st2" "spans (g_arena st4) = [user_desc]" "lost_bytes (g_arena st4) = 0" for j
      using filed(6,7) d2 by (simp_all add: st4_def st3_def same_registry_def bitmap_test_def bitmap_set_def)
    have blocks: "block_inv c st4 False first"
      using filed(2) block_inv_cong [OF st4(2,3), of first c False] by (simp add: st4(1) st3_def tail_bytes_same_def)
    have size: "mm_block_size (mem st4) first = usable" "\<not> mm_is_used (mem st4) first"
      using filed(4,5) flags(3) by (simp_all add: st4_def st3_def)
    have binrep: "bin_rep c st4 i (((\<lambda>_. [])(mm_bin_of c usable := [first])) i)" if "i < MM_BIN_COUNT" for i
    proof (rule bin_rep_cong)
      show "bin_rep c st3 i (((\<lambda>_. [])(mm_bin_of c usable := [first])) i)"
        using filed(1) that by (simp add: bins_rep_def st3_def)
      show "link_next c st4 x = link_next c st3 x \<and> link_prev c st4 x = link_prev c st3 x \<and>
          node_ok c st4 x i = node_ok c st3 x i" for x
        using node_ok_cong [OF st4(2,3), of x c i] st4(1,3) by (simp add: link_next_def link_prev_def)
    qed (simp_all add: st4)
    have "Suc 0 \<le> mm_max_blocks c st4" by (simp add: mm_max_blocks_def)
    moreover have "tiled c st4 (hi (descs st4 user_desc)) False (lo (descs st4 user_desc)) [first]"
      using blocks size us(4) layout_bounds(6) [of c] by (simp add: st4(6) d2(1) d_def)
    moreover have "length (((\<lambda>_. [])(mm_bin_of c usable := [first])) i) = length (free_of_bin c st4 i [first])" for i
      using size by (simp add: free_of_bin_def)
    moreover have "length (((\<lambda>_. [])(mm_bin_of c usable := [first])) i) \<le> mm_max_blocks c st4" for i
      using calculation(1) by simp
    moreover have "quarantined_total st4 [first] = 0" using size by (simp add: quarantined_total_def)
    ultimately show ?thesis
      using binrep unfolding heap_ok_def st4(7,8) by (simp del: fun_upd_apply)
  qed
  moreover have "spans (g_arena st4) = [user_desc]" "g_user st4 = user_desc" "span_cache (g_arena st4) = 0"
    "kind (descs st4 user_desc) = MM_SPAN_USER" "lo (descs st4 user_desc) = first"
    "hi (descs st4 user_desc) = first + usable" "total_bytes (g_arena st4) = usable"
    "fresh_spans (g_arena st4) = 0" "\<not> growable (g_arena st4)" "scrub_span (g_arena st4) = user_desc"
    "scrub_at (g_arena st4) = first" "mode (g_arena st4) = MM_MODE_MANAGED"
    using filed(3,6,7) d2 md2
    by (simp_all add: st4_def st3_def d_def bitmap_set_def same_registry_def)
  ultimately show ?thesis by (intro that [of st4])
qed

text \<open>C9 (functional). \<^verbatim>\<open>mm_init\<close> on every branch. From any earlier state: a null, misaligned or too small
  buffer is refused with \<^verbatim>\<open>MM_ERR_BAD_ARENA\<close> and nothing but the error changes; any other buffer is
  accepted and the result is a consistent heap of one free block that covers the buffer from the
  first aligned header to the last whole 16 bytes.\<close>

theorem mm_init_consistent:
  assumes "heap + heap_size \<le> 2 ^ 64" "heap_size < 2 ^ 58"
    and "cfg_lock c = MM_LOCK_ARENA \<longrightarrow> g_main_arena \<in> set (g_arenas st)"
  defines "first \<equiv> heap + MM_BLOCK_OFFSET c"
    and "usable \<equiv> (heap_size - MM_BLOCK_OFFSET c) div 16 * 16"
  shows "if heap = 0 \<or> heap_size < mm_min_arena c \<or> heap mod 16 \<noteq> 0
    then mm_init c heap heap_size st = (False, mm_fail MM_ERR_BAD_ARENA (mm_clear_error st))
    else \<exists>st'. mm_init c heap heap_size st = (True, st') \<and> mm_block_size (mem st') first = usable \<and>
           heap_ok c st' (\<lambda>_. [first]) ((\<lambda>_. [])(mm_bin_of c usable := [first]))"
proof (cases "heap = 0 \<or> heap_size < mm_min_arena c \<or> heap mod 16 \<noteq> 0")
  case True
  then show ?thesis by (auto simp: mm_init_def Let_def)
next
  case False
  then have ok: "heap \<noteq> 0" "heap mod 16 = 0" "mm_min_arena c \<le> heap_size" by auto
  obtain st' where "mm_init c heap heap_size st = (True, st')"
      "heap_ok c st' (\<lambda>_. [first]) ((\<lambda>_. [])(mm_bin_of c usable := [first]))" "mm_block_size (mem st') first = usable"
    unfolding first_def usable_def
    by (rule mm_init_state [OF ok assms(1,2), of st]) (use assms(3) in auto)
  then show ?thesis using False by auto
qed

text \<open>A 4096-byte buffer at 65536, initialised in a fresh process.\<close>

definition sample_heap :: "mm_config \<Rightarrow> mm_state" where
  "sample_heap c = snd (mm_init c 65536 4096 (boot_state []))"

lemma sample_heap_ok:
  "fst (mm_init c 65536 4096 (boot_state []))"
  "mm_block_size (mem (sample_heap c)) (65536 + MM_BLOCK_OFFSET c) = (4096 - MM_BLOCK_OFFSET c) div 16 * 16"
  "heap_ok c (sample_heap c) (\<lambda>_. [65536 + MM_BLOCK_OFFSET c])
     ((\<lambda>_. [])(mm_bin_of c ((4096 - MM_BLOCK_OFFSET c) div 16 * 16) := [65536 + MM_BLOCK_OFFSET c]))"
proof -
  have min: "mm_min_arena c \<le> 4096" using layout_bounds(5,10) [of c] by (simp add: mm_min_arena_def)
  obtain st' where st': "mm_init c 65536 4096 (boot_state []) = (True, st')"
      "heap_ok c st' (\<lambda>_. [65536 + MM_BLOCK_OFFSET c])
         ((\<lambda>_. [])(mm_bin_of c ((4096 - MM_BLOCK_OFFSET c) div 16 * 16) := [65536 + MM_BLOCK_OFFSET c]))"
      "mm_block_size (mem st') (65536 + MM_BLOCK_OFFSET c) = (4096 - MM_BLOCK_OFFSET c) div 16 * 16"
    by (rule mm_init_state [of 65536 c 4096 "boot_state []"]) (use min in \<open>auto simp: boot_state_def\<close>)
  then show "fst (mm_init c 65536 4096 (boot_state []))"
    "mm_block_size (mem (sample_heap c)) (65536 + MM_BLOCK_OFFSET c) = (4096 - MM_BLOCK_OFFSET c) div 16 * 16"
    "heap_ok c (sample_heap c) (\<lambda>_. [65536 + MM_BLOCK_OFFSET c])
       ((\<lambda>_. [])(mm_bin_of c ((4096 - MM_BLOCK_OFFSET c) div 16 * 16) := [65536 + MM_BLOCK_OFFSET c]))"
    by (simp_all add: sample_heap_def)
qed

theorem mm_init_consistent_witness:
  "\<exists>st T L. mm_init (build Hardened) 65536 4096 (boot_state []) = (True, st) \<and> heap_ok (build Hardened) st T L"
proof -
  have "mm_min_arena (build Hardened) \<le> 4096"
    using layout_bounds(5,10) [of "build Hardened"] by (simp add: mm_min_arena_def)
  then have "\<not> ((65536::nat) = 0 \<or> (4096::nat) < mm_min_arena (build Hardened) \<or> (65536::nat) mod 16 \<noteq> 0)" by simp
  moreover have "g_main_arena \<in> set (g_arenas (boot_state []))" by (simp add: boot_state_def)
  ultimately show ?thesis
    using mm_init_consistent [of 65536 4096 "build Hardened" "boot_state []"] by (simp del: not_less) blast
qed

section \<open>The consistency check\<close>

text \<open>C5 (invariant). \<^verbatim>\<open>mm_check_heap\<close> of one arena succeeds exactly on a consistent heap: it reports
  success if and only if every span is tiled by valid blocks with truthful neighbour bits, footers
  and canaries and no two adjacent free blocks, the quarantined sizes add up to the recorded loss,
  and the bins are well-formed lists with as many members as there are free blocks of their class.
  Otherwise it reports an error. Its step budget never makes it reject a consistent heap.\<close>

theorem check_heap_decides:
  assumes "\<forall>s \<in> set (spans (g_arena st)). lo (descs st s) \<le> hi (descs st s)"
  shows "fst (check_heap_unlocked c st) = MM_OK \<longleftrightarrow> (\<exists>T L. heap_ok c st T L)"
  using assms by (rule check_heap_iff)

theorem check_heap_decides_witness:
  "fst (check_heap_unlocked (build Paranoid) (sample_heap (build Paranoid))) = MM_OK"
proof -
  let ?st = "sample_heap (build Paranoid)"
  obtain T L where h: "heap_ok (build Paranoid) ?st T L" using sample_heap_ok(3) by blast
  then have "\<forall>s \<in> set (spans (g_arena ?st)). lo (descs ?st s) \<le> hi (descs ?st s)"
    using tiled_bounds unfolding heap_ok_def by blast
  then show ?thesis using check_heap_decides [of ?st "build Paranoid"] h by blast
qed

end
