(* ===== verification/Mars_Shim.thy ===== *)
theory Mars_Shim
  imports Mars_Api
begin

unbundle bit_operations_syntax

text \<open>
  The preload shim, \<^verbatim>\<open>shim/mm_shim.c\<close>: the C allocation functions over the allocator, with a pool of
  static bytes for what is allocated before the arena exists.

  The shim's globals are a record around the machine state; the pool's bytes are part of the one
  memory, at \<open>g_pool\<close>. What comes from outside is part of the state: the environment, the requests
  \<^verbatim>\<open>dlsym\<close> makes while the shim starts (all of them from the pool, since \<open>g_starting\<close> is set), whether it
  finds the real functions, and whether the report file can be opened. Messages are logged with the
  descriptor they were written to, and the pointers passed to the real \<^verbatim>\<open>free\<close> are recorded. The
  real \<^verbatim>\<open>realloc\<close> and \<^verbatim>\<open>pthread_create\<close> are parameters of the functions that call them.
\<close>

section \<open>State\<close>

record shim_state =
  heap :: mm_state
  g_debug :: bool
  g_check :: bool
  g_nofresh :: bool
  g_flip_at :: u64
  g_out :: int
  g_out_path :: string
  g_pool :: nat
  g_pool_used :: nat
  g_pool_peak :: nat
  g_ready :: bool
  g_starting :: bool
  g_real_free :: bool
  g_allocs_seen :: u64
  g_flipped :: bool
  warned :: bool
  env :: "string \<Rightarrow> string option"
  dl_requests :: "nat list"
  dl_free :: bool
  open_result :: int
  log :: "(int \<times> string) list"
  foreign_freed :: "nat list"

text \<open>The globals before anything has run; \<open>heap\<close>, the pool's address and what comes from outside are given.\<close>

definition shim_boot :: "mm_state \<Rightarrow> nat \<Rightarrow> (string \<Rightarrow> string option) \<Rightarrow> nat list \<Rightarrow> bool \<Rightarrow> int \<Rightarrow> shim_state" where
  "shim_boot st pool e reqs fr fd =
     \<lparr>heap = st, g_debug = False, g_check = False, g_nofresh = False, g_flip_at = 0, g_out = 2,
      g_out_path = [], g_pool = pool, g_pool_used = 0, g_pool_peak = 0, g_ready = False,
      g_starting = False, g_real_free = False, g_allocs_seen = 0, g_flipped = False, warned = False,
      env = e, dl_requests = reqs, dl_free = fr, open_result = fd, log = [], foreign_freed = []\<rparr>"

definition upd_heap :: "(mm_state \<Rightarrow> mm_state) \<Rightarrow> shim_state \<Rightarrow> shim_state" where
  "upd_heap f s = s\<lparr>heap := f (heap s)\<rparr>"

section \<open>Diagnostics\<close>

definition say :: "string \<Rightarrow> shim_state \<Rightarrow> shim_state" where
  "say msg s = s\<lparr>log := log s @ [(g_out s, msg)]\<rparr>"

text \<open>The buffer of \<^verbatim>\<open>say_num\<close> is filled from its end; \<open>i\<close> is the index of the first character in use.\<close>

function num_loop :: "nat \<Rightarrow> nat \<Rightarrow> string \<Rightarrow> string" where
  "num_loop i v buf =
     (if v \<noteq> 0 \<and> i > 0 then num_loop (i - 1) (v div 10) (char_of (48 + v mod 10) # buf) else buf)"
  by pat_completeness auto
termination by (relation "measure (\<lambda>(i, v, buf). i)") auto

declare num_loop.simps [simp del]

definition num_text :: "u64 \<Rightarrow> string" where
  "num_text v = (if v = 0 then num_loop 22 0 [char_of (48 :: nat)] else num_loop 23 (unat v) [])"

definition say_num :: "u64 \<Rightarrow> shim_state \<Rightarrow> shim_state" where
  "say_num v s = say (num_text v) s"

definition debug :: "string \<Rightarrow> shim_state \<Rightarrow> shim_state" where
  "debug msg s = (if g_debug s then say msg s else s)"

section \<open>The bootstrap pool\<close>

definition BOOTSTRAP_BYTES :: nat where "BOOTSTRAP_BYTES = 64 * 1024"
definition sizeof_pool_hdr :: nat where "sizeof_pool_hdr = 16"

definition from_pool :: "shim_state \<Rightarrow> nat \<Rightarrow> bool" where
  "from_pool s p \<longleftrightarrow> g_pool s \<le> p \<and> p < g_pool s + BOOTSTRAP_BYTES"

text \<open>Both sums are \<^verbatim>\<open>size_t\<close> sums and wrap.\<close>

definition pool_need :: "nat \<Rightarrow> nat" where
  "pool_need n = (sizeof_pool_hdr + unat ((of_nat n + 15 :: u64) AND NOT 15)) mod 2 ^ 64"

definition pool_alloc :: "nat \<Rightarrow> shim_state \<Rightarrow> nat \<times> shim_state" where
  "pool_alloc n s =
     (let need = pool_need n
      in if need < n \<or> (g_pool_used s + need) mod 2 ^ 64 > BOOTSTRAP_BYTES
         then (0, say ''mars shim: bootstrap pool exhausted\<newline>'' s)
         else let h = g_pool s + g_pool_used s;
                  s = upd_heap (upd_mem (\<lambda>m. store64 (store64 m h (of_nat n)) (h + 8) 0)) s;
                  s = s\<lparr>g_pool_used := (g_pool_used s + need) mod 2 ^ 64\<rparr>;
                  s = (if g_pool_used s > g_pool_peak s then s\<lparr>g_pool_peak := g_pool_used s\<rparr> else s)
              in (h + sizeof_pool_hdr, s))"

definition pool_size_of :: "shim_state \<Rightarrow> nat \<Rightarrow> nat" where
  "pool_size_of s p = unat (load64 (mem (heap s)) (p - sizeof_pool_hdr))"

section \<open>Start-up\<close>

definition flag :: "shim_state \<Rightarrow> string \<Rightarrow> bool" where
  "flag s name = (case env s name of None \<Rightarrow> False | Some v \<Rightarrow> v \<noteq> [] \<and> hd v \<noteq> CHR ''0'')"

text \<open>\<^verbatim>\<open>strtoull\<close> to base ten: leading space, an optional sign, the digits that follow, saturating.\<close>

definition is_digit :: "char \<Rightarrow> bool" where
  "is_digit ch \<longleftrightarrow> 48 \<le> (of_char ch :: nat) \<and> (of_char ch :: nat) \<le> 57"

fun dec_value :: "nat \<Rightarrow> string \<Rightarrow> nat" where
  "dec_value n [] = n"
| "dec_value n (ch # cs) = dec_value (10 * n + (of_char ch - 48)) cs"

definition strtoull :: "string \<Rightarrow> u64" where
  "strtoull v =
     (let v = dropWhile (\<lambda>ch. ch \<in> {CHR '' '', CHR 0x09, CHR 0x0A, CHR 0x0B, CHR 0x0C, CHR 0x0D}) v;
          neg = (v \<noteq> [] \<and> hd v = CHR ''-'');
          v = (if v \<noteq> [] \<and> (hd v = CHR ''-'' \<or> hd v = CHR ''+'') then tl v else v);
          n = dec_value 0 (takeWhile is_digit v)
      in if n \<ge> 2 ^ 64 then - 1 else if neg then - of_nat n else of_nat n)"

definition shim_number :: "shim_state \<Rightarrow> string \<Rightarrow> u64" where
  "shim_number s name = (case env s name of None \<Rightarrow> 0 | Some v \<Rightarrow> strtoull v)"

definition remember_out_path :: "shim_state \<Rightarrow> shim_state" where
  "remember_out_path s =
     (case env s ''MARS_SHIM_CHECK'' of
        None \<Rightarrow> s
      | Some v \<Rightarrow> if v = [] \<or> hd v \<noteq> CHR ''/'' then s
                  else if length v \<ge> 256 then s
                  else s\<lparr>g_out_path := v\<rparr>)"

definition dlsym_free :: "shim_state \<Rightarrow> shim_state" where
  "dlsym_free s =
     (let s = foldl (\<lambda>s n. snd (pool_alloc n s)) s (dl_requests s) in s\<lparr>g_real_free := dl_free s\<rparr>)"

definition startup :: "mm_config \<Rightarrow> shim_state \<Rightarrow> shim_state" where
  "startup c s =
     (if g_ready s \<or> g_starting s then s
      else
        let s = s\<lparr>g_starting := True\<rparr>;
            s = s\<lparr>g_debug := flag s ''MARS_SHIM_DEBUG'', g_check := flag s ''MARS_SHIM_CHECK'',
                  g_nofresh := flag s ''MARS_SHIM_NOFRESH'', g_flip_at := shim_number s ''MARS_SHIM_FLIP''\<rparr>;
            s = remember_out_path s;
            s = dlsym_free s;
            (ok, h) = mm_arena_init_growable c (heap s);
            s = s\<lparr>heap := h\<rparr>
        in if \<not> ok
           then (say ''mars shim: could not map an arena; staying on the bootstrap pool\<newline>'' s)\<lparr>g_starting := False\<rparr>
           else let s = upd_heap (mm_set_mode c MM_MODE_LIBC) s;
                    s = s\<lparr>g_starting := False, g_ready := True\<rparr>
                in debug ''mars shim: arena up\<newline>'' s)"

definition shim_start :: "mm_config \<Rightarrow> shim_state \<Rightarrow> shim_state" where
  "shim_start c s = startup c s"

definition say_counters :: "mm_config \<Rightarrow> shim_state \<Rightarrow> shim_state" where
  "say_counters c s =
     (let st = mm_stats_get c (heap s);
          s = say ''mars shim: allocs='' s;
          s = say_num (alloc_calls st) s;
          s = say '' frees='' s;
          s = say_num (free_calls st) s;
          s = say '' reallocs='' s;
          s = say_num (realloc_calls st) s;
          s = say '' peak_bytes='' s;
          s = say_num (peak_block_bytes st) s;
          s = say '' quarantined='' s;
          s = say_num (quarantined_blocks st) s;
          s = say '' bootstrap_peak='' s;
          s = say_num (of_nat (g_pool_peak s)) s
      in say ''\<newline>'' s)"

definition shim_end :: "mm_config \<Rightarrow> shim_state \<Rightarrow> shim_state" where
  "shim_end c s =
     (if \<not> g_ready s then s
      else
        let s = (if g_out_path s \<noteq> [] \<and> open_result s \<ge> 0 then s\<lparr>g_out := open_result s\<rparr> else s);
            s = (if g_check s
                 then let (e, h) = mm_check_heap c (heap s);
                          s = s\<lparr>heap := h\<rparr>
                      in if e = MM_OK then say ''mars shim: heap consistent at exit\<newline>'' s
                         else say ''\<newline>'' (say (mm_strerror e) (say ''mars shim: HEAP INCONSISTENT AT EXIT: '' s))
                 else s)
        in if g_debug s then say_counters c s else s)"

definition report :: "string \<Rightarrow> shim_state \<Rightarrow> shim_state" where
  "report what s =
     (let e = mm_last_error (heap s)
      in if e = MM_OK \<or> e = MM_ERR_NOMEM \<or> e = MM_ERR_DEGRADED then s
         else say ''\<newline>'' (say (mm_strerror e) (say '': '' (say what (say ''mars shim: '' s)))))"

definition maybe_flip :: "mm_config \<Rightarrow> nat \<Rightarrow> shim_state \<Rightarrow> shim_state" where
  "maybe_flip c p s =
     (if g_flip_at s = 0 \<or> g_flipped s then s
      else let s = s\<lparr>g_allocs_seen := g_allocs_seen s + 1\<rparr>
           in if g_allocs_seen s \<noteq> g_flip_at s then s
              else let s = s\<lparr>g_flipped := True\<rparr>;
                       hdr = p - MM_HDR_SIZE c;
                       s = upd_heap (upd_mem (\<lambda>m. m(hdr + 1 := m (hdr + 1) XOR 0x10))) s;
                       s = say ''mars shim: flipped one bit in the header of allocation #'' s;
                       s = say_num (g_allocs_seen s) s
                   in say ''\<newline>'' s)"

section \<open>The malloc family\<close>

definition ensure_started :: "mm_config \<Rightarrow> shim_state \<Rightarrow> shim_state" where
  "ensure_started c s = (if \<not> g_ready s then startup c s else s)"

definition shim_malloc :: "mm_config \<Rightarrow> nat \<Rightarrow> shim_state \<Rightarrow> nat \<times> shim_state" where
  "shim_malloc c n s =
     (let s = ensure_started c s
      in if \<not> g_ready s then pool_alloc n s
         else let (p, h) = mm_malloc c (if n = 0 then 1 else n) (heap s);
                  s = s\<lparr>heap := h\<rparr>
              in if p = 0 then (0, s) else (p, maybe_flip c p (report ''malloc'' s)))"

definition shim_free :: "mm_config \<Rightarrow> nat \<Rightarrow> shim_state \<Rightarrow> shim_state" where
  "shim_free c p s =
     (if p = 0 then s
      else if from_pool s p then s
      else let s = ensure_started c s
           in if g_ready s \<and> mm_owns c (heap s) p
              then report ''free'' (upd_heap (mm_free c p) s)
              else if g_real_free s then s\<lparr>foreign_freed := foreign_freed s @ [p]\<rparr>
              else s)"

definition shim_calloc :: "mm_config \<Rightarrow> nat \<Rightarrow> nat \<Rightarrow> shim_state \<Rightarrow> nat \<times> shim_state" where
  "shim_calloc c nmemb n s =
     (if nmemb * n \<ge> 2 ^ 64 then (0, s)
      else
        let tot = nmemb * n;
            s = ensure_started c s
        in if \<not> g_ready s then pool_alloc tot s
           else
             let (p, dirty, h) = mm_malloc_fresh c (if tot = 0 then 1 else tot) (heap s);
                 s = s\<lparr>heap := h\<rparr>
             in if p = 0 then (0, s)
                else
                  let s = report ''calloc'' s;
                      clear = (if g_nofresh s \<or> dirty = SIZE_MAX then tot
                               else if dirty \<noteq> 0 then (if dirty < tot then dirty else tot)
                               else 0)
                  in (p, upd_heap (upd_mem (\<lambda>m. mem_fill m p clear 0)) s))"

definition shim_realloc ::
  "(nat \<Rightarrow> nat \<Rightarrow> shim_state \<Rightarrow> nat \<times> shim_state) option \<Rightarrow> mm_config \<Rightarrow> nat \<Rightarrow> nat \<Rightarrow> shim_state \<Rightarrow> nat \<times> shim_state" where
  "shim_realloc real c p n s =
     (if p = 0 then shim_malloc c n s
      else if from_pool s p
      then if n = 0 then (0, s)
           else let (fsh, s) = shim_malloc c n s
                in if fsh = 0 then (0, s)
                   else let had = pool_size_of s p;
                            k = (if had < n then had else n)
                        in (fsh, upd_heap (upd_mem (\<lambda>m. mem_write m fsh (mem_read m p k))) s)
      else let s = ensure_started c s
           in if g_ready s \<and> mm_owns c (heap s) p
              then let (q, h) = mm_realloc c p n (heap s) in (q, report ''realloc'' (s\<lparr>heap := h\<rparr>))
              else case real of Some f \<Rightarrow> f p n s | None \<Rightarrow> (0, s))"

section \<open>Aligned allocation\<close>

definition power_of_two :: "u64 \<Rightarrow> bool" where
  "power_of_two n \<longleftrightarrow> n \<noteq> 0 \<and> n AND (n - 1) = 0"

definition aligned_alloc :: "mm_config \<Rightarrow> nat \<Rightarrow> nat \<Rightarrow> shim_state \<Rightarrow> nat \<times> shim_state" where
  "aligned_alloc c align n s =
     (if \<not> power_of_two (of_nat align) then (0, s)
      else let s = ensure_started c s
           in if \<not> g_ready s then (0, s)
              else let (p, h) = mm_memalign c align (if n = 0 then 1 else n) (heap s);
                       s = s\<lparr>heap := h\<rparr>
                   in if p = 0 then (0, s) else (p, report ''aligned_alloc'' s))"

definition EINVAL :: int where "EINVAL = 22"
definition ENOMEM :: int where "ENOMEM = 12"
definition ENOSYS :: int where "ENOSYS = 38"

definition posix_memalign :: "mm_config \<Rightarrow> nat \<Rightarrow> nat \<Rightarrow> nat \<Rightarrow> shim_state \<Rightarrow> int \<times> shim_state" where
  "posix_memalign c out align n s =
     (if \<not> power_of_two (of_nat align) \<or> align mod 8 \<noteq> 0 then (EINVAL, s)
      else let (p, s) = aligned_alloc c align n s
           in if p = 0 then (ENOMEM, s)
              else (0, upd_heap (upd_mem (\<lambda>m. store64 m out (of_nat p))) s))"

definition shim_memalign :: "mm_config \<Rightarrow> nat \<Rightarrow> nat \<Rightarrow> shim_state \<Rightarrow> nat \<times> shim_state" where
  "shim_memalign c align n s = aligned_alloc c align n s"

definition page_size :: "shim_state \<Rightarrow> nat" where
  "page_size s = (if os_page (heap s) > 0 then nat (os_page (heap s)) else 4096)"

definition valloc :: "mm_config \<Rightarrow> nat \<Rightarrow> shim_state \<Rightarrow> nat \<times> shim_state" where
  "valloc c n s = aligned_alloc c (page_size s) n s"

definition pvalloc :: "mm_config \<Rightarrow> nat \<Rightarrow> shim_state \<Rightarrow> nat \<times> shim_state" where
  "pvalloc c n s =
     (let p = page_size s
      in if n > SIZE_MAX - p then (0, s)
         else aligned_alloc c p (unat ((of_nat n + of_nat p - 1 :: u64) AND NOT (of_nat p - 1))) s)"

section \<open>Introspection, aliases, threads\<close>

definition malloc_usable_size :: "mm_config \<Rightarrow> nat \<Rightarrow> shim_state \<Rightarrow> nat \<times> shim_state" where
  "malloc_usable_size c p s =
     (if p = 0 then (0, s)
      else if from_pool s p then (pool_size_of s p, s)
      else if \<not> g_ready s \<or> \<not> mm_owns c (heap s) p then (0, s)
      else let (n, h) = mm_usable_size c p (heap s) in (n, s\<lparr>heap := h\<rparr>))"

definition libc_malloc :: "mm_config \<Rightarrow> nat \<Rightarrow> shim_state \<Rightarrow> nat \<times> shim_state" where
  "libc_malloc c n s = shim_malloc c n s"

definition libc_free :: "mm_config \<Rightarrow> nat \<Rightarrow> shim_state \<Rightarrow> shim_state" where
  "libc_free c p s = shim_free c p s"

definition libc_calloc :: "mm_config \<Rightarrow> nat \<Rightarrow> nat \<Rightarrow> shim_state \<Rightarrow> nat \<times> shim_state" where
  "libc_calloc c nmemb n s = shim_calloc c nmemb n s"

definition libc_realloc ::
  "(nat \<Rightarrow> nat \<Rightarrow> shim_state \<Rightarrow> nat \<times> shim_state) option \<Rightarrow> mm_config \<Rightarrow> nat \<Rightarrow> nat \<Rightarrow> shim_state \<Rightarrow> nat \<times> shim_state" where
  "libc_realloc real c p n s = shim_realloc real c p n s"

definition libc_memalign :: "mm_config \<Rightarrow> nat \<Rightarrow> nat \<Rightarrow> shim_state \<Rightarrow> nat \<times> shim_state" where
  "libc_memalign c align n s = aligned_alloc c align n s"

text \<open>Only where the build has no locking; \<open>real\<close> is the function found by \<^verbatim>\<open>dlsym\<close>, if any.\<close>

definition pthread_create :: "(shim_state \<Rightarrow> int \<times> shim_state) option \<Rightarrow> shim_state \<Rightarrow> int \<times> shim_state" where
  "pthread_create real s =
     (let s = (if \<not> warned s
               then say (''mars shim: this program creates threads and this build has no '' @
                         ''locking (MARS_LOCK=none) -- its heap is not safe under '' @
                         ''LD_PRELOAD\<newline>'') (s\<lparr>warned := True\<rparr>) else s)
      in case real of None \<Rightarrow> (ENOSYS, s) | Some f \<Rightarrow> f s)"

section \<open>The pool hands out disjoint blocks that remember their size\<close>

definition pool_ok :: "shim_state \<Rightarrow> bool" where
  "pool_ok s \<longleftrightarrow> 0 < g_pool s \<and> g_pool s mod 16 = 0 \<and> g_pool_used s mod 16 = 0 \<and>
     g_pool_used s \<le> BOOTSTRAP_BYTES"

fun pool_serve :: "nat list \<Rightarrow> shim_state \<Rightarrow> nat list \<times> shim_state" where
  "pool_serve [] s = ([], s)"
| "pool_serve (n # ns) s =
     (let (p, s) = pool_alloc n s; (ps, s) = pool_serve ns s in (p # ps, s))"

lemma say_simps [simp]:
  "heap (say msg s) = heap s" "g_pool (say msg s) = g_pool s" "g_pool_used (say msg s) = g_pool_used s"
  "g_pool_peak (say msg s) = g_pool_peak s" "g_ready (say msg s) = g_ready s"
  "g_starting (say msg s) = g_starting s" "env (say msg s) = env s" "g_out (say msg s) = g_out s"
  "g_real_free (say msg s) = g_real_free s" "dl_requests (say msg s) = dl_requests s"
  by (simp_all add: say_def)

lemma upd_heap_simps [simp]:
  "heap (upd_heap f s) = f (heap s)" "g_pool (upd_heap f s) = g_pool s"
  "g_pool_used (upd_heap f s) = g_pool_used s" "g_pool_peak (upd_heap f s) = g_pool_peak s"
  "g_ready (upd_heap f s) = g_ready s" "g_starting (upd_heap f s) = g_starting s"
  "g_real_free (upd_heap f s) = g_real_free s" "dl_requests (upd_heap f s) = dl_requests s"
  by (simp_all add: upd_heap_def)

text \<open>What a rounded request needs, when it cannot wrap.\<close>

lemma pool_round:
  assumes "n < 2 ^ 63"
  shows "unat ((of_nat n + 15 :: u64) AND NOT 15) = (n + 15) div 16 * 16"
proof -
  have "unat (of_nat (n + 15) :: u64) = n + 15"
    using assms by (subst unat_of_nat) (simp add: take_bit_eq_mod)
  then have "unat (of_nat n + 15 :: u64) = n + 15" by simp
  moreover have "(NOT 15 :: u64) = NOT (mask 4)" by (simp add: mask_eq_exp_minus_1)
  ultimately show ?thesis using unat_and_not_mask [of 4 "of_nat n + 15"] by simp
qed

lemma pool_need_eq:
  assumes "n < 2 ^ 63"
  shows "pool_need n = 16 + (n + 15) div 16 * 16"
  unfolding pool_need_def pool_round [OF assms] sizeof_pool_hdr_def using assms by simp

lemma pool_alloc_eq:
  assumes ok: "pool_ok s" and n: "n < 2 ^ 63"
  defines "need \<equiv> 16 + (n + 15) div 16 * 16" and "h \<equiv> g_pool s + g_pool_used s"
  shows "pool_alloc n s =
    (if g_pool_used s + need > BOOTSTRAP_BYTES then (0, say ''mars shim: bootstrap pool exhausted\<newline>'' s)
     else (h + 16,
           (upd_heap (upd_mem (\<lambda>m. store64 (store64 m h (of_nat n)) (h + 8) 0)) s)
             \<lparr>g_pool_used := g_pool_used s + need,
              g_pool_peak := max (g_pool_used s + need) (g_pool_peak s)\<rparr>))"
proof -
  have "\<not> need < n" unfolding need_def by presburger
  moreover have "need \<le> n + 31" unfolding need_def by presburger
  then have "(g_pool_used s + need) mod 2 ^ 64 = g_pool_used s + need"
    using ok n by (simp add: pool_ok_def BOOTSTRAP_BYTES_def)
  ultimately show ?thesis
    using pool_need_eq [OF n]
    by (auto simp: pool_alloc_def Let_def need_def [symmetric] h_def sizeof_pool_hdr_def upd_heap_def max_def)
qed

lemma pool_alloc_ok:
  assumes ok: "pool_ok s" and n: "n < 2 ^ 63" and r: "pool_alloc n s = (p, s')"
  shows "pool_ok s'" and "g_pool s' = g_pool s" and "g_pool_used s \<le> g_pool_used s'"
    and "within (g_pool s + g_pool_used s) (g_pool s + g_pool_used s') (mem (heap s)) (mem (heap s'))"
    and "p \<noteq> 0 \<Longrightarrow> p mod 16 = 0" and "p \<noteq> 0 \<Longrightarrow> p = g_pool s + g_pool_used s + 16"
    and "p \<noteq> 0 \<Longrightarrow> p + n \<le> g_pool s + g_pool_used s'" and "p \<noteq> 0 \<Longrightarrow> pool_size_of s' p = n"
proof -
  define need where "need = 16 + (n + 15) div 16 * 16"
  have e: "n + 16 \<le> need" and e16: "need mod 16 = 0" unfolding need_def by presburger+
  have u: "unat (of_nat n :: u64) = n" using n by (subst unat_of_nat) (simp add: take_bit_eq_mod)
  have w: "within h (h + need) m (store64 (store64 m h x) (h + 8) y)" for h m x y
    using e by (auto intro: within_trans [OF within_store(1) within_store(1)])
  have m: "(g_pool_used s + need) mod 16 = 0" "(g_pool s + g_pool_used s + 16) mod 16 = 0"
    using ok e16 by (auto simp: pool_ok_def mod_eq_0_iff_dvd)
  note eq = pool_alloc_eq [OF ok n, folded need_def] r
  note ok' = ok [unfolded pool_ok_def]
  show "pool_ok s'" using eq ok' m(1) by (auto simp: pool_ok_def split: if_splits)
  show "g_pool s' = g_pool s" "g_pool_used s \<le> g_pool_used s'" using eq by (auto split: if_splits)
  show "within (g_pool s + g_pool_used s) (g_pool s + g_pool_used s') (mem (heap s)) (mem (heap s'))"
    using eq w [of "g_pool s + g_pool_used s"] by (auto simp: upd_mem_def add.assoc split: if_splits)
  show "p mod 16 = 0" if "p \<noteq> 0" using that eq m(2) by (auto split: if_splits)
  show "p = g_pool s + g_pool_used s + 16" if "p \<noteq> 0" using that eq by (auto split: if_splits)
  show "p + n \<le> g_pool s + g_pool_used s'" if "p \<noteq> 0" using that eq e by (auto split: if_splits)
  show "pool_size_of s' p = n" if "p \<noteq> 0"
    using that eq u by (auto simp: pool_size_of_def sizeof_pool_hdr_def upd_mem_def mem_simps split: if_splits)
qed

lemma pool_serve_ok:
  assumes "pool_serve ns s = (ps, s')" and "pool_ok s" and "\<forall>n\<in>set ns. n < 2 ^ 63"
  shows "pool_ok s' \<and> g_pool s' = g_pool s \<and> g_pool_used s \<le> g_pool_used s' \<and> length ps = length ns \<and>
    within (g_pool s + g_pool_used s) (g_pool s + g_pool_used s') (mem (heap s)) (mem (heap s')) \<and>
    (\<forall>i<length ps. ps ! i \<noteq> 0 \<longrightarrow> ps ! i mod 16 = 0 \<and> g_pool s + g_pool_used s + 16 \<le> ps ! i \<and>
       ps ! i + ns ! i \<le> g_pool s + g_pool_used s' \<and> pool_size_of s' (ps ! i) = ns ! i) \<and>
    (\<forall>j<length ps. \<forall>i<j. ps ! i \<noteq> 0 \<and> ps ! j \<noteq> 0 \<longrightarrow> ps ! i + ns ! i + 16 \<le> ps ! j)"
  using assms
proof (induction ns arbitrary: s ps)
  case Nil
  then show ?case by simp
next
  case (Cons n ns)
  obtain p s1 where p: "pool_alloc n s = (p, s1)" by force
  obtain qs where qs: "pool_serve ns s1 = (qs, s')" "ps = p # qs"
    using Cons.prems(1) p by (auto split: prod.splits)
  have n: "n < 2 ^ 63" and ns: "\<forall>n\<in>set ns. n < 2 ^ 63" using Cons.prems(3) by simp_all
  note h = pool_alloc_ok [OF Cons.prems(2) n p]
  note IH = Cons.IH [OF qs(1) h(1) ns]
  have w: "within (g_pool s + g_pool_used s1) (g_pool s + g_pool_used s') (mem (heap s1)) (mem (heap s'))"
    using IH h(2) by simp
  have sz: "pool_size_of s' p = n" if "p \<noteq> 0"
  proof -
    have "same_on (p - 16) 8 (mem (heap s1)) (mem (heap s'))"
      using h(6) [OF that] h(7) [OF that] by (intro within_same_on [OF w]) auto
    then show ?thesis
      using h(8) [OF that] load64_cong by (simp add: pool_size_of_def sizeof_pool_hdr_def)
  qed
  have all: "within (g_pool s + g_pool_used s) (g_pool s + g_pool_used s') (mem (heap s)) (mem (heap s'))"
  proof (rule within_trans)
    show "within (g_pool s + g_pool_used s) (g_pool s + g_pool_used s') (mem (heap s)) (mem (heap s1))"
      by (rule within_mono [OF h(4)]) (use IH in auto)
    show "within (g_pool s + g_pool_used s) (g_pool s + g_pool_used s') (mem (heap s1)) (mem (heap s'))"
      by (rule within_mono [OF w]) (use h(3) in auto)
  qed
  let ?U = "g_pool s + g_pool_used s'"
  have head: "p mod 16 = 0 \<and> g_pool s + g_pool_used s + 16 \<le> p \<and> p + n \<le> ?U \<and> pool_size_of s' p = n" if "p \<noteq> 0"
    using h(2,5,6,7) sz that IH by simp
  have tl1: "qs ! i mod 16 = 0 \<and> g_pool s + g_pool_used s + 16 \<le> qs ! i \<and> qs ! i + ns ! i \<le> ?U \<and>
      pool_size_of s' (qs ! i) = ns ! i \<and> (p \<noteq> 0 \<longrightarrow> p + n + 16 \<le> qs ! i)"
    if "i < length qs" "qs ! i \<noteq> 0" for i
    using IH that h(2,3,7) by fastforce
  have tl2: "qs ! i + ns ! i + 16 \<le> qs ! j" if "j < length qs" "i < j" "qs ! i \<noteq> 0" "qs ! j \<noteq> 0" for i j
    using IH that by blast
  have each: "(p # qs) ! i mod 16 = 0 \<and> g_pool s + g_pool_used s + 16 \<le> (p # qs) ! i \<and>
      (p # qs) ! i + (n # ns) ! i \<le> ?U \<and> pool_size_of s' ((p # qs) ! i) = (n # ns) ! i"
    if "i < length (p # qs)" "(p # qs) ! i \<noteq> 0" for i
    using that head tl1 by (cases i) simp_all
  have pair: "(p # qs) ! i + (n # ns) ! i + 16 \<le> (p # qs) ! j"
    if "j < length (p # qs)" "i < j" "(p # qs) ! i \<noteq> 0" "(p # qs) ! j \<noteq> 0" for i j
    using that tl1 tl2 by (cases i; cases j) simp_all
  show ?case
    unfolding qs(2) using IH h(2,3) all each pair by simp
qed

section \<open>Numbers written and read back\<close>

definition digits :: "string \<Rightarrow> bool" where
  "digits ds \<longleftrightarrow> (\<forall>ch\<in>set ds. is_digit ch)"

lemma num_loop_digits:
  assumes "v < 10 ^ i"
  shows "\<exists>ds. num_loop i v buf = ds @ buf \<and> (\<forall>m. dec_value m ds = m * 10 ^ length ds + v) \<and> digits ds \<and>
    length ds \<le> i \<and> (v \<noteq> 0 \<longrightarrow> ds \<noteq> [])"
  using assms
proof (induction i v buf rule: num_loop.induct)
  case (1 i v buf)
  show ?case
  proof (cases "v \<noteq> 0 \<and> i > 0")
    case False
    then have "v = 0" using 1 by (cases i) auto
    then show ?thesis
      by (intro exI [of _ "[]"]) (simp add: num_loop.simps [of i 0] digits_def)
  next
    case True
    let ?ch = "char_of (48 + v mod 10) :: char"
    obtain j where j: "i = Suc j" using True by (cases i) auto
    have "v div 10 < 10 ^ (i - 1)" using 1(2) j by (simp add: div_less_iff_less_mult mult.commute)
    then obtain ds where ds: "num_loop (i - 1) (v div 10) (?ch # buf) = ds @ ?ch # buf"
        "\<And>m. dec_value m ds = m * 10 ^ length ds + v div 10" "digits ds" "length ds \<le> i - 1"
      using 1(1) [OF True] by auto
    have ch: "(of_char ?ch :: nat) = 48 + v mod 10" by (simp add: of_char_of)
    have app: "dec_value m (xs @ ys) = dec_value (dec_value m xs) ys" for m xs ys
      by (induction xs arbitrary: m) simp_all
    have step: "num_loop i v buf = ds @ ?ch # buf" using True ds(1) by (subst num_loop.simps) simp
    have val: "dec_value m (ds @ [?ch]) = m * 10 ^ length (ds @ [?ch]) + v" for m
      using ch ds(2) [of m] by (simp add: app algebra_simps)
    have "digits (ds @ [?ch])" using ds(3) ch by (auto simp: digits_def is_digit_def)
    then show ?thesis
      using ds(4) j val unfolding step by (intro exI [of _ "ds @ [?ch]"]) simp
  qed
qed

lemma takeWhile_digits: "digits ds \<Longrightarrow> takeWhile is_digit ds = ds"
  by (simp add: digits_def takeWhile_eq_all_conv)

lemma strtoull_digits:
  assumes "digits ds" and "dec_value 0 ds < 2 ^ 64"
  shows "strtoull ds = of_nat (dec_value 0 ds)"
proof (cases ds)
  case Nil
  then show ?thesis by (simp add: strtoull_def)
next
  case (Cons ch cs)
  then have d: "is_digit ch" using assms(1) by (simp add: digits_def)
  then have "ch \<notin> {CHR '' '', CHR 0x09, CHR 0x0A, CHR 0x0B, CHR 0x0C, CHR 0x0D}" "ch \<noteq> CHR ''-''" "ch \<noteq> CHR ''+''"
    by (auto simp: is_digit_def)
  then show ?thesis
    using assms takeWhile_digits [OF assms(1)] by (simp add: strtoull_def Cons)
qed

text \<open>C38 (roundtrip). What the shim prints for a counter is the number: its text has between 1 and 23
  digits, so that with the final NUL it fits the 24-byte buffer, and reading it back the way the shim
  reads a number from the environment gives the value.\<close>

theorem say_num_roundtrip:
  "strtoull (num_text v) = v \<and> 1 \<le> length (num_text v) \<and> length (num_text v) \<le> 23 \<and> digits (num_text v)"
proof (cases "v = 0")
  case True
  have "num_text v = [char_of (48 :: nat)]" using True by (simp add: num_text_def num_loop.simps)
  moreover have "digits [char_of (48 :: nat)]" by (simp add: digits_def is_digit_def of_char_of)
  ultimately show ?thesis using strtoull_digits [of "num_text v"] True by (simp add: of_char_of)
next
  case False
  have "unat v < 2 ^ 64" using unsigned_less [of v] by simp
  also have "(2 :: nat) ^ 64 < 10 ^ 23" by simp
  finally obtain ds where ds: "num_loop 23 (unat v) [] = ds @ []"
      "\<And>m. dec_value m ds = m * 10 ^ length ds + unat v" "digits ds" "length ds \<le> 23"
      "unat v \<noteq> 0 \<longrightarrow> ds \<noteq> []"
    using num_loop_digits [of "unat v" 23 "[]"] by blast
  have "unat v < 2 ^ 64" using unsigned_less [of v] by simp
  moreover have "dec_value 0 ds = unat v" using ds(2) [of 0] by simp
  ultimately have "strtoull ds = v" using strtoull_digits [OF ds(3)] by simp
  moreover have "num_text v = ds" using False ds(1) by (simp add: num_text_def)
  moreover have "ds \<noteq> []" using False ds(5) by (simp add: unat_eq_0)
  ultimately show ?thesis using ds(3,4) by (simp add: Suc_le_eq)
qed

section \<open>Alignments\<close>

lemma power_of_two_iff:
  assumes "a < 2 ^ 64"
  shows "power_of_two (of_nat a) \<longleftrightarrow> (\<exists>k < 64. a = 2 ^ k)"
proof
  assume p: "power_of_two (of_nat a)"
  define w :: u64 where "w = of_nat a"
  have w: "unat w = a" using assms by (simp add: w_def unat_of_nat take_bit_eq_mod)
  have "w \<noteq> 0" and z: "w AND (w - 1) = 0" using p by (simp_all add: power_of_two_def w_def)
  then have "1 \<le> a" using w by (auto simp: Suc_le_eq unat_gt_0)
  then obtain k where k: "2 ^ k \<le> a" "a < 2 ^ (k + 1)" using ex_power_ivl1 [of 2 a] by auto
  have top: "bit x k" if "2 ^ k \<le> unat x" "unat x < 2 ^ (k + 1)" for x :: u64
  proof -
    have "unat x div 2 ^ k = 1" using that by (intro div_nat_eqI) auto
    then have "bit (unat x) k" by (simp add: bit_iff_odd)
    then show ?thesis by (simp add: bit_unsigned_iff)
  qed
  have "k < 64" using order.strict_trans1 [OF k(1) assms] by (rule power_less_imp_less_exp [rotated]) simp
  moreover have "a = 2 ^ k"
  proof (rule ccontr)
    assume "a \<noteq> 2 ^ k"
    then have "2 ^ k \<le> a - 1" using k(1) by simp
    moreover have "unat (w - 1) = a - 1" using \<open>1 \<le> a\<close> w by (simp add: unat_sub word_le_nat_alt)
    ultimately have "bit (w AND (w - 1)) k" using top [of w] top [of "w - 1"] k w by (simp add: bit_and_iff)
    then show False using z by simp
  qed
  ultimately show "\<exists>k < 64. a = 2 ^ k" by blast
next
  assume "\<exists>k < 64. a = 2 ^ k"
  then obtain k where k: "k < 64" "a = 2 ^ k" by blast
  have e: "(of_nat a :: u64) = push_bit k 1" using k by (simp add: push_bit_eq_mult)
  have m: "(push_bit k 1 - 1 :: u64) = mask k" by (simp add: mask_eq_exp_minus_1 push_bit_eq_mult)
  have "(push_bit k 1 :: u64) AND mask k = 0" by (rule bit_word_eqI) (auto simp: bit_simps)
  moreover have "(push_bit k 1 :: u64) \<noteq> 0" using k by (simp add: push_bit_eq_mult)
  ultimately show "power_of_two (of_nat a)" unfolding power_of_two_def e m by blast
qed

section \<open>Errors and hand-over of the shim\<close>

text \<open>C35 (error). \<^verbatim>\<open>posix_memalign\<close> fails with EINVAL, and then changes nothing, exactly for alignments that are
  not a power of two of at least eight; otherwise it returns 0 or ENOMEM, it stores a non-null pointer
  at \<open>out\<close> in the first case and leaves what \<^verbatim>\<open>aligned_alloc\<close> left in the second.\<close>

theorem posix_memalign_errors:
  assumes "align < 2 ^ 64"
  shows "(fst (posix_memalign c out align n s) = EINVAL \<longleftrightarrow> \<not> (\<exists>k. 3 \<le> k \<and> k < 64 \<and> align = 2 ^ k)) \<and>
    (fst (posix_memalign c out align n s) = EINVAL \<longrightarrow> snd (posix_memalign c out align n s) = s) \<and>
    (fst (posix_memalign c out align n s) = ENOMEM \<longrightarrow> aligned_alloc c align n s = (0, snd (posix_memalign c out align n s))) \<and>
    (fst (posix_memalign c out align n s) = 0 \<longrightarrow>
       (let p = fst (aligned_alloc c align n s)
        in p \<noteq> 0 \<and> load64 (mem (heap (snd (posix_memalign c out align n s)))) out = of_nat p)) \<and>
    fst (posix_memalign c out align n s) \<in> {0, EINVAL, ENOMEM}"
proof -
  have pow: "(power_of_two (of_nat align) \<and> align mod 8 = 0) \<longleftrightarrow> (\<exists>k. 3 \<le> k \<and> k < 64 \<and> align = 2 ^ k)"
  proof
    assume a: "power_of_two (of_nat align) \<and> align mod 8 = 0"
    then obtain k where k: "k < 64" "align = 2 ^ k" using power_of_two_iff [OF assms] by blast
    have "3 \<le> k"
    proof (rule ccontr)
      assume "\<not> 3 \<le> k"
      then have "k = 0 \<or> k = 1 \<or> k = 2" by linarith
      then show False using a k(2) by auto
    qed
    then show "\<exists>k. 3 \<le> k \<and> k < 64 \<and> align = 2 ^ k" using k by (intro exI [of _ k]) simp
  next
    assume "\<exists>k. 3 \<le> k \<and> k < 64 \<and> align = 2 ^ k"
    then obtain k where k: "3 \<le> k" "k < 64" "align = 2 ^ k" by blast
    then obtain j where "k = 3 + j" using le_Suc_ex by blast
    then have "align = 8 * 2 ^ j" using k(3) by (simp add: power_add)
    then show "power_of_two (of_nat align) \<and> align mod 8 = 0" using power_of_two_iff [OF assms] k by auto
  qed
  show ?thesis
    unfolding pow [symmetric]
    by (cases "aligned_alloc c align n s")
      (auto simp: posix_memalign_def EINVAL_def ENOMEM_def upd_mem_def)
qed


text \<open>C37 (bounds). The pool's capacity test misses one wrap-around. For a request of \<open>2 ^ 64 - 16 - k\<close> bytes, \<open>k\<close> a multiple of 16
  that is in use already, \<open>need\<close> is at least the request, but \<open>g_pool_used + need\<close> wraps to \<open>g_pool_used - k\<close>
  and passes the test. The pool grants the request and gives the \<open>k\<close> bytes before it out again.\<close>

theorem pool_alloc_wraps:
  assumes "pool_ok s" and "16 \<le> k" and "k mod 16 = 0" and "k \<le> g_pool_used s"
  shows "fst (pool_alloc (2 ^ 64 - 16 - k) s) = g_pool s + g_pool_used s + 16 \<and>
    g_pool_used (snd (pool_alloc (2 ^ 64 - 16 - k) s)) = g_pool_used s - k"
proof -
  obtain j where j: "k = 16 * j" using assms(3) by (auto simp: mod_eq_0_iff_dvd)
  have jb: "1 \<le> j" "j \<le> 4096" using assms j by (auto simp: pool_ok_def BOOTSTRAP_BYTES_def)
  define n where "n = 2 ^ 64 - 16 - k"
  have "unat (of_nat (n + 15) :: u64) = n + 15"
    using assms(2) by (subst unat_of_nat) (simp add: take_bit_eq_mod n_def)
  then have "unat (of_nat n + 15 :: u64) = n + 15" by simp
  moreover have "(NOT 15 :: u64) = NOT (mask 4)" by (simp add: mask_eq_exp_minus_1)
  ultimately have "unat ((of_nat n + 15 :: u64) AND NOT 15) = (n + 15) div 16 * 16"
    using unat_and_not_mask [of 4 "of_nat n + 15"] by simp
  moreover have "n = 16 * (2 ^ 60 - 1 - j)" using jb by (simp add: n_def j)
  then have "(n + 15) div 16 * 16 = n" by simp
  ultimately have need: "pool_need n = 2 ^ 64 - k"
    using jb by (simp add: pool_need_def sizeof_pool_hdr_def n_def j)
  have used: "(g_pool_used s + (2 ^ 64 - k)) mod 2 ^ 64 = g_pool_used s - k"
  proof -
    have gen: "(u + (M - k)) mod M = u - k" if "k \<le> u" "k \<le> M" "u \<le> B" "B < M" for u M B :: nat
    proof -
      have "u + (M - k) = u - k + M" using that by linarith
      moreover have "u - k < M" using that by linarith
      ultimately show ?thesis by simp
    qed
    have "(65536 :: nat) < 2 ^ 64" by simp
    moreover have "k \<le> 2 ^ 64" using jb(2) by (simp add: j)
    moreover have "g_pool_used s \<le> 65536" using assms(1) by (simp add: pool_ok_def BOOTSTRAP_BYTES_def)
    ultimately show ?thesis using assms(4) gen [of "g_pool_used s" "2 ^ 64" 65536]
      by blast
  qed
  have "n \<le> 2 ^ 64 - k" unfolding n_def by (rule diff_le_mono) simp
  then have "\<not> 2 ^ 64 - k < n" by (rule leD)
  moreover have "\<not> BOOTSTRAP_BYTES < g_pool_used s - k" using assms(1) unfolding pool_ok_def by linarith
  ultimately have "pool_alloc n s = (let h = g_pool s + g_pool_used s;
       s = upd_heap (upd_mem (\<lambda>m. store64 (store64 m h (of_nat n)) (h + 8) 0)) s;
       s = s\<lparr>g_pool_used := g_pool_used s - k\<rparr>;
       s = (if g_pool_used s > g_pool_peak s then s\<lparr>g_pool_peak := g_pool_used s\<rparr> else s)
     in (h + 16, s))"
    unfolding pool_alloc_def need sizeof_pool_hdr_def Let_def upd_heap_simps used by simp
  then show ?thesis unfolding n_def [symmetric] by (simp add: Let_def)
qed

section \<open>Start-up reached from inside itself\<close>

lemma pool_alloc_flags:
  "g_ready (snd (pool_alloc n s)) = g_ready s" "g_starting (snd (pool_alloc n s)) = g_starting s"
  "dl_free (snd (pool_alloc n s)) = dl_free s"
  by (simp_all add: pool_alloc_def Let_def upd_heap_def say_def)

lemma starting_calls:
  assumes "g_starting s" and "\<not> g_ready s" and "n < 2 ^ 64"
  shows "startup c s = s" and "shim_malloc c n s = pool_alloc n s" and "shim_calloc c 1 n s = pool_alloc n s"
  using assms by (simp_all add: startup_def shim_malloc_def shim_calloc_def ensure_started_def)


section \<open>Witnesses\<close>

definition sample_shim :: shim_state where
  "sample_shim = shim_boot (boot_state []) 65536 (\<lambda>_. None) [32] True 0"

lemma sample_pool_ok: "pool_ok sample_shim"
  by (simp add: pool_ok_def sample_shim_def shim_boot_def)

lemma sample_pool_serve: "fst (pool_serve [100, 7] sample_shim) = [65552, 65680]"
proof -
  have "pool_alloc 100 sample_shim =
      (65552, (upd_heap (upd_mem (\<lambda>m. store64 (store64 m 65536 100) 65544 0)) sample_shim)
        \<lparr>g_pool_used := 128, g_pool_peak := 128\<rparr>)"
    by (subst pool_alloc_eq) (simp_all add: sample_pool_ok, simp_all add: sample_shim_def shim_boot_def BOOTSTRAP_BYTES_def)
  moreover have "fst (pool_alloc 7 ((upd_heap f sample_shim)\<lparr>g_pool_used := 128, g_pool_peak := 128\<rparr>)) = 65680" for f
    by (subst pool_alloc_eq)
      (simp_all add: pool_ok_def sample_shim_def shim_boot_def BOOTSTRAP_BYTES_def)
  ultimately show ?thesis by (simp add: Let_def split_beta)
qed

theorem posix_memalign_errors_witness:
  "fst (posix_memalign (build Hardened) 8 24 100 sample_shim) = EINVAL \<and>
   snd (posix_memalign (build Hardened) 8 24 100 sample_shim) = sample_shim"
proof -
  have "\<not> (\<exists>k. 3 \<le> k \<and> k < 64 \<and> (24 :: nat) = 2 ^ k)"
  proof
    assume "\<exists>k. 3 \<le> k \<and> k < 64 \<and> (24 :: nat) = 2 ^ k"
    then obtain k where k: "(24 :: nat) = 2 ^ k" by blast
    have "k = 0 \<or> k = 1 \<or> k = 2 \<or> k = 3 \<or> k = 4 \<or> 5 \<le> k" by linarith
    moreover have "(2 :: nat) ^ 5 \<le> 2 ^ k" if "5 \<le> k" using that by (intro power_increasing) auto
    ultimately show False using k by auto
  qed
  then show ?thesis using posix_memalign_errors [of 24 "build Hardened" 8 100 sample_shim] by simp
qed


theorem pool_alloc_wraps_witness:
  "fst (pool_alloc (2 ^ 64 - 32) (sample_shim\<lparr>g_pool_used := 64\<rparr>)) = 65536 + 64 + 16 \<and>
   g_pool_used (snd (pool_alloc (2 ^ 64 - 32) (sample_shim\<lparr>g_pool_used := 64\<rparr>))) = 48"
proof -
  have "pool_ok (sample_shim\<lparr>g_pool_used := 64\<rparr>)"
    by (simp add: pool_ok_def sample_shim_def shim_boot_def BOOTSTRAP_BYTES_def)
  then show ?thesis
    using pool_alloc_wraps [of "sample_shim\<lparr>g_pool_used := 64\<rparr>" 16] by (simp add: sample_shim_def shim_boot_def)
qed


end
