(* ===== verification/Mars_Blocks.thy ===== *)
theory Mars_Blocks
  imports Mars_Init
begin

unbundle bit_operations_syntax

text \<open>
  The blocks of a caller's buffer while operations work on them: tilings in which some blocks are
  open, and what each kind of step does to such a tiling and to the contents of the other blocks:
  writing inside an open block, cutting one in two, merging two, publishing one, and the bin
  operations.
\<close>

section \<open>Heaps with blocks under construction\<close>

text \<open>While an operation works on a block, the block has an extent and a neighbour bit but need not
  have a valid header checksum, canary or footer. \<open>X\<close> is the set of such open blocks. Everything else
  is closed.\<close>

definition room :: "mm_config \<Rightarrow> bytes \<Rightarrow> nat \<Rightarrow> bool" where
  "room c m p \<longleftrightarrow> (mm_is_used m p \<longrightarrow> mm_is_quarantined m p \<or>
     MM_HDR_SIZE c + mm_requested_size c m p + MM_TRAIL c \<le> mm_block_size m p)"

definition closed :: "mm_config \<Rightarrow> mm_state \<Rightarrow> nat \<Rightarrow> bool" where
  "closed c st p \<longleftrightarrow> mm_header_ok c st p \<and> mm_canary_ok c st p \<and> room c (mem st) p \<and>
     (\<not> mm_is_used (mem st) p \<longrightarrow>
        load64 (mem st) (mm_block_end (mem st) p - 8) = of_nat (mm_block_size (mem st) p))"

text \<open>\<open>pf\<close> is whether the block before is free, \<^const>\<open>None\<close> where that block is open.\<close>

definition flag_ok :: "mm_state \<Rightarrow> nat set \<Rightarrow> bool option \<Rightarrow> nat \<Rightarrow> bool" where
  "flag_ok st X pf p \<longleftrightarrow> (case pf of None \<Rightarrow> True
     | Some f \<Rightarrow> mm_prev_in_use (mem st) p = (\<not> f) \<and> (p \<notin> X \<longrightarrow> f \<longrightarrow> mm_is_used (mem st) p))"

definition free_flag :: "mm_state \<Rightarrow> nat set \<Rightarrow> nat \<Rightarrow> bool option" where
  "free_flag st X p = (if p \<in> X then None else Some (\<not> mm_is_used (mem st) p))"

fun ptiled :: "mm_config \<Rightarrow> mm_state \<Rightarrow> nat set \<Rightarrow> nat \<Rightarrow> bool option \<Rightarrow> nat \<Rightarrow> nat list \<Rightarrow> bool" where
  "ptiled c st X z pf p [] \<longleftrightarrow> p = z"
| "ptiled c st X z pf p (b # bs) \<longleftrightarrow>
     b = p \<and> mm_is_block c st p \<and> flag_ok st X pf p \<and> (p \<notin> X \<longrightarrow> closed c st p) \<and>
     ptiled c st X z (free_flag st X p) (p + mm_block_size (mem st) p) bs"

definition last_flag :: "mm_state \<Rightarrow> nat set \<Rightarrow> bool option \<Rightarrow> nat list \<Rightarrow> bool option" where
  "last_flag st X pf xs = (if xs = [] then pf else free_flag st X (last xs))"

lemma last_flag_Cons [simp]: "last_flag st X pf (b # xs) = last_flag st X (free_flag st X b) xs"
  by (simp add: last_flag_def)

lemma last_flag_Nil [simp]: "last_flag st X pf [] = pf"
  by (simp add: last_flag_def)

lemma ptiled_append:
  "ptiled c st X z pf p (xs @ b # ys) \<longleftrightarrow>
     ptiled c st X b pf p xs \<and> ptiled c st X z (last_flag st X pf xs) b (b # ys)"
  by (induction xs arbitrary: pf p) auto

lemma is_block_size: "mm_is_block c st p \<Longrightarrow> MM_MIN_BLOCK c \<le> mm_block_size (mem st) p"
  by (rule mm_is_block_bounds)

lemma is_block_pos: "mm_is_block c st p \<Longrightarrow> 0 < mm_block_size (mem st) p"
  using is_block_size [of c st p] layout_bounds(6) [of c] by linarith

lemma ptiled_le: "ptiled c st X z pf p bs \<Longrightarrow> p \<le> z"
  by (induction bs arbitrary: pf p) (auto dest: add_leD1)

lemma ptiled_bounds:
  "ptiled c st X z pf p bs \<Longrightarrow> q \<in> set bs \<Longrightarrow> p \<le> q \<and> q + mm_block_size (mem st) q \<le> z \<and> mm_is_block c st q"
proof (induction bs arbitrary: pf p)
  case (Cons b bs)
  then show ?case using ptiled_le [of c st X z] by fastforce
qed simp

lemma ptiled_apart:
  assumes "ptiled c st X z pf p (xs @ b # ys)"
  shows "q \<in> set xs \<Longrightarrow> q + mm_block_size (mem st) q \<le> b"
    and "q \<in> set ys \<Longrightarrow> b + mm_block_size (mem st) b \<le> q"
    and "b \<notin> set xs" and "b \<notin> set ys"
proof -
  have t: "ptiled c st X b pf p xs" "mm_is_block c st b"
      "ptiled c st X z (free_flag st X b) (b + mm_block_size (mem st) b) ys"
    using assms by (auto simp: ptiled_append)
  show l: "q \<in> set xs \<Longrightarrow> q + mm_block_size (mem st) q \<le> b" for q using ptiled_bounds [OF t(1)] by blast
  show r: "q \<in> set ys \<Longrightarrow> b + mm_block_size (mem st) b \<le> q" for q using ptiled_bounds [OF t(3)] by blast
  show "b \<notin> set xs" "b \<notin> set ys" using l [of b] r [of b] is_block_pos [OF t(2)] by auto
qed

lemma ptiled_distinct: "ptiled c st X z pf p bs \<Longrightarrow> distinct bs"
proof (induction bs arbitrary: pf p)
  case (Cons b bs)
  then have "ptiled c st X z pf p ([] @ b # bs)" by simp
  from ptiled_apart(4) [OF this] show ?case using Cons by auto
qed simp

lemma ptiled_disjoint:
  assumes "ptiled c st X z pf p bs" "x \<in> set bs" "y \<in> set bs" "x \<noteq> y"
  shows "x + mm_block_size (mem st) x \<le> y \<or> y + mm_block_size (mem st) y \<le> x"
proof -
  obtain xs ys where bs: "bs = xs @ x # ys" using assms(2) by (meson split_list)
  then show ?thesis using assms(3,4) ptiled_apart(1,2) [OF assms(1) [unfolded bs], of y] by auto
qed

text \<open>Opening a block.\<close>

lemma ptiled_open:
  "ptiled c st X z pf p bs \<Longrightarrow> ptiled c st (insert b X) z pf p bs \<and> ptiled c st (insert b X) z None p bs"
proof (induction bs arbitrary: pf p)
  case (Cons x bs)
  have "ptiled c st (insert b X) z (free_flag st (insert b X) x) (x + mm_block_size (mem st) x) bs"
    using Cons by (auto simp: free_flag_def)
  then show ?case using Cons.prems by (auto simp: flag_ok_def split: option.splits)
qed simp

text \<open>The open tilings are the tilings of a consistent heap when no block is open.\<close>

lemma ptiled_tiled: "ptiled c st {} z (Some pf) p bs \<Longrightarrow> tiled c st z pf p bs"
proof (induction bs arbitrary: pf p)
  case (Cons b bs)
  then have "b < z" using ptiled_bounds [OF Cons.prems, of b] is_block_pos [of c st b] by auto
  then show ?case using Cons by (auto simp: closed_def flag_ok_def free_flag_def block_inv_def)
qed simp

lemma tiled_ptiled:
  "tiled c st z pf p bs \<Longrightarrow> \<forall>b \<in> set bs. room c (mem st) b \<Longrightarrow> ptiled c st {} z (Some pf) p bs"
proof (induction bs arbitrary: pf p)
  case (Cons b bs)
  then show ?case
    using mm_header_ok_is_block by (auto simp: closed_def flag_ok_def free_flag_def block_inv_def)
qed simp

section \<open>A caller's buffer\<close>

definition user_heap :: "mm_config \<Rightarrow> mm_state \<Rightarrow> nat \<Rightarrow> bool" where
  "user_heap c st u \<longleftrightarrow> spans (g_arena st) = [u] \<and> u \<noteq> 0 \<and> kind (descs st u) = MM_SPAN_USER \<and>
     0 < lo (descs st u) \<and> lo (descs st u) \<le> hi (descs st u) \<and> hi (descs st u) \<le> 2 ^ 64 \<and>
     (lo (descs st u) + MM_HDR_SIZE c) mod 16 = 0 \<and> hi (descs st u) - lo (descs st u) < 2 ^ 58 \<and>
     total_bytes (g_arena st) = hi (descs st u) - lo (descs st u) \<and>
     fresh_spans (g_arena st) = 0 \<and> \<not> growable (g_arena st) \<and>
     (\<forall>q. lo (descs st u) \<le> q \<and> q < hi (descs st u) \<longrightarrow> mm_span_of st q = u)"

text \<open>What no step on the blocks of a buffer changes.\<close>

definition shell :: "mm_state \<Rightarrow> mm_state \<Rightarrow> bool" where
  "shell st st' \<longleftrightarrow> same_registry st st' \<and> mm_self st' = mm_self st \<and>
     g_scrub_interval st' = g_scrub_interval st \<and> g_scrub_budget st' = g_scrub_budget st \<and>
     (let a = g_arena st; a' = g_arena st'
      in spans a' = spans a \<and> secret a' = secret a \<and> total_bytes a' = total_bytes a \<and>
         fresh_spans a' = fresh_spans a \<and> growable a' = growable a \<and> lost_bytes a' = lost_bytes a \<and>
         mode a' = mode a \<and> span_count a' = span_count a)"

lemma shell_refl [simp]: "shell st st"
  by (simp add: shell_def)

lemma shell_trans: "shell st st' \<Longrightarrow> shell st' st'' \<Longrightarrow> shell st st''"
  by (simp add: shell_def Let_def same_registry_def)

lemma shellD:
  assumes "shell st st'"
  shows "same_registry st st'" "descs st' = descs st" "secret (g_arena st') = secret (g_arena st)"
    "mode (g_arena st') = mode (g_arena st)" "lost_bytes (g_arena st') = lost_bytes (g_arena st)"
    "spans (g_arena st') = spans (g_arena st)" "mm_span_of st' q = mm_span_of st q"
  using assms mm_span_of_cong [of st st' q] by (simp_all add: shell_def Let_def same_registry_def)

lemma shell_upd [simp]: "shell st (upd_mem f st)" "shell st (mm_fail e st)"
  by (simp_all add: shell_def, simp_all add: upd_mem_def mm_fail_def)

lemma shell_seal [simp]: "shell st (mm_seal c b st)"
  by (simp add: shell_def, simp add: mm_seal_def Let_def upd_mem_def)

lemma user_heap_shell: "user_heap c st u \<Longrightarrow> shell st st' \<Longrightarrow> user_heap c st' u"
  using mm_span_of_cong [of st st'] by (auto simp: user_heap_def shell_def Let_def same_registry_def)

lemma user_block_iff:
  assumes "user_heap c st u" "lo (descs st u) \<le> p" "p < hi (descs st u)"
  shows "mm_is_block c st p \<longleftrightarrow> 16 dvd p - lo (descs st u) \<and> MM_MIN_BLOCK c \<le> mm_block_size (mem st) p \<and>
    p + mm_block_size (mem st) p \<le> hi (descs st u)"
proof -
  have u: "mm_span_of st p = u" "u \<noteq> 0" "p \<noteq> 0" using assms by (auto simp: user_heap_def)
  then show ?thesis
    using assms(2,3) by (auto simp: mm_is_block_def Let_def block_ok_in_def start_ok_in_def mod_eq_0_iff_dvd)
qed

section \<open>Changes elsewhere\<close>

lemma closed_cong:
  assumes "shell st st'" "same_on p (MM_HDR_SIZE c) (mem st) (mem st')" "tail_bytes_same c p (mem st) (mem st')"
  shows "closed c st' p \<longleftrightarrow> closed c st p"
proof -
  note sh = shellD [OF assms(1)]
  note h = header_fields_cong [OF assms(2)]
  have can: "canary_at c (mem st') p = canary_at c (mem st) p" by (simp add: canary_at_def h)
  have "mm_canary_ok c st' p \<longleftrightarrow> mm_canary_ok c st p"
    using assms(3) load64_cong [of "canary_at c (mem st) p" "mem st" "mem st'"] sh(3)
    by (auto simp: mm_canary_ok_def h can mm_block_index_cong [OF sh(1)] tail_bytes_same_def)
  moreover have "mm_is_used (mem st) p \<or> load64 (mem st') (mm_block_end (mem st) p - 8) =
      load64 (mem st) (mm_block_end (mem st) p - 8)"
    using assms(3) load64_cong [of "mm_block_end (mem st) p - 8" "mem st" "mem st'"]
    by (auto simp: tail_bytes_same_def split: if_splits)
  ultimately show ?thesis
    using mm_header_ok_cong [OF sh(1,3) assms(2)] by (auto simp: closed_def room_def h)
qed

text \<open>A tiling survives every change that keeps the headers of its blocks and the tails of its closed
  ones.\<close>

lemma ptiled_cong:
  assumes "ptiled c st X z pf p bs" "shell st st'" "X \<inter> set bs = Y \<inter> set bs"
    and "\<And>q. q \<in> set bs \<Longrightarrow> same_on q (MM_HDR_SIZE c) (mem st) (mem st')"
    and "\<And>q. q \<in> set bs \<Longrightarrow> q \<notin> X \<Longrightarrow> tail_bytes_same c q (mem st) (mem st')"
  shows "ptiled c st' Y z pf p bs"
  using assms
proof (induction bs arbitrary: pf p)
  case (Cons b bs)
  have t: "b = p" "mm_is_block c st p" "flag_ok st X pf p" "p \<notin> X \<longrightarrow> closed c st p"
      "ptiled c st X z (free_flag st X p) (p + mm_block_size (mem st) p) bs"
    using Cons.prems(1) by simp_all
  have hd: "same_on p (MM_HDR_SIZE c) (mem st) (mem st')" using Cons.prems(4) t(1) by simp
  note h = header_fields_cong [OF hd]
  have X: "p \<in> X \<longleftrightarrow> p \<in> Y" using Cons.prems(3) t(1) by auto
  have "same_on p 8 (mem st) (mem st')" using hd layout_bounds(1) [of c] by (auto simp: same_on_def)
  then have "mm_is_block c st' p" using mm_is_block_cong [OF shellD(1) [OF assms(2)]] t(2) by simp
  moreover have "flag_ok st' Y pf p" using t(3) X h by (simp add: flag_ok_def split: option.splits)
  moreover have "p \<notin> Y \<longrightarrow> closed c st' p"
    using t(4) X closed_cong [OF assms(2) hd] Cons.prems(5) t(1) by simp
  moreover have "free_flag st' Y p = free_flag st X p" using X h by (simp add: free_flag_def)
  moreover have "ptiled c st' Y z (free_flag st X p) (p + mm_block_size (mem st) p) bs"
    using Cons.prems(3) by (intro Cons.IH [OF t(5) assms(2)] Cons.prems(4,5)) auto
  ultimately show ?case using t(1) h(2) by simp
qed simp

text \<open>The bytes that decide about a block are inside it.\<close>

lemma requested_in_block:
  assumes "MM_MIN_BLOCK c \<le> mm_block_size m p"
  shows "MM_HDR_SIZE c + mm_requested_size c m p \<le> mm_block_size m p"
  using mm_requested_in_block [of c "mm_word m p"] assms layout_bounds(3) [of c]
  by (simp add: mm_requested_size_def mm_block_size_def)

lemma block_bytes_same:
  assumes "same_on p (mm_block_size (mem st) p) (mem st) m'" "MM_MIN_BLOCK c \<le> mm_block_size (mem st) p"
  shows "same_on p (MM_HDR_SIZE c) (mem st) m'"
    and "room c (mem st) p \<Longrightarrow> tail_bytes_same c p (mem st) m'"
proof -
  note lb = layout_bounds(3,6) [of c]
  show "same_on p (MM_HDR_SIZE c) (mem st) m'" using assms lb by (auto simp: same_on_def)
  assume can: "room c (mem st) p"
  have "MM_HAS_CANARY c \<Longrightarrow> 8 \<le> MM_TRAIL c" by (cases c rule: layout_cases) simp_all
  then have "MM_HAS_CANARY c \<Longrightarrow> mm_is_used (mem st) p \<Longrightarrow> mm_is_quarantined (mem st) p \<or>
      canary_at c (mem st) p + 8 \<le> p + mm_block_size (mem st) p"
    using can by (auto simp: room_def canary_at_def mm_payload_of_def)
  moreover have "p \<le> canary_at c (mem st) p" by (simp add: canary_at_def mm_payload_of_def)
  ultimately show "tail_bytes_same c p (mem st) m'"
    using assms lb by (auto simp: tail_bytes_same_def same_on_def mm_block_end_def)
qed

section \<open>Steps on an open block\<close>

definition tiles :: "mm_config \<Rightarrow> mm_state \<Rightarrow> nat \<Rightarrow> nat set \<Rightarrow> nat list \<Rightarrow> bool" where
  "tiles c st u X bs \<longleftrightarrow>
     user_heap c st u \<and> ptiled c st X (hi (descs st u)) (Some False) (lo (descs st u)) bs"

definition blocks_same :: "nat set \<Rightarrow> mm_state \<Rightarrow> mm_state \<Rightarrow> bool" where
  "blocks_same S st st' \<longleftrightarrow> (\<forall>q \<in> S. same_on q (mm_block_size (mem st) q) (mem st) (mem st'))"

lemma seg_outside:
  assumes "ptiled c st X z pf p bs" "shell st st'" "within b e (mem st) (mem st')" "X \<inter> set bs = Y \<inter> set bs"
    and "\<And>q. q \<in> set bs \<Longrightarrow> q + mm_block_size (mem st) q \<le> b \<or> e \<le> q"
  shows "ptiled c st' Y z pf p bs" and "blocks_same (set bs) st st'"
proof -
  have same: "same_on q (mm_block_size (mem st) q) (mem st) (mem st')" if "q \<in> set bs" for q
    using assms(5) [OF that] by (intro within_same_on [OF assms(3)]) auto
  then show "blocks_same (set bs) st st'" by (simp add: blocks_same_def)
  have size: "MM_MIN_BLOCK c \<le> mm_block_size (mem st) q" if "q \<in> set bs" for q
    using ptiled_bounds [OF assms(1) that] is_block_size by blast
  have room: "room c (mem st) q" if "q \<in> set bs" "q \<notin> X" for q
  proof -
    obtain xs ys where bs: "bs = xs @ q # ys" using \<open>q \<in> set bs\<close> by (meson split_list)
    show ?thesis using assms(1) \<open>q \<notin> X\<close> unfolding bs ptiled_append by (simp add: closed_def)
  qed
  show "ptiled c st' Y z pf p bs"
    by (rule ptiled_cong [OF assms(1,2,4)]) (simp_all add: block_bytes_same [OF same size] room)
qed

lemma ptiled_none: "ptiled c st X z (Some f) p bs \<Longrightarrow> ptiled c st X z None p bs"
  by (cases bs) (simp_all add: flag_ok_def)

text \<open>The segments on both sides of a stretch of open blocks \<open>[b, e)\<close> in which memory changes.\<close>

lemma sides:
  assumes t: "tiles c st u X (xs @ b # mid @ ys)" and "b \<in> X" "set mid \<subseteq> X"
    and e: "e = b + (\<Sum>q \<leftarrow> b # mid. mm_block_size (mem st) q)"
    and sh: "shell st st'" and w: "within b e (mem st) (mem st')"
    and Y: "X \<inter> set (xs @ ys) = Y \<inter> set (xs @ ys)"
  shows "user_heap c st' u" "ptiled c st' Y b (Some False) (lo (descs st' u)) xs"
    "last_flag st' Y (Some False) xs = last_flag st X (Some False) xs"
    "ptiled c st' Y (hi (descs st' u)) None e ys" "blocks_same (set xs \<union> set ys) st st'"
    "lo (descs st u) \<le> b" "e \<le> hi (descs st u)" "b < hi (descs st u)"
    "16 dvd b - lo (descs st u)" "flag_ok st X (last_flag st X (Some False) xs) b" "b < e"
proof -
  let ?lo = "lo (descs st u)" and ?hi = "hi (descs st u)"
  have uh: "user_heap c st u" and pt: "ptiled c st X ?hi (Some False) ?lo (xs @ b # mid @ ys)"
    using t by (simp_all add: tiles_def)
  have d: "descs st' = descs st" using shellD [OF sh] by simp
  show "user_heap c st' u" by (rule user_heap_shell [OF uh sh])
  have p1: "ptiled c st X b (Some False) ?lo xs" and blk: "mm_is_block c st b"
    and fl: "flag_ok st X (last_flag st X (Some False) xs) b"
    and p2: "ptiled c st X ?hi None (b + mm_block_size (mem st) b) (mid @ ys)"
    using pt \<open>b \<in> X\<close> by (simp_all add: ptiled_append free_flag_def)
  show "flag_ok st X (last_flag st X (Some False) xs) b" by (rule fl)
  have p3: "ptiled c st X ?hi None e ys"
    using p2 \<open>set mid \<subseteq> X\<close> e
    by (induction mid arbitrary: b) (auto simp: free_flag_def add.assoc [symmetric])
  show lo: "?lo \<le> b" using ptiled_le [OF p1] .
  have "b < b + mm_block_size (mem st) b" using is_block_pos [OF blk] by simp
  also have "\<dots> \<le> e" using e by simp
  finally show be: "b < e" .
  show eh: "e \<le> ?hi" using ptiled_le [OF p3] .
  then show "b < ?hi" using be by simp
  then show "16 dvd b - ?lo" using user_block_iff [OF uh lo] blk by simp
  note s1 = seg_outside [OF p1 sh w, of Y] and s3 = seg_outside [OF p3 sh w, of Y]
  have b1: "q + mm_block_size (mem st) q \<le> b \<or> e \<le> q" if "q \<in> set xs" for q using ptiled_bounds [OF p1 that] by blast
  have b3: "q + mm_block_size (mem st) q \<le> b \<or> e \<le> q" if "q \<in> set ys" for q using ptiled_bounds [OF p3 that] by blast
  have Yx: "X \<inter> set xs = Y \<inter> set xs" "X \<inter> set ys = Y \<inter> set ys" using Y by auto
  show "ptiled c st' Y b (Some False) (lo (descs st' u)) xs" using s1(1) [OF Yx(1) b1] d by simp
  show "ptiled c st' Y (hi (descs st' u)) None e ys" using s3(1) [OF Yx(2) b3] d by simp
  show bs: "blocks_same (set xs \<union> set ys) st st'"
    using s1(2) [OF Yx(1) b1] s3(2) [OF Yx(2) b3] by (auto simp: blocks_same_def)
  show "last_flag st' Y (Some False) xs = last_flag st X (Some False) xs"
  proof (cases "xs = []")
    case False
    then have l: "last xs \<in> set xs" by simp
    then have "same_on (last xs) (MM_HDR_SIZE c) (mem st) (mem st')"
      using bs ptiled_bounds [OF p1 l] is_block_size
      by (intro block_bytes_same(1)) (auto simp: blocks_same_def)
    then show ?thesis using False l Yx(1) header_fields_cong(3) by (auto simp: last_flag_def free_flag_def)
  qed simp
qed

text \<open>A write inside an open block that keeps its extent and neighbour bit.\<close>

lemma step_edit:
  assumes t: "tiles c st u X (xs @ b # ys)" and "b \<in> X" and sh: "shell st st'"
    and w: "within b (b + mm_block_size (mem st) b) (mem st) (mem st')"
    and size: "mm_block_size (mem st') b = mm_block_size (mem st) b"
    and prev: "mm_prev_in_use (mem st') b = mm_prev_in_use (mem st) b"
  shows "tiles c st' u X (xs @ b # ys)" and "blocks_same (set xs \<union> set ys) st st'"
proof -
  note s = sides [of c st u X xs b "[]" ys, OF _ \<open>b \<in> X\<close> _ refl sh _ refl, simplified, OF t w]
  have "mm_is_block c st b" using t by (simp add: tiles_def ptiled_append)
  then have "MM_MIN_BLOCK c \<le> mm_block_size (mem st) b" by (rule is_block_size)
  then have blk: "mm_is_block c st' b"
    using s user_block_iff [OF s(1), of b] shellD(2) [OF sh] size by simp
  have "flag_ok st' X (last_flag st X (Some False) xs) b"
    using s(10) \<open>b \<in> X\<close> prev by (simp add: flag_ok_def split: option.splits)
  then show "tiles c st' u X (xs @ b # ys)"
    using s(1-4) blk \<open>b \<in> X\<close> size by (simp add: tiles_def ptiled_append free_flag_def)
  show "blocks_same (set xs \<union> set ys) st st'" by (rule s(5))
qed

text \<open>Two open blocks become one.\<close>

lemma step_merge:
  assumes t: "tiles c st u X (xs @ b # n # ys)" and "b \<in> X" "n \<in> X" and sh: "shell st st'"
    and w: "within b (n + mm_block_size (mem st) n) (mem st) (mem st')"
    and size: "mm_block_size (mem st') b = mm_block_size (mem st) b + mm_block_size (mem st) n"
    and prev: "mm_prev_in_use (mem st') b = mm_prev_in_use (mem st) b"
  shows "tiles c st' u (X - {n}) (xs @ b # ys)" and "blocks_same (set xs \<union> set ys) st st'"
proof -
  have pt: "ptiled c st X (hi (descs st u)) (Some False) (lo (descs st u)) (xs @ b # n # ys)"
    using t by (simp add: tiles_def)
  have n: "n = b + mm_block_size (mem st) b" using pt by (simp add: ptiled_append)
  have "n \<notin> set xs" "n \<noteq> b" "n \<notin> set ys"
    using ptiled_distinct [OF pt] by auto
  then have Y: "X \<inter> set (xs @ ys) = (X - {n}) \<inter> set (xs @ ys)" by auto
  have e: "n + mm_block_size (mem st) n = b + (\<Sum>q \<leftarrow> b # [n]. mm_block_size (mem st) q)" using n by simp
  note s = sides [of c st u X xs b "[n]" ys, OF _ \<open>b \<in> X\<close> _ e sh w Y, simplified, OF t \<open>n \<in> X\<close>]
  have "mm_is_block c st b" using t by (simp add: tiles_def ptiled_append)
  then have "MM_MIN_BLOCK c \<le> mm_block_size (mem st) b" by (rule is_block_size)
  then have blk: "mm_is_block c st' b"
    using s(1,6,7,8,9) user_block_iff [OF s(1), of b] shellD(2) [OF sh] size n by simp
  have "flag_ok st' (X - {n}) (last_flag st X (Some False) xs) b"
    using s(10) \<open>b \<in> X\<close> \<open>n \<noteq> b\<close> prev by (simp add: flag_ok_def split: option.splits)
  then show "tiles c st' u (X - {n}) (xs @ b # ys)"
    using s(1-4) blk \<open>b \<in> X\<close> \<open>n \<noteq> b\<close> size n by (simp add: tiles_def ptiled_append free_flag_def add.assoc)
  show "blocks_same (set xs \<union> set ys) st st'" by (rule s(5))
qed

text \<open>One open block becomes two.\<close>

lemma step_cut:
  assumes t: "tiles c st u X (xs @ b # ys)" and "b \<in> X" and sh: "shell st st'"
    and w: "within b (b + mm_block_size (mem st) b) (mem st) (mem st')"
    and k: "mm_block_size (mem st') b = k" "MM_MIN_BLOCK c \<le> k"
    and rest: "mm_block_size (mem st') (b + k) + k = mm_block_size (mem st) b"
      "MM_MIN_BLOCK c \<le> mm_block_size (mem st') (b + k)"
    and prev: "mm_prev_in_use (mem st') b = mm_prev_in_use (mem st) b"
  shows "tiles c st' u (insert (b + k) X) (xs @ b # (b + k) # ys)" and "blocks_same (set xs \<union> set ys) st st'"
proof -
  let ?Y = "insert (b + k) X"
  have pt: "ptiled c st X (hi (descs st u)) (Some False) (lo (descs st u)) (xs @ b # ys)"
    using t by (simp add: tiles_def)
  have min: "0 < MM_MIN_BLOCK c" using layout_bounds(6) [of c] by linarith
  have "b + k \<notin> set xs"
    using ptiled_apart(1) [OF pt, of "b + k"] k(2) min by auto
  moreover have "b + k \<notin> set ys" using ptiled_apart(2) [OF pt, of "b + k"] rest min by auto
  ultimately have Y: "X \<inter> set (xs @ ys) = ?Y \<inter> set (xs @ ys)" by auto
  note s = sides [of c st u X xs b "[]" ys, OF _ \<open>b \<in> X\<close> _ refl sh _ Y, simplified, OF t w]
  have k16: "16 dvd k" using w_block_size_bounds(2) [of "mm_word (mem st') b"] k(1) by (simp add: mm_block_size_def)
  have lohi: "lo (descs st' u) \<le> b" "b + mm_block_size (mem st) b \<le> hi (descs st' u)"
    "16 dvd b - lo (descs st' u)"
    using s(6,7,9) shellD(2) [OF sh] by simp_all
  have "b + k < b + mm_block_size (mem st) b" using rest min by linarith
  then have lohi2: "b + k < hi (descs st' u)" using lohi(2) by (rule order.strict_trans2)
  have "b + k - lo (descs st' u) = (b - lo (descs st' u)) + k" using lohi(1) by linarith
  then have "16 dvd b + k - lo (descs st' u)" using k16 lohi(3) by (metis dvd_add)
  moreover have "b + k + mm_block_size (mem st') (b + k) \<le> hi (descs st' u)" "b + k \<le> hi (descs st' u)"
    using lohi(2) rest(1) by linarith+
  ultimately have blk: "mm_is_block c st' b" "mm_is_block c st' (b + k)"
    using user_block_iff [OF s(1), of b] user_block_iff [OF s(1), of "b + k"] lohi lohi2 k rest(2) by simp_all
  have "flag_ok st' ?Y (last_flag st X (Some False) xs) b"
    using s(10) \<open>b \<in> X\<close> prev by (simp add: flag_ok_def split: option.splits)
  moreover have e: "b + mm_block_size (mem st) b = b + k + mm_block_size (mem st') (b + k)" using rest(1) by simp
  note ys = s(4) [unfolded e]
  ultimately show "tiles c st' u ?Y (xs @ b # (b + k) # ys)"
    using s(1-3) ys blk \<open>b \<in> X\<close> k(1) by (simp add: tiles_def ptiled_append free_flag_def flag_ok_def)
  show "blocks_same (set xs \<union> set ys) st st'" by (rule s(5))
qed

section \<open>What the program holding a block sees\<close>

definition view :: "mm_config \<Rightarrow> bytes \<Rightarrow> nat \<Rightarrow> nat \<times> bool \<times> bool \<times> nat \<times> u32 \<times> u8 list" where
  "view c m q = (mm_block_size m q, mm_is_used m q, mm_is_quarantined m q, mm_requested_size c m q,
     if MM_HAS_CRC c then payload_crc m q else 0,
     if mm_is_quarantined m q then [] else mem_read m (mm_payload_of c q) (mm_requested_size c m q))"

definition kept :: "mm_config \<Rightarrow> nat set \<Rightarrow> mm_state \<Rightarrow> mm_state \<Rightarrow> bool" where
  "kept c S st st' \<longleftrightarrow>
     (\<forall>q \<in> S. mm_is_used (mem st') q = mm_is_used (mem st) q \<and>
        mm_block_size (mem st') q = mm_block_size (mem st) q \<and>
        (mm_is_used (mem st) q \<longrightarrow> view c (mem st') q = view c (mem st) q))"

lemma kept_refl [simp]: "kept c S st st"
  by (simp add: kept_def)

lemma view_fields:
  assumes "view c m' q = view c m q"
  shows "mm_block_size m' q = mm_block_size m q" "mm_is_used m' q = mm_is_used m q"
    "mm_is_quarantined m' q = mm_is_quarantined m q" "mm_requested_size c m' q = mm_requested_size c m q"
  using assms by (simp_all add: view_def)

lemma kept_trans: "kept c S st st' \<Longrightarrow> kept c S st' st'' \<Longrightarrow> kept c S st st''"
  unfolding kept_def using view_fields(2) by metis

lemma kept_mono: "kept c S st st' \<Longrightarrow> T \<subseteq> S \<Longrightarrow> kept c T st st'"
  by (auto simp: kept_def)

lemma kept_mem: "mem st' = mem st \<Longrightarrow> kept c S st st'"
  by (simp add: kept_def)

lemma view_same:
  assumes "same_on q (mm_block_size m q) m m'" "MM_MIN_BLOCK c \<le> mm_block_size m q"
  shows "view c m' q = view c m q"
proof -
  have "MM_HDR_SIZE c \<le> mm_block_size m q" using assms(2) layout_bounds(3) [of c] by linarith
  then have hd: "same_on q (MM_HDR_SIZE c) m m'" using assms(1) by (auto simp: same_on_def)
  note h = header_fields_cong [OF hd]
  have "same_on (mm_payload_of c q) (mm_requested_size c m q) m m'"
    using assms(1) requested_in_block [OF assms(2)] by (auto simp: same_on_def mm_payload_of_def)
  then have "mem_read m' (mm_payload_of c q) (mm_requested_size c m q) =
      mem_read m (mm_payload_of c q) (mm_requested_size c m q)" using mem_read_cong by metis
  then show ?thesis using h by (simp add: view_def)
qed

lemma blocks_same_kept:
  assumes "blocks_same S st st'" "\<And>q. q \<in> S \<Longrightarrow> mm_is_block c st q"
  shows "kept c S st st'"
proof -
  have v: "view c (mem st') q = view c (mem st) q" if "q \<in> S" for q
    using assms that view_same is_block_size by (simp add: blocks_same_def)
  show ?thesis unfolding kept_def using v view_fields(1,2) [OF v] by blast
qed

section \<open>Rewriting a neighbour bit\<close>

text \<open>Setting the neighbour bit of a closed block and sealing it again keeps it closed.\<close>

definition set_flag :: "mm_config \<Rightarrow> nat \<Rightarrow> bool \<Rightarrow> mm_state \<Rightarrow> mm_state" where
  "set_flag c n v st = mm_seal c n (upd_mem (\<lambda>m. mm_set_prev_in_use m n v) st)"

lemma set_flag_closed:
  fixes v :: bool
  assumes cl: "closed c st n"
  defines "st' \<equiv> set_flag c n v st"
  shows "closed c st' n" "mm_prev_in_use (mem st') n = v" "view c (mem st') n = view c (mem st) n"
    "mm_block_size (mem st') n = mm_block_size (mem st) n" "mm_is_used (mem st') n = mm_is_used (mem st) n"
    "mm_is_quarantined (mem st') n = mm_is_quarantined (mem st) n"
    "within n (n + mm_block_size (mem st) n) (mem st) (mem st')"
    "\<not> mm_is_used (mem st) n \<Longrightarrow> within n (n + MM_HDR_SIZE c) (mem st) (mem st')"

proof -
  let ?s = "upd_mem (\<lambda>m. mm_set_prev_in_use m n v) st"
  have hok: "mm_header_ok c st n" using cl by (simp add: closed_def)
  have blk: "mm_is_block c st n" by (rule mm_header_ok_is_block [OF hok])
  note min = is_block_size [OF blk] and lb = layout_bounds [of c]
  have word: "mm_word (mm_set_prev_in_use (mem st) n v) n = w_set_prev_in_use (mm_word (mem st) n) v"
    by (simp add: mm_set_prev_in_use_def)
  have f: "mm_block_size (mem ?s) n = mm_block_size (mem st) n" "mm_is_used (mem ?s) n = mm_is_used (mem st) n"
    "mm_is_quarantined (mem ?s) n = mm_is_quarantined (mem st) n"
    "mm_requested_size c (mem ?s) n = mm_requested_size c (mem st) n" "mm_prev_in_use (mem ?s) n = v"
    by (simp_all add: mm_block_size_def mm_is_used_def mm_is_quarantined_def mm_requested_size_def
        mm_prev_in_use_def word w_requested_size_def)
  have pc: "payload_crc (mem ?s) n = payload_crc (mem st) n"
    by (simp add: mm_set_prev_in_use_def mem_simps)
  have w1: "within n (n + 8) (mem st) (mem ?s)"
    by (simp add: mm_set_prev_in_use_def set_word_at_def within_store)
  have mins: "MM_MIN_BLOCK c \<le> mm_block_size (mem ?s) n" using f(1) min by simp
  note sf = mm_seal_fields [OF mins] and ch = mm_seal_changes [OF mins]
  show "mm_prev_in_use (mem st') n = v" "mm_block_size (mem st') n = mm_block_size (mem st) n"
    "mm_is_used (mem st') n = mm_is_used (mem st) n" "mm_is_quarantined (mem st') n = mm_is_quarantined (mem st) n"
    using sf f by (simp_all add: st'_def set_flag_def)
  have rq: "mm_requested_size c (mem st') n = mm_requested_size c (mem st) n"
    using sf f by (simp add: st'_def set_flag_def)
  have e: "mm_block_end (mem ?s) n = n + mm_block_size (mem st) n" using f(1) by (simp add: mm_block_end_def)
  have changes: "a \<ge> n \<and> (a < n + MM_HDR_SIZE c \<or> MM_HAS_MIRROR c \<and> mm_is_used (mem st) n \<and>
      n + mm_block_size (mem st) n - 16 \<le> a \<and> a < n + mm_block_size (mem st) n)" if "mem st' a \<noteq> mem st a" for a
  proof (cases "mem st' a = mem ?s a")
    case True
    then have "n \<le> a \<and> a < n + 8" using that w1 by (auto simp: within_def) (meson not_le)+
    then show ?thesis using lb(1) by auto
  next
    case False
    then have c: "n + 8 \<le> a \<and> a < n + 12 \<or> MM_HAS_MIRROR c \<and> mm_is_used (mem st) n \<and>
        n + mm_block_size (mem st) n - 16 \<le> a \<and> a < n + mm_block_size (mem st) n"
      using ch [of a] e f(2) by (auto simp: st'_def set_flag_def)
    have "MM_HAS_CRC c" using False by (cases "MM_HAS_CRC c") (auto simp: st'_def set_flag_def mm_seal_def MM_HAS_MIRROR_def MM_HAS_CRC_def)
    then have "MM_HDR_SIZE c = 16" by (simp add: MM_HDR_SIZE_def)
    then show ?thesis using c min lb(6) by auto
  qed
  show "within n (n + mm_block_size (mem st) n) (mem st) (mem st')"
    unfolding within_def
  proof (intro allI impI)
    fix x assume out: "x < n \<or> n + mm_block_size (mem st) n \<le> x"
    show "mem st' x = mem st x"
    proof (rule ccontr)
      assume "mem st' x \<noteq> mem st x"
      from changes [OF this] show False using out min lb(3) by linarith
    qed
  qed
  show "within n (n + MM_HDR_SIZE c) (mem st) (mem st')" if "\<not> mm_is_used (mem st) n"
    using changes that unfolding within_def by (meson not_le)
  have room: "room c (mem st) n" using cl by (simp add: closed_def)
  have keep: "mem st' a = mem st a" if "n + MM_HDR_SIZE c \<le> a" "a < n + mm_block_size (mem st) n - MM_MIRROR_SIZE c
      \<or> \<not> mm_is_used (mem st) n" for a
  proof (rule ccontr)
    assume "mem st' a \<noteq> mem st a"
    moreover have "MM_HAS_MIRROR c \<Longrightarrow> MM_MIRROR_SIZE c = 16" by (cases c rule: layout_cases) simp_all
    ultimately show False using changes [of a] that by auto
  qed
  have mirror: "MM_MIRROR_SIZE c \<le> MM_TRAIL c" "MM_HAS_CANARY c \<Longrightarrow> MM_TRAIL c = 8 + MM_MIRROR_SIZE c"
    by (cases c rule: layout_cases; simp)+
  have pc': "payload_crc (mem st') n = payload_crc (mem st) n" if "MM_HAS_CRC c"
    using mm_seal_mem(2) [OF mins that] pc by (simp add: st'_def set_flag_def)
  have req: "mm_is_quarantined (mem st) n \<or> same_on (mm_payload_of c n) (mm_requested_size c (mem st) n) (mem st) (mem st')"
  proof (cases "mm_is_used (mem st) n")
    case False
    then show ?thesis by (auto simp: mm_requested_size_def mm_is_used_def w_requested_size_def same_on_def)
  next
    case True
    then show ?thesis using room keep mirror(1) by (fastforce simp: room_def same_on_def mm_payload_of_def)
  qed
  then have "mm_is_quarantined (mem st) n \<or> mem_read (mem st') (mm_payload_of c n) (mm_requested_size c (mem st) n) =
      mem_read (mem st) (mm_payload_of c n) (mm_requested_size c (mem st) n)" using mem_read_cong by metis
  then show "view c (mem st') n = view c (mem st) n"
    using pc' rq sf f by (auto simp: view_def st'_def set_flag_def)
  have "mm_is_block c ?s n"
    using blk f(1) by (simp add: mm_is_block_def Let_def block_ok_in_def)
  then have hok': "mm_header_ok c st' n" unfolding st'_def set_flag_def by (rule mm_seal_header_ok)
  have idx: "mm_block_index st' n = mm_block_index st n" "secret (g_arena st') = secret (g_arena st)"
    by (simp_all add: st'_def set_flag_def)
  have "mm_canary_ok c st' n"
  proof (cases "MM_HAS_CANARY c \<and> mm_is_used (mem st) n \<and> \<not> mm_is_quarantined (mem st) n")
    case False
    then show ?thesis using sf f by (auto simp: mm_canary_ok_def st'_def set_flag_def)
  next
    case True
    then have "same_on (canary_at c (mem st) n) 8 (mem st) (mem st')"
      using room keep mirror(2) by (fastforce simp: room_def same_on_def canary_at_def mm_payload_of_def)
    then have "load64 (mem st') (canary_at c (mem st) n) = load64 (mem st) (canary_at c (mem st) n)"
      using load64_cong by metis
    moreover have "canary_at c (mem st') n = canary_at c (mem st) n" by (simp add: canary_at_def rq)
    ultimately show ?thesis using cl True idx sf f by (simp add: closed_def mm_canary_ok_def st'_def set_flag_def)
  qed
  moreover have "room c (mem st') n"
    using room rq sf f by (simp add: room_def st'_def set_flag_def)
  moreover have "load64 (mem st') (mm_block_end (mem st') n - 8) = of_nat (mm_block_size (mem st') n)"
    if free: "\<not> mm_is_used (mem st') n"
  proof -
    have fr: "\<not> mm_is_used (mem st) n" using free sf f by (simp add: st'_def set_flag_def)
    have en: "mm_block_end (mem st') n = mm_block_end (mem st) n" "mm_block_size (mem st') n = mm_block_size (mem st) n"
      using sf f by (simp_all add: st'_def set_flag_def mm_block_end_def)
    have "same_on (mm_block_end (mem st) n - 8) 8 (mem st) (mem st')"
      using keep fr min lb(3) by (auto simp: same_on_def mm_block_end_def)
    then have "load64 (mem st') (mm_block_end (mem st) n - 8) = load64 (mem st) (mm_block_end (mem st) n - 8)"
      using load64_cong by metis
    then show ?thesis using cl fr en by (simp add: closed_def)
  qed
  ultimately show "closed c st' n" using hok' by (simp add: closed_def)
qed

section \<open>Publishing\<close>

lemma ptiled_open_set: "ptiled c st X z pf p bs \<Longrightarrow> X \<inter> set bs = Y \<inter> set bs \<Longrightarrow> ptiled c st Y z pf p bs"
  by (erule ptiled_cong [OF _ shell_refl]) (simp_all add: tail_bytes_same_def)

lemma tiles_split:
  "tiles c st u X (xs @ b # ys) \<longleftrightarrow> user_heap c st u \<and>
     ptiled c st X b (Some False) (lo (descs st u)) xs \<and> mm_is_block c st b \<and>
     flag_ok st X (last_flag st X (Some False) xs) b \<and> (b \<notin> X \<longrightarrow> closed c st b) \<and>
     ptiled c st X (hi (descs st u)) (free_flag st X b) (b + mm_block_size (mem st) b) ys"
  by (auto simp: tiles_def ptiled_append)

lemma last_flag_open_set:
  "X \<inter> set xs = Y \<inter> set xs \<Longrightarrow> last_flag st X pf xs = last_flag st Y pf xs"
proof (cases "xs = []")
  case False
  moreover assume "X \<inter> set xs = Y \<inter> set xs"
  ultimately have "last xs \<in> X \<longleftrightarrow> last xs \<in> Y" using last_in_set [of xs] by blast
  then show ?thesis using False by (simp add: last_flag_def free_flag_def)
qed simp

text \<open>Closing a block that has become valid.\<close>

lemma step_close:
  assumes t: "tiles c st u X (xs @ b # ys)" and cl: "closed c st b"
    and low: "last_flag st X (Some False) xs = Some True \<Longrightarrow> mm_is_used (mem st) b"
    and up: "ys \<noteq> [] \<Longrightarrow> flag_ok st X (Some (\<not> mm_is_used (mem st) b)) (hd ys)"
  shows "tiles c st u (X - {b}) (xs @ b # ys)"
proof -
  have pt: "ptiled c st X (hi (descs st u)) (Some False) (lo (descs st u)) (xs @ b # ys)"
    using t by (simp add: tiles_def)
  have n: "b \<notin> set xs" "b \<notin> set ys" using ptiled_apart(3,4) [OF pt] by auto
  note s = t [unfolded tiles_split]
  have ys: "ptiled c st X (hi (descs st u)) (Some (\<not> mm_is_used (mem st) b)) (b + mm_block_size (mem st) b) ys"
    using s up by (cases ys) auto
  have "X \<inter> set xs = (X - {b}) \<inter> set xs" using n by blast
  then have lf: "last_flag st (X - {b}) (Some False) xs = last_flag st X (Some False) xs"
    using last_flag_open_set by metis
  have "flag_ok st (X - {b}) (last_flag st (X - {b}) (Some False) xs) b"
    using s low lf by (auto simp: flag_ok_def split: option.splits)
  moreover have "ptiled c st (X - {b}) b (Some False) (lo (descs st u)) xs"
    using s n by (rule_tac ptiled_open_set [where X = X]) blast+
  moreover have "ptiled c st (X - {b}) (hi (descs st u)) (Some (\<not> mm_is_used (mem st) b)) (b + mm_block_size (mem st) b) ys"
    using ys n by (rule_tac ptiled_open_set [where X = X]) blast+
  ultimately show ?thesis using s cl by (simp add: tiles_split free_flag_def)
qed

text \<open>Rewriting the neighbour bit after an open block.\<close>

lemma step_flag:
  assumes t: "tiles c st u X (xs @ n # ys)" and n: "n \<notin> X" and op: "last_flag st X (Some False) xs = None"
  shows "tiles c (set_flag c n v st) u X (xs @ n # ys)"
    and "blocks_same (set xs \<union> set ys) st (set_flag c n v st)"
    and "last_flag (set_flag c n v st) X (Some False) xs = None"
proof -
  let ?s = "set_flag c n v st"
  note s = t [unfolded tiles_split]
  have cl: "closed c st n" using s n by simp
  note f = set_flag_closed [OF cl, of v]
  have sh: "shell st ?s" by (simp add: set_flag_def shell_trans [of st "upd_mem (\<lambda>m. mm_set_prev_in_use m n v) st"])
  have d: "descs ?s = descs st" using shellD(2) [OF sh] .
  have p1: "ptiled c st X n (Some False) (lo (descs st u)) xs"
    and p2: "ptiled c st X (hi (descs st u)) (free_flag st X n) (n + mm_block_size (mem st) n) ys"
    using s by simp_all
  have xs: "ptiled c ?s X n (Some False) (lo (descs st u)) xs" "blocks_same (set xs) st ?s"
    using ptiled_bounds [OF p1] by (auto intro!: seg_outside [OF p1 sh f(7)])
  have ys: "ptiled c ?s X (hi (descs st u)) (free_flag st X n) (n + mm_block_size (mem st) n) ys" "blocks_same (set ys) st ?s"
    using ptiled_bounds [OF p2] by (auto intro!: seg_outside [OF p2 sh f(7)])
  show "blocks_same (set xs \<union> set ys) st ?s" using xs(2) ys(2) by (auto simp: blocks_same_def)
  show lf: "last_flag ?s X (Some False) xs = None" using op unfolding last_flag_def free_flag_def by (metis option.distinct(1))
  have "free_flag ?s X n = free_flag st X n" by (simp add: free_flag_def f(5))
  moreover have "mm_is_block c ?s n" using f(1) by (simp add: closed_def mm_header_ok_is_block)
  moreover have "user_heap c ?s u" using user_heap_shell [OF _ sh] s by blast
  ultimately show "tiles c ?s u X (xs @ n # ys)"
    unfolding tiles_split lf d f(4) using xs(1) ys(1) f(1) by (simp add: flag_ok_def)
qed

text \<open>What a block needs to be published: a used one its canary, a free one used neighbours.\<close>

definition ready :: "mm_config \<Rightarrow> mm_state \<Rightarrow> nat set \<Rightarrow> nat list \<Rightarrow> nat \<Rightarrow> nat list \<Rightarrow> bool" where
  "ready c st X xs b ys \<longleftrightarrow>
     (if mm_is_used (mem st) b then mm_canary_ok c st b \<and> room c (mem st) b
      else last_flag st X (Some False) xs \<noteq> Some True \<and> (ys \<noteq> [] \<longrightarrow> mm_is_used (mem st) (hd ys)))"

text \<open>Sealing makes a block valid once footer or canary are in place.\<close>

lemma seal_closes:
  assumes blk: "mm_is_block c st b" and rm: "room c (mem st) b" and can: "mm_canary_ok c st b"
    and foot: "\<not> mm_is_used (mem st) b \<Longrightarrow>
      load64 (mem st) (mm_block_end (mem st) b - 8) = of_nat (mm_block_size (mem st) b)"
  shows "closed c (mm_seal c b st) b" and "view c (mem (mm_seal c b st)) b = view c (mem st) b"
proof -
  let ?s = "mm_seal c b st"
  note min = is_block_size [OF blk] and lb = layout_bounds [of c]
  note sf = mm_seal_fields [OF min] and ch = mm_seal_changes [OF min]
  have mirror: "MM_MIRROR_SIZE c \<le> MM_TRAIL c" "MM_HAS_CANARY c \<Longrightarrow> MM_TRAIL c = 8 + MM_MIRROR_SIZE c"
    "MM_HAS_MIRROR c \<Longrightarrow> MM_MIRROR_SIZE c = 16" "\<not> MM_HAS_CRC c \<Longrightarrow> \<not> MM_HAS_MIRROR c"
    by (cases c rule: layout_cases; simp)+
  have keep: "mem ?s a = mem st a"
    if "b + MM_HDR_SIZE c \<le> a" "a < mm_block_end (mem st) b - MM_MIRROR_SIZE c \<or> \<not> mm_is_used (mem st) b" for a
  proof (cases "MM_HAS_CRC c")
    case False
    then show ?thesis using mirror(4) by (simp add: mm_seal_def)
  next
    case True
    then have "MM_HDR_SIZE c = 16" by (simp add: MM_HDR_SIZE_def)
    show ?thesis
    proof (rule ccontr)
      assume "mem ?s a \<noteq> mem st a"
      from ch [OF this] show False using that \<open>MM_HDR_SIZE c = 16\<close> mirror(3) by auto
    qed
  qed
  have hok: "mm_header_ok c ?s b" by (rule mm_seal_header_ok [OF blk])
  have "mm_canary_ok c ?s b"
  proof (cases "MM_HAS_CANARY c \<and> mm_is_used (mem st) b \<and> \<not> mm_is_quarantined (mem st) b")
    case False
    then show ?thesis using sf by (auto simp: mm_canary_ok_def)
  next
    case True
    then have "same_on (canary_at c (mem st) b) 8 (mem st) (mem ?s)"
      using rm keep mirror(2) by (fastforce simp: room_def same_on_def canary_at_def mm_payload_of_def mm_block_end_def)
    then have "load64 (mem ?s) (canary_at c (mem st) b) = load64 (mem st) (canary_at c (mem st) b)"
      using load64_cong by metis
    moreover have "canary_at c (mem ?s) b = canary_at c (mem st) b" by (simp add: canary_at_def sf)
    ultimately show ?thesis using can True sf by (simp add: mm_canary_ok_def)
  qed
  moreover have "load64 (mem ?s) (mm_block_end (mem ?s) b - 8) = of_nat (mm_block_size (mem ?s) b)"
    if "\<not> mm_is_used (mem ?s) b"
  proof -
    have fr: "\<not> mm_is_used (mem st) b" using that sf by simp
    have "same_on (mm_block_end (mem st) b - 8) 8 (mem st) (mem ?s)"
      using keep fr min lb(3) by (auto simp: same_on_def mm_block_end_def)
    then have "load64 (mem ?s) (mm_block_end (mem st) b - 8) = load64 (mem st) (mm_block_end (mem st) b - 8)"
      using load64_cong by metis
    then show ?thesis using foot [OF fr] sf by simp
  qed
  ultimately show "closed c ?s b" using hok rm sf by (simp add: closed_def room_def)
  have "mm_is_quarantined (mem st) b \<or> same_on (mm_payload_of c b) (mm_requested_size c (mem st) b) (mem st) (mem ?s)"
  proof (cases "mm_is_used (mem st) b")
    case False
    then show ?thesis by (auto simp: mm_requested_size_def mm_is_used_def w_requested_size_def same_on_def)
  next
    case True
    then show ?thesis using rm keep mirror(1) by (fastforce simp: room_def same_on_def mm_payload_of_def mm_block_end_def)
  qed
  then have "mm_is_quarantined (mem st) b \<or> mem_read (mem ?s) (mm_payload_of c b) (mm_requested_size c (mem st) b) =
      mem_read (mem st) (mm_payload_of c b) (mm_requested_size c (mem st) b)" using mem_read_cong by metis
  then show "view c (mem ?s) b = view c (mem st) b"
    using mm_seal_mem(2) [OF min] sf by (auto simp: view_def)
qed

text \<open>Steps that change memory and nothing else of the state.\<close>

definition mem_only :: "mm_state \<Rightarrow> mm_state \<Rightarrow> bool" where
  "mem_only st st' \<longleftrightarrow> st' = st\<lparr>mem := mem st'\<rparr>"

lemma mem_only_refl [simp]: "mem_only st st"
  by (simp add: mem_only_def)

lemma mem_only_trans: "mem_only r s \<Longrightarrow> mem_only s t \<Longrightarrow> mem_only r t"
  unfolding mem_only_def by (cases r; cases s; cases t) simp

lemma mem_only_upd [simp]: "mem_only st (upd_mem f st)"
  by (simp add: mem_only_def upd_mem_def)

lemma mem_only_seal [simp]: "mem_only st (mm_seal c b st)"
  unfolding mm_seal_def Let_def by (auto intro: mem_only_trans [OF mem_only_upd mem_only_upd])

lemma mem_only_set_flag [simp]: "mem_only st (set_flag c n v st)"
  unfolding set_flag_def by (rule mem_only_trans [OF mem_only_upd mem_only_seal])

lemma mem_onlyD:
  assumes "mem_only st st'"
  shows "g_arena st' = g_arena st" "descs st' = descs st" "mm_self st' = mm_self st" "shell st st'"
    "g_last_error st' = g_last_error st"
proof -
  obtain m where "st' = st\<lparr>mem := m\<rparr>" using assms unfolding mem_only_def by blast
  then show "g_arena st' = g_arena st" "descs st' = descs st" "mm_self st' = mm_self st" "shell st st'"
    "g_last_error st' = g_last_error st"
    by (simp_all add: g_arena_def shell_def same_registry_def)
qed

text \<open>Steps that leave the free lists alone keep, of every other block, what its holder sees and, if it
  is free, its links.\<close>

definition still :: "mm_config \<Rightarrow> nat set \<Rightarrow> mm_state \<Rightarrow> mm_state \<Rightarrow> bool" where
  "still c S st st' \<longleftrightarrow> (\<forall>q \<in> S. view c (mem st') q = view c (mem st) q \<and>
     (\<not> mm_is_used (mem st) q \<longrightarrow> same_on (mm_payload_of c q) 16 (mem st) (mem st')))"

lemma still_refl [simp]: "still c S st st"
  by (simp add: still_def)

lemma still_kept: "still c S st st' \<Longrightarrow> kept c S st st'"
  unfolding still_def kept_def using view_fields(1,2) by blast

lemma still_trans: "still c S st st' \<Longrightarrow> still c S st' st'' \<Longrightarrow> still c S st st''"
  using view_fields(2) same_on_trans unfolding still_def by (metis (no_types, lifting))

lemma still_mono: "still c S st st' \<Longrightarrow> T \<subseteq> S \<Longrightarrow> still c T st st'"
  by (auto simp: still_def)

lemma still_Un: "still c (S \<union> T) st st' \<longleftrightarrow> still c S st st' \<and> still c T st st'"
  by (auto simp: still_def)

lemma blocks_same_still:
  assumes "blocks_same S st st'" "\<And>q. q \<in> S \<Longrightarrow> mm_is_block c st q"
  shows "still c S st st'"
proof -
  have "same_on (mm_payload_of c q) 16 (mem st) (mem st')" if "q \<in> S" for q
    using assms(1) that is_block_size [OF assms(2) [OF that]] layout_bounds(3) [of c]
    by (auto simp: blocks_same_def same_on_def mm_payload_of_def)
  then show ?thesis
    using assms view_same is_block_size by (simp add: blocks_same_def still_def)
qed

lemma tiles_blocks: "tiles c st u X bs \<Longrightarrow> q \<in> set bs \<Longrightarrow> mm_is_block c st q"
  using ptiled_bounds by (auto simp: tiles_def)

lemma set_flag_still:
  assumes "closed c st n" shows "still c {n} st (set_flag c n v st)"
proof -
  note f = set_flag_closed [OF assms, of v]
  have "same_on (mm_payload_of c n) 16 (mem st) (mem (set_flag c n v st))" if "\<not> mm_is_used (mem st) n"
    using f(8) [OF that] by (auto simp: within_def same_on_def mm_payload_of_def)
  then show ?thesis using f(3) by (simp add: still_def)
qed

lemma publish_step:
  assumes t: "tiles c st u X (xs @ b # ys)" and b: "b \<in> X" and r: "ready c st X xs b ys"
    and nx: "ys \<noteq> [] \<Longrightarrow> hd ys \<notin> X"
  obtains st' where "mm_publish c b st = (True, st')" "tiles c st' u (X - {b}) (xs @ b # ys)"
    "mem_only st st'" "still c (set xs \<union> set ys) st st'" "view c (mem st') b = view c (mem st) b"
proof -
  let ?f = "if \<not> mm_is_used (mem st) b then upd_mem (\<lambda>m. mm_write_free_footer m b) st else st"
  let ?s = "mm_seal c b ?f"
  note sp = t [unfolded tiles_split]
  have blk: "mm_is_block c st b" using sp by simp
  note min = is_block_size [OF blk] and lb = layout_bounds [of c]
  have hdr: "same_on b (MM_HDR_SIZE c) (mem st) (mem ?f)" and wf: "within b (b + mm_block_size (mem st) b) (mem st) (mem ?f)"
    using min lb(3) by (auto simp: mm_write_free_footer_def Let_def mm_block_end_def intro!: same_on_store64 within_store)
  note h = header_fields_cong [OF hdr]
  have "same_on b 8 (mem st) (mem ?f)" using hdr lb(1) by (auto simp: same_on_def)
  then have blkf: "mm_is_block c ?f b" using blk mm_is_block_cong [of st ?f b c] by simp
  have minf: "MM_MIN_BLOCK c \<le> mm_block_size (mem ?f) b" using min h(2) by simp
  note sf = mm_seal_fields [OF minf]
  have rmf: "room c (mem ?f) b" unfolding room_def h(2,3,5,6) using r by (auto simp: ready_def room_def split: if_splits)
  have canf: "mm_canary_ok c ?f b"
    using h(3) r by (cases "mm_is_used (mem st) b") (simp_all add: ready_def mm_canary_ok_def)
  have foot: "load64 (mem ?f) (mm_block_end (mem ?f) b - 8) = of_nat (mm_block_size (mem ?f) b)"
    if "\<not> mm_is_used (mem ?f) b"
    using that h(2,3,7) by (auto simp: mm_write_free_footer_def Let_def)
  note cl = seal_closes [OF blkf rmf canf foot]
  have vf: "view c (mem ?f) b = view c (mem st) b"
    using h by (simp add: view_def mm_requested_size_def mm_is_used_def w_requested_size_def mem_read_def)
  have shf: "shell st ?f" by simp
  have sh: "shell st ?s" using shell_trans [OF shf shell_seal] by simp
  have w: "within b (b + mm_block_size (mem st) b) (mem st) (mem ?s)"
    using within_trans [OF wf mm_seal_mem(4) [OF minf, unfolded mm_block_end_def h(2)]] .
  have size: "mm_block_size (mem ?s) b = mm_block_size (mem st) b" "mm_prev_in_use (mem ?s) b = mm_prev_in_use (mem st) b"
    "mm_is_used (mem ?s) b = mm_is_used (mem st) b" "mm_block_end (mem ?s) b = mm_block_end (mem st) b"
    using sf h by simp_all
  have t1: "tiles c ?s u X (xs @ b # ys)" and bs1: "blocks_same (set xs \<union> set ys) st ?s"
    using step_edit [OF t b sh w size(1,2)] by blast+
  have still1: "still c (set xs \<union> set ys) st ?s"
    by (rule blocks_same_still [OF bs1]) (use tiles_blocks [OF t] in auto)
  have only1: "mem_only st ?s"
    by (rule mem_only_trans [OF _ mem_only_seal]) simp
  have pub: "mm_publish c b st = (let (n, st') = mm_recover_next c b ?s in if n = 0 then (True, st')
      else let used = mm_is_used (mem st') b in (True, if mm_prev_in_use (mem st') n \<noteq> used
                             then set_flag c n used st' else st'))"
    unfolding mm_publish_def set_flag_def Let_def using blk by simp
  note sp1 = t1 [unfolded tiles_split]
  have span: "mm_span_of ?s b = u" "u \<noteq> 0" "descs ?s = descs st"
  proof -
    have "lo (descs st u) \<le> b" using sp ptiled_le by blast
    moreover have "b + mm_block_size (mem st) b \<le> hi (descs st u)" using sp ptiled_le by blast
    ultimately show "mm_span_of ?s b = u" "u \<noteq> 0"
      using sp shellD(7) [OF sh] is_block_pos [OF blk] by (auto simp: user_heap_def)
    show "descs ?s = descs st" using shellD(2) [OF sh] .
  qed
  have lf: "last_flag ?s X (Some False) xs = last_flag st X (Some False) xs"
  proof (cases "xs = []")
    case False
    then show ?thesis using still1 view_fields(2) [of c "mem ?s" "last xs" "mem st"]
      by (simp add: last_flag_def free_flag_def still_def)
  qed simp
  have low: "last_flag ?s X (Some False) xs = Some True \<Longrightarrow> mm_is_used (mem ?s) b"
    using r lf size(3) by (simp add: ready_def split: if_splits)
  have vb: "view c (mem ?s) b = view c (mem st) b" using cl(2) vf by simp
  show ?thesis
  proof (cases ys)
    case Nil
    then have e: "mm_block_end (mem ?s) b = hi (descs ?s u)" using sp size(4) span(3) by (simp add: mm_block_end_def)
    then have rec: "mm_recover_next c b ?s = (0, ?s)" using span by (simp add: mm_recover_next_def Let_def)
    have "mm_publish c b st = (True, ?s)" unfolding pub rec Let_def prod.case by simp
    moreover have "tiles c ?s u (X - {b}) (xs @ b # ys)"
      by (rule step_close [OF t1 cl(1) low]) (simp_all add: Nil)
    ultimately show ?thesis using that only1 still1 vb by blast
  next
    case (Cons n zs)
    then have nX: "n \<notin> X" using nx by simp
    have n: "n = mm_block_end (mem ?s) b" "closed c ?s n" "mm_is_block c ?s n"
      using sp1 Cons nX by (simp_all add: mm_block_end_def)
    have hok: "mm_header_ok c ?s n" using n(2) by (simp add: closed_def)
    have nz: "n \<noteq> 0" using hok by (simp add: mm_header_ok_def)
    have "n + mm_block_size (mem ?s) n \<le> hi (descs ?s u)" using sp1 Cons ptiled_le by fastforce
    then have fit: "\<not> hi (descs ?s u) \<le> n" "\<not> hi (descs ?s u) - n < MM_MIN_BLOCK c"
      using is_block_pos [OF n(3)] is_block_size [OF n(3)] by linarith+
    have rec: "mm_recover_next c b ?s = (n, ?s)"
      using span hok fit n(1) by (simp add: mm_recover_next_def Let_def)
    let ?v = "mm_is_used (mem ?s) b"
    define s2 where "s2 = (if mm_prev_in_use (mem ?s) n \<noteq> ?v then set_flag c n ?v ?s else ?s)"
    have pubn: "mm_publish c b st = (True, s2)" unfolding pub rec Let_def prod.case s2_def using nz by simp
    have op: "last_flag ?s X (Some False) (xs @ [b]) = None" using b by (simp add: last_flag_def free_flag_def)
    have t1': "tiles c ?s u X ((xs @ [b]) @ n # zs)" using t1 Cons by simp
    note fl = step_flag [OF t1' nX op, of ?v] and fc = set_flag_closed [OF n(2), of ?v]
    have t2: "tiles c s2 u X (xs @ b # ys)" using fl(1) t1' Cons by (simp add: s2_def)
    have bs2: "blocks_same (insert b (set xs \<union> set zs)) ?s s2"
      using fl(2) by (auto simp: s2_def blocks_same_def)
    have st2: "still c (insert b (set xs \<union> set zs)) ?s s2"
      by (rule blocks_same_still [OF bs2]) (use tiles_blocks [OF t1] Cons in auto)
    have stn: "still c {n} ?s s2" using set_flag_still [OF n(2)] by (simp add: s2_def)
    have all2: "still c (insert b (set xs \<union> set ys)) ?s s2"
      using st2 stn Cons by (auto simp: still_def)
    have prevn: "mm_prev_in_use (mem s2) n = ?v" "mm_is_used (mem s2) n = mm_is_used (mem ?s) n"
      using fc by (auto simp: s2_def)
    have vb2: "view c (mem s2) b = view c (mem ?s) b" using all2 by (simp add: still_def)
    note vbf = view_fields [OF vb2]
    have clb: "closed c s2 b"
    proof -
      have bb: "same_on b (mm_block_size (mem ?s) b) (mem ?s) (mem s2)" using bs2 by (simp add: blocks_same_def)
      have sh2: "shell ?s s2" by (auto simp: s2_def set_flag_def intro: shell_trans [OF shell_upd(1) shell_seal])
      have "MM_MIN_BLOCK c \<le> mm_block_size (mem ?s) b" using sp1 is_block_size by blast
      moreover have "room c (mem ?s) b" using cl(1) by (simp add: closed_def)
      ultimately show ?thesis using closed_cong [OF sh2] block_bytes_same [OF bb] cl(1) by blast
    qed
    have low2: "last_flag s2 X (Some False) xs = Some True \<Longrightarrow> mm_is_used (mem s2) b"
    proof -
      assume l: "last_flag s2 X (Some False) xs = Some True"
      have "last_flag s2 X (Some False) xs = last_flag ?s X (Some False) xs"
      proof (cases "xs = []")
        case False
        then have "view c (mem s2) (last xs) = view c (mem ?s) (last xs)" using all2 by (simp add: still_def)
        from view_fields(2) [OF this] show ?thesis using False by (simp add: last_flag_def free_flag_def)
      qed simp
      then show "mm_is_used (mem s2) b" using l low vbf(2) by simp
    qed
    have up2: "flag_ok s2 X (Some (\<not> mm_is_used (mem s2) b)) (hd ys)"
    proof -
      have "mm_is_used (mem ?s) n = mm_is_used (mem st) n"
        using still1 Cons view_fields(2) [of c "mem ?s" n "mem st"] by (simp add: still_def)
      then have "\<not> mm_is_used (mem s2) b \<Longrightarrow> mm_is_used (mem s2) n"
        using r Cons vbf(2) size(3) prevn(2) by (simp add: ready_def)
      then show ?thesis using Cons prevn(1) vbf(2) by (auto simp: flag_ok_def)
    qed
    have "tiles c s2 u (X - {b}) (xs @ b # ys)" by (rule step_close [OF t2 clb low2 up2])
    moreover have "mem_only ?s s2" by (simp add: s2_def)
    then have "mem_only st s2" by (rule mem_only_trans [OF only1])
    moreover have "still c (set xs \<union> set ys) st s2"
      by (rule still_trans [OF still1 still_mono [OF all2 subset_insertI]])
    moreover have "view c (mem s2) b = view c (mem st) b" using vb vb2 by simp
    ultimately show ?thesis using that pubn by blast
  qed
qed

section \<open>Bins and tiling together\<close>

definition filed :: "mm_config \<Rightarrow> mm_state \<Rightarrow> nat set \<Rightarrow> nat list \<Rightarrow> (nat \<Rightarrow> nat list) \<Rightarrow> bool" where
  "filed c st X bs L \<longleftrightarrow> bins_rep c st L \<and> members L = {q \<in> set bs. q \<notin> X \<and> \<not> mm_is_used (mem st) q}"

text \<open>Steps that keep the patrol cursor.\<close>

definition calm :: "mm_state \<Rightarrow> mm_state \<Rightarrow> bool" where
  "calm st st' \<longleftrightarrow> shell st st' \<and> scrub_at (g_arena st') = scrub_at (g_arena st) \<and>
     scrub_span (g_arena st') = scrub_span (g_arena st)"

lemma calm_refl [simp]: "calm st st"
  by (simp add: calm_def)

lemma calm_trans: "calm r s \<Longrightarrow> calm s t \<Longrightarrow> calm r t"
  using shell_trans by (auto simp: calm_def)

lemma calm_shell: "calm st st' \<Longrightarrow> shell st st'"
  by (simp add: calm_def)

lemma mem_only_calm: "mem_only st st' \<Longrightarrow> calm st st'"
  using mem_onlyD [of st st'] by (simp add: calm_def)

lemma links_tiles:
  assumes t: "tiles c st u X bs" and sh: "shell st st'" and l: "links_only c S (mem st) (mem st')"
    and S: "\<forall>x \<in> S. x \<in> set bs \<and> \<not> mm_is_used (mem st) x"
  shows "tiles c st' u X bs" "blocks_same (set bs - S) st st'" "kept c (set bs) st st'"
    "\<And>q. q \<in> set bs \<Longrightarrow> same_on q (MM_HDR_SIZE c) (mem st) (mem st')"
proof -
  have pt: "ptiled c st X (hi (descs st u)) (Some False) (lo (descs st u)) bs" and uh: "user_heap c st u"
    using t by (simp_all add: tiles_def)
  have big: "MM_MIN_BLOCK c \<le> mm_block_size (mem st) q" if "q \<in> set bs" for q
    using is_block_size tiles_blocks [OF t that] by blast
  have touched: "\<exists>x \<in> S. x + MM_HDR_SIZE c \<le> a \<and> a < x + MM_HDR_SIZE c + 16" if "mem st a \<noteq> mem st' a" for a
    using l that by (metis links_only_def)
  have other: "same_on q (mm_block_size (mem st) q) (mem st) (mem st')" if q: "q \<in> set bs" "q \<notin> S" for q
    unfolding same_on_def
  proof (intro allI impI, rule ccontr)
    fix a assume a: "q \<le> a \<and> a < q + mm_block_size (mem st) q" "mem st a \<noteq> mem st' a"
    then obtain x where x: "x \<in> S" "x + MM_HDR_SIZE c \<le> a" "a < x + MM_HDR_SIZE c + 16" using touched by blast
    then have xb: "x \<in> set bs" "x \<noteq> q" using S q by auto
    have "a < x + mm_block_size (mem st) x" using x(3) big [OF xb(1)] layout_bounds(3) [of c] by linarith
    then show False using ptiled_disjoint [OF pt xb(1) q(1) xb(2)] a(1) x(2) by linarith
  qed
  then show "blocks_same (set bs - S) st st'" by (simp add: blocks_same_def)
  have self: "same_on q (MM_HDR_SIZE c) (mem st) (mem st') \<and> tail_bytes_same c q (mem st) (mem st')"
    if q: "q \<in> S" for q
  proof -
    have qb: "q \<in> set bs" "\<not> mm_is_used (mem st) q" using S q by auto
    have "mem st' a = mem st a" if a: "q \<le> a" "a < q + MM_HDR_SIZE c \<or> q + MM_HDR_SIZE c + 16 \<le> a"
        "a < q + mm_block_size (mem st) q" for a
    proof (rule ccontr)
      assume "mem st' a \<noteq> mem st a"
      then obtain x where x: "x \<in> S" "x + MM_HDR_SIZE c \<le> a" "a < x + MM_HDR_SIZE c + 16" using touched [of a] by auto
      then have xb: "x \<in> set bs" "x \<noteq> q" using S a by auto
      have "a < x + mm_block_size (mem st) x" using x(3) big [OF xb(1)] layout_bounds(3) [of c] by linarith
      then show False using ptiled_disjoint [OF pt xb(1) qb(1) xb(2)] a x(2) by linarith
    qed
    then have eq: "mem st a = mem st' a" if "q \<le> a" "a < q + MM_HDR_SIZE c \<or> q + MM_HDR_SIZE c + 16 \<le> a"
        "a < q + mm_block_size (mem st) q" for a using that by metis
    have lb: "MM_HDR_SIZE c + 24 \<le> mm_block_size (mem st) q"
      using big [OF qb(1)] layout_bounds(3) [of c] by linarith
    then have "same_on q (MM_HDR_SIZE c) (mem st) (mem st')" unfolding same_on_def using eq by auto
    moreover have "same_on (mm_block_end (mem st) q - 8) 8 (mem st) (mem st')"
      unfolding same_on_def mm_block_end_def
    proof (intro allI impI)
      fix x assume "q + mm_block_size (mem st) q - 8 \<le> x \<and> x < q + mm_block_size (mem st) q - 8 + 8"
      then show "mem st x = mem st' x" using lb by (intro eq) linarith+
    qed
    ultimately show ?thesis using qb(2) by (simp add: tail_bytes_same_def)
  qed
  show hd: "same_on q (MM_HDR_SIZE c) (mem st) (mem st')" if "q \<in> set bs" for q
    using self other [OF that] block_bytes_same(1) [OF _ big [OF that]] by blast
  have room: "room c (mem st) q" if "q \<in> set bs" "q \<notin> X" for q
  proof -
    obtain xs ys where bs: "bs = xs @ q # ys" using \<open>q \<in> set bs\<close> by (meson split_list)
    show ?thesis using pt \<open>q \<notin> X\<close> unfolding bs ptiled_append by (simp add: closed_def)
  qed
  have tail: "tail_bytes_same c q (mem st) (mem st')" if "q \<in> set bs" "q \<notin> X" for q
    using self other [OF that(1)] block_bytes_same(2) [OF _ big [OF that(1)] room [OF that]] by blast
  have d: "descs st' = descs st" using shellD(2) [OF sh] .
  have "ptiled c st' X (hi (descs st u)) (Some False) (lo (descs st u)) bs"
    by (rule ptiled_cong [OF pt sh refl hd tail])
  then show "tiles c st' u X bs" using user_heap_shell [OF uh sh] d by (simp add: tiles_def)
  have "view c (mem st') q = view c (mem st) q" if q: "q \<in> set bs" "mm_is_used (mem st) q" for q
    using view_same [OF other big] q S by blast
  moreover have "mm_is_used (mem st') q = mm_is_used (mem st) q" "mm_block_size (mem st') q = mm_block_size (mem st) q"
    if "q \<in> set bs" for q
    using header_fields_cong(2,3) [OF hd [OF that]] by simp_all
  ultimately show "kept c (set bs) st st'" by (simp add: kept_def)
qed

lemma bin_unlink_links:
  assumes "bins_rep c st L" "i < MM_BIN_COUNT" "b \<in> set (L i)"
  shows "links_only c (members L - {b}) (mem st) (mem (bin_unlink c b i st))"
proof -
  obtain xs ys where L: "L i = xs @ b # ys" using assms(3) by (meson split_list)
  have rep: "bin_rep c st i (xs @ b # ys)" using assms(1,2) L by (metis bins_rep_def)
  note nb = bin_rep_neighbours [OF rep]
  have d: "distinct (xs @ b # ys)" using rep by (simp add: bin_rep_def)
  have "x \<in> members L - {b}" if "x \<in> set xs \<union> set ys" for x
    using that d L members_memb [of x L i] assms(2) by auto
  then show ?thesis using nb(3,4) by (intro links_only_unlink) blast+
qed

lemma bins_calm: "calm st (bin_unlink c b i st)" "calm st (bin_push c b i st)"
proof -
  have sl: "mm_self (bin_unlink c b i st) = mm_self st" "mm_self (bin_push c b i st) = mm_self st"
    by (simp_all add: bin_unlink_def bin_push_def Let_def set_link_next_def set_link_prev_def)
  show "calm st (bin_unlink c b i st)" "calm st (bin_push c b i st)"
    unfolding calm_def shell_def using bin_unlink_frame(3) bin_push_frame(5) sl
    by (simp_all add: bin_unlink_def bin_push_def Let_def set_link_next_def set_link_prev_def bitmap_set_def bitmap_clear_def,
        simp_all add: upd_arena_def upd_mem_def same_registry_def)
qed

text \<open>Taking a free block off its list opens it.\<close>

lemma step_take:
  assumes t: "tiles c st u X bs" and f: "filed c st X bs L"
    and b: "b \<in> set bs" "b \<notin> X" "\<not> mm_is_used (mem st) b"
  defines "st' \<equiv> mm_bin_remove c b st"
  obtains L' where "tiles c st' u (insert b X) bs" "filed c st' (insert b X) bs L'" "calm st st'"
    "kept c (set bs) st st'" "blocks_same (insert b (X \<inter> set bs)) st st'"
    "mm_header_ok c st' b" "\<And>q. q \<in> set bs \<Longrightarrow> same_on q (MM_HDR_SIZE c) (mem st) (mem st')"
proof -
  have rep: "bins_rep c st L" and mem: "members L = {q \<in> set bs. q \<notin> X \<and> \<not> mm_is_used (mem st) q}"
    using f by (simp_all add: filed_def)
  have "b \<in> members L" using b mem by simp
  then obtain i where i: "i < MM_BIN_COUNT" "b \<in> set (L i)" by (auto simp: members_def)
  note rm = mm_bin_remove_unlink [OF rep i]
  let ?L = "L(i := remove1 b (L i))"
  have dist: "distinct (L i)" using rep i(1) by (auto simp: bins_rep_def bin_rep_def)
  have only: "b \<notin> set (L j)" if "j < MM_BIN_COUNT" "j \<noteq> i" for j
    using rep that i bin_rep_disjoint [of c st j "L j" i "L i" b] by (auto simp: bins_rep_def)
  have mem': "members ?L = members L - {b}"
    using only dist i by (auto simp: members_def set_remove1_eq split: if_splits)
  have li: "links_only c (members L - {b}) (mem st) (mem st')"
    unfolding st'_def rm(1) by (rule bin_unlink_links [OF rep i])
  have calm: "calm st st'" unfolding st'_def rm(1) by (rule bins_calm)
  have S: "\<forall>x \<in> members L - {b}. x \<in> set bs \<and> \<not> mm_is_used (mem st) x" using mem by simp
  note lt = links_tiles [OF t calm_shell [OF calm] li S]
  have t': "tiles c st' u (insert b X) bs" using lt(1) ptiled_open by (simp add: tiles_def)
  have used: "mm_is_used (mem st') q = mm_is_used (mem st) q" if "q \<in> set bs" for q
    using lt(4) [OF that] header_fields_cong(3) by blast
  have "filed c st' (insert b X) bs ?L"
    unfolding filed_def mem' mem using rm(2) used by (auto simp: st'_def)
  moreover have "blocks_same (insert b (X \<inter> set bs)) st st'"
    using lt(2) b mem by (auto simp: blocks_same_def)
  moreover have "mm_header_ok c st' b"
  proof -
    obtain xs ys where bs: "bs = xs @ b # ys" using b(1) by (meson split_list)
    have "mm_header_ok c st b" using t b(2) unfolding bs tiles_split by (simp add: closed_def)
    then show ?thesis using mm_header_ok_cong [OF _ _ lt(4) [OF b(1)]] shellD(1,3) [OF calm_shell [OF calm]] by blast
  qed
  ultimately show ?thesis using that t' calm lt(3,4) by blast
qed

text \<open>Putting a closed free block on its list.\<close>

lemma step_put:
  assumes t: "tiles c st u X bs" and rep: "bins_rep c st L"
    and mem: "members L = {q \<in> set bs. q \<notin> X \<and> \<not> mm_is_used (mem st) q} - {b}"
    and b: "b \<in> set bs" "b \<notin> X" "\<not> mm_is_used (mem st) b"
  defines "st' \<equiv> mm_bin_insert c b st"
  obtains L' where "tiles c st' u X bs" "filed c st' X bs L'" "calm st st'" "kept c (set bs) st st'"
    "blocks_same (X \<inter> set bs) st st'" "\<And>q. q \<in> set bs \<Longrightarrow> same_on q (MM_HDR_SIZE c) (mem st) (mem st')"
proof -
  have pt: "ptiled c st X (hi (descs st u)) (Some False) (lo (descs st u)) bs" and uh: "user_heap c st u"
    using t by (simp_all add: tiles_def)
  obtain xs ys where bs: "bs = xs @ b # ys" using b(1) by (meson split_list)
  have cl: "closed c st b" using t b(2) unfolding bs tiles_split by simp
  let ?i = "mm_bin_of c (mm_block_size (mem st) b)"
  have node: "node_ok c st b ?i" using cl b(3) tiles_blocks [OF t b(1)] by (simp add: node_ok_def closed_def)
  have big: "MM_MIN_BLOCK c \<le> mm_block_size (mem st) q" if "q \<in> set bs" for q
    using is_block_size tiles_blocks [OF t that] by blast
  have "apart c b x" if "x \<in> members L" for x
  proof -
    have x: "x \<in> set bs" "b \<noteq> x" using that mem by auto
    show ?thesis using ptiled_disjoint [OF pt b(1) x] big [OF b(1)] big [OF x(1)] unfolding apart_def by linarith
  qed
  moreover have "b < 2 ^ 64"
    using ptiled_bounds [OF pt b(1)] is_block_pos [OF tiles_blocks [OF t b(1)]] uh by (simp add: user_heap_def)
  ultimately have fit: "fileable c st L b" using node by (simp add: fileable_def)
  note ins = mm_bin_insert_push [OF rep fit]
  have i: "?i < MM_BIN_COUNT" by (rule mm_bin_of_less [OF mm_block_size_less])
  let ?L = "L(?i := b # L ?i)"
  have mem': "members ?L = insert b (members L)" by (rule members_upd [OF i])
  have head: "bins (g_arena st) ?i = 0 \<or> bins (g_arena st) ?i \<in> insert b (members L)"
  proof -
    have "bin_rep c st ?i (L ?i)" using rep i by (simp add: bins_rep_def)
    from bin_rep_head [OF this] show ?thesis using members_memb [of _ L ?i] i by (cases "L ?i") auto
  qed
  have li: "links_only c (insert b (members L)) (mem st) (mem st')"
    unfolding st'_def ins(1) by (rule links_only_push [OF insertI1 head])
  have calm: "calm st st'" unfolding st'_def ins(1) by (rule bins_calm)
  have S: "\<forall>x \<in> insert b (members L). x \<in> set bs \<and> \<not> mm_is_used (mem st) x" using mem b by auto
  note lt = links_tiles [OF t calm_shell [OF calm] li S]
  have used: "mm_is_used (mem st') q = mm_is_used (mem st) q" if "q \<in> set bs" for q
    using lt(4) [OF that] header_fields_cong(3) by blast
  have "filed c st' X bs ?L"
    unfolding filed_def mem' mem using ins(2) used b by (auto simp: st'_def)
  moreover have "blocks_same (X \<inter> set bs) st st'"
    using lt(2) b mem by (auto simp: blocks_same_def)
  ultimately show ?thesis using that lt calm by blast
qed

text \<open>Steps outside the free lists keep them.\<close>

lemma filed_still:
  assumes f: "filed c st X bs L" and t: "tiles c st' u X' bs'" and a: "bins (g_arena st') = bins (g_arena st)"
    "bin_bitmap (g_arena st') = bin_bitmap (g_arena st)" "secret (g_arena st') = secret (g_arena st)"
    and st: "still c (members L) st st'"
    and eq: "{q \<in> set bs. q \<notin> X \<and> \<not> mm_is_used (mem st) q} \<subseteq> {q \<in> set bs'. q \<notin> X' \<and> \<not> mm_is_used (mem st') q}"
  shows "bins_rep c st' L" "members L = {q \<in> set bs. q \<notin> X \<and> \<not> mm_is_used (mem st) q}"
proof -
  have rep: "bins_rep c st L" and mem: "members L = {q \<in> set bs. q \<notin> X \<and> \<not> mm_is_used (mem st) q}"
    using f by (simp_all add: filed_def)
  show "members L = {q \<in> set bs. q \<notin> X \<and> \<not> mm_is_used (mem st) q}" by (rule mem)
  have "bin_rep c st' i (L i)" if i: "i < MM_BIN_COUNT" for i
  proof (rule bin_rep_cong)
    show "bin_rep c st i (L i)" using rep i by (simp add: bins_rep_def)
    show "bins (g_arena st') i = bins (g_arena st) i" using a by simp
    show "bitmap_test (g_arena st') i = bitmap_test (g_arena st) i" using a by (simp add: bitmap_test_def)
    fix x assume x: "x \<in> set (L i)"
    then have xm: "x \<in> members L" using members_memb i by blast
    then have v: "view c (mem st') x = view c (mem st) x" and free: "\<not> mm_is_used (mem st) x"
      and l: "same_on (mm_payload_of c x) 16 (mem st) (mem st')" using st mem by (auto simp: still_def)
    have ld: "load64 (mem st') (mm_payload_of c x + w * 8) = load64 (mem st) (mm_payload_of c x + w * 8)" if "w < 2" for w
      using that load64_cong [OF same_on_sub [OF l, of "mm_payload_of c x + w * 8" 8]] by simp
    have x': "x \<in> set bs'" "x \<notin> X'" "\<not> mm_is_used (mem st') x" using xm mem eq by auto
    then obtain xs ys where bs': "bs' = xs @ x # ys" by (meson split_list)
    have "closed c st' x" using t x'(2) unfolding bs' tiles_split by simp
    then have "node_ok c st' x i"
      using x' v view_fields(1) [OF v] x rep i mm_header_ok_is_block [of c st' x]
      by (auto simp: node_ok_def closed_def bins_rep_def bin_rep_def)
    moreover have "node_ok c st x i" using x rep i by (auto simp: bins_rep_def bin_rep_def)
    ultimately show "link_next c st' x = link_next c st x \<and> link_prev c st' x = link_prev c st x \<and>
        node_ok c st' x i = node_ok c st x i"
      using ld a(3) by (simp add: link_next_def link_prev_def mm_free_link_get_def)
  qed
  then show "bins_rep c st' L" using rep by (simp add: bins_rep_def)
qed

end
