(* ===== verification/Mars_Alloc.thy ===== *)
theory Mars_Alloc
  imports Mars_Blocks
begin

unbundle bit_operations_syntax

text \<open>
  The allocation core on a consistent heap over a caller's buffer. \<open>heap_work\<close> is the invariant in the
  middle of an operation, with the set of blocks that are open; with no block open it is the
  invariant between operations. Each function of \<^verbatim>\<open>src/mm_core.c\<close> is shown to take it to itself, to
  take the branch the heap calls for, and to leave the blocks of everybody else alone.
\<close>

section \<open>The working invariant\<close>

text \<open>The patrol cursor never points inside a block.\<close>

definition cur :: "mm_state \<Rightarrow> nat \<Rightarrow> nat list \<Rightarrow> bool" where
  "cur st u bs \<longleftrightarrow> (let at = scrub_at (g_arena st)
     in lo (descs st u) \<le> at \<and> at < hi (descs st u) \<longrightarrow> at \<in> set bs) \<and>
     scrub_span (g_arena st) \<in> {0, u}"

definition heap_work :: "mm_config \<Rightarrow> mm_state \<Rightarrow> nat \<Rightarrow> nat set \<Rightarrow> nat list \<Rightarrow> (nat \<Rightarrow> nat list) \<Rightarrow> bool" where
  "heap_work c st u X bs L \<longleftrightarrow> tiles c st u X bs \<and> filed c st X bs L \<and> cur st u bs"

lemma tiles_distinct: "tiles c st u X bs \<Longrightarrow> distinct bs"
  unfolding tiles_def by (blast dest: ptiled_distinct)

lemma heap_workD:
  assumes "heap_work c st u X bs L"
  shows "tiles c st u X bs" "filed c st X bs L" "cur st u bs" "user_heap c st u" "distinct bs"
  using assms tiles_distinct by (auto simp: heap_work_def tiles_def)

lemma cur_calm: "cur st u bs \<Longrightarrow> calm st st' \<Longrightarrow> set bs \<subseteq> set bs' \<Longrightarrow> cur st' u bs'"
  using shellD(2) [of st st'] by (auto simp: cur_def calm_def Let_def)

text \<open>Steps that change neither memory nor anything the blocks depend on.\<close>

lemma quiet_step:
  assumes ti: "tiles c st u X bs" and fi: "filed c st X bs L" and m: "mem st' = mem st" and sh: "shell st st'"
    and a: "bins (g_arena st') = bins (g_arena st)" "bin_bitmap (g_arena st') = bin_bitmap (g_arena st)"
    and cu: "cur st' u bs"
  shows "heap_work c st' u X bs L"
proof -
  have d: "descs st' = descs st" "secret (g_arena st') = secret (g_arena st)" using shellD [OF sh] by simp_all
  have "ptiled c st' X (hi (descs st u)) (Some False) (lo (descs st u)) bs"
    by (rule ptiled_cong [OF _ sh refl]) (use ti in \<open>simp_all add: tiles_def m tail_bytes_same_def\<close>)
  then have t: "tiles c st' u X bs" using ti user_heap_shell [OF _ sh] d by (simp add: tiles_def)
  have "bins_rep c st' L"
    by (rule filed_still(1) [OF fi t a d(2)]) (auto simp: still_def m)
  then have "filed c st' X bs L" using fi by (simp add: filed_def m)
  then show ?thesis using t cu by (simp add: heap_work_def)
qed

text \<open>Memory-only steps that keep the closed blocks.\<close>

lemma filed_mem:
  assumes f: "filed c st X bs L" and t: "tiles c st' u X' bs'" and m: "mem_only st st'"
    and s: "still c (set bs - X) st st'" and eq: "set bs' - X' = set bs - X"
  shows "filed c st' X' bs' L"
proof -
  have mem: "members L = {q \<in> set bs. q \<notin> X \<and> \<not> mm_is_used (mem st) q}" using f by (simp add: filed_def)
  have used: "mm_is_used (mem st') q = mm_is_used (mem st) q" if "q \<in> set bs - X" for q
  proof -
    have "view c (mem st') q = view c (mem st) q" using s that by (simp add: still_def)
    from view_fields(2) [OF this] show ?thesis .
  qed
  have e: "{q \<in> set bs. q \<notin> X \<and> \<not> mm_is_used (mem st) q} = {q \<in> set bs'. q \<notin> X' \<and> \<not> mm_is_used (mem st') q}"
    using used eq by blast
  have sm: "still c (members L) st st'" by (rule still_mono [OF s]) (use mem in auto)
  have sub: "{q \<in> set bs. q \<notin> X \<and> \<not> mm_is_used (mem st) q} \<subseteq> {q \<in> set bs'. q \<notin> X' \<and> \<not> mm_is_used (mem st') q}"
    using e by blast
  have "bins_rep c st' L" by (rule filed_still(1) [OF f t _ _ _ sm sub]) (simp_all add: mem_onlyD(1) [OF m])
  then show ?thesis unfolding filed_def mem e by blast
qed

lemma work_edit:
  assumes h: "heap_work c st u X (xs @ b # ys) L" and b: "b \<in> X" and m: "mem_only st st'"
    and w: "within b (b + mm_block_size (mem st) b) (mem st) (mem st')"
    and size: "mm_block_size (mem st') b = mm_block_size (mem st) b"
    and prev: "mm_prev_in_use (mem st') b = mm_prev_in_use (mem st) b"
  shows "heap_work c st' u X (xs @ b # ys) L" and "still c (set xs \<union> set ys) st st'"
proof -
  note hd = heap_workD [OF h]
  note e = step_edit [OF hd(1) b mem_onlyD(4) [OF m] w size prev]
  show s: "still c (set xs \<union> set ys) st st'"
    by (rule blocks_same_still [OF e(2)]) (use tiles_blocks [OF hd(1)] in auto)
  have "still c (set (xs @ b # ys) - X) st st'" by (rule still_mono [OF s]) (use b in auto)
  then have "filed c st' X (xs @ b # ys) L" using filed_mem [OF hd(2) e(1) m] by simp
  moreover have "cur st' u (xs @ b # ys)" by (rule cur_calm [OF hd(3) mem_only_calm [OF m]]) simp
  ultimately show "heap_work c st' u X (xs @ b # ys) L" using e(1) by (simp add: heap_work_def)
qed

lemma work_cut:
  assumes h: "heap_work c st u X (xs @ b # ys) L" and b: "b \<in> X" and m: "mem_only st st'"
    and w: "within b (b + mm_block_size (mem st) b) (mem st) (mem st')"
    and k: "mm_block_size (mem st') b = k" "MM_MIN_BLOCK c \<le> k"
    and rest: "mm_block_size (mem st') (b + k) + k = mm_block_size (mem st) b"
      "MM_MIN_BLOCK c \<le> mm_block_size (mem st') (b + k)"
    and prev: "mm_prev_in_use (mem st') b = mm_prev_in_use (mem st) b"
  shows "heap_work c st' u (insert (b + k) X) (xs @ b # (b + k) # ys) L" and "still c (set xs \<union> set ys) st st'"
proof -
  note hd = heap_workD [OF h]
  note e = step_cut [OF hd(1) b mem_onlyD(4) [OF m] w k rest prev]
  show s: "still c (set xs \<union> set ys) st st'"
    by (rule blocks_same_still [OF e(2)]) (use tiles_blocks [OF hd(1)] in auto)
  have "still c (set (xs @ b # ys) - X) st st'" by (rule still_mono [OF s]) (use b in auto)
  moreover have "distinct (xs @ b # (b + k) # ys)" by (rule tiles_distinct [OF e(1)])
  then have "set (xs @ b # (b + k) # ys) - insert (b + k) X = set (xs @ b # ys) - X" using b by auto
  ultimately have "filed c st' (insert (b + k) X) (xs @ b # (b + k) # ys) L" using filed_mem [OF hd(2) e(1) m] by blast
  moreover have "cur st' u (xs @ b # (b + k) # ys)" by (rule cur_calm [OF hd(3) mem_only_calm [OF m]]) auto
  ultimately show "heap_work c st' u (insert (b + k) X) (xs @ b # (b + k) # ys) L"
    using e(1) by (simp add: heap_work_def)
qed

text \<open>Merging moves the patrol cursor out of the merged block.\<close>

lemma shell_forget [simp]: "shell st (mm_scrub_forget a e st)"
  by (simp add: mm_scrub_forget_def shell_def same_registry_def upd_arena_def g_arena_def)

lemma forget_frame [simp]:
  "mem (mm_scrub_forget a e st) = mem st" "descs (mm_scrub_forget a e st) = descs st"
  "bins (g_arena (mm_scrub_forget a e st)) = bins (g_arena st)"
  "bin_bitmap (g_arena (mm_scrub_forget a e st)) = bin_bitmap (g_arena st)"
  "secret (g_arena (mm_scrub_forget a e st)) = secret (g_arena st)"
  by (simp_all add: mm_scrub_forget_def)

lemma work_merge:
  assumes h: "heap_work c st u X (xs @ b # n # ys) L" and b: "b \<in> X" "n \<in> X" and m: "mem_only st st'"
    and w: "within b (n + mm_block_size (mem st) n) (mem st) (mem st')"
    and size: "mm_block_size (mem st') b = mm_block_size (mem st) b + mm_block_size (mem st) n"
    and prev: "mm_prev_in_use (mem st') b = mm_prev_in_use (mem st) b"
  shows "heap_work c (mm_scrub_forget b (mm_block_end (mem st') b) st') u (X - {n}) (xs @ b # ys) L"
    and "still c (set xs \<union> set ys) st (mm_scrub_forget b (mm_block_end (mem st') b) st')"
proof -
  let ?s = "mm_scrub_forget b (mm_block_end (mem st') b) st'"
  note hd = heap_workD [OF h]
  note e = step_merge [OF hd(1) b mem_onlyD(4) [OF m] w size prev]
  have s: "still c (set xs \<union> set ys) st st'"
    by (rule blocks_same_still [OF e(2)]) (use tiles_blocks [OF hd(1)] in auto)
  then show "still c (set xs \<union> set ys) st ?s" by (simp add: still_def)
  have "still c (set (xs @ b # n # ys) - X) st st'" by (rule still_mono [OF s]) (use b in auto)
  moreover have "set (xs @ b # ys) - (X - {n}) = set (xs @ b # n # ys) - X" using b hd(5) by auto
  ultimately have f: "filed c st' (X - {n}) (xs @ b # ys) L" using filed_mem [OF hd(2) e(1) m] by blast
  have pt: "ptiled c st X (hi (descs st u)) (Some False) (lo (descs st u)) (xs @ b # n # ys)"
    using hd(1) by (simp add: tiles_def)
  have nb: "n = b + mm_block_size (mem st) b" using pt by (simp add: ptiled_append)
  have pos: "0 < mm_block_size (mem st) b" "0 < mm_block_size (mem st) n"
    using is_block_pos tiles_blocks [OF hd(1)] by auto
  have cu: "cur ?s u (xs @ b # ys)"
  proof -
    have c0: "cur st' u (xs @ b # n # ys)" by (rule cur_calm [OF hd(3) mem_only_calm [OF m]]) simp
    have en: "mm_block_end (mem st') b = n + mm_block_size (mem st) n" using size nb by (simp add: mm_block_end_def)
    have "n < mm_block_end (mem st') b" "b < n" using en pos nb by simp_all
    then show ?thesis using c0 by (auto simp: cur_def mm_scrub_forget_def Let_def)
  qed
  show "heap_work c ?s u (X - {n}) (xs @ b # ys) L"
    by (rule quiet_step [OF e(1) f]) (use cu in simp_all)
qed

section \<open>Taking a block off its list\<close>

lemma work_take:
  assumes h: "heap_work c st u X bs L" and b: "b \<in> set bs" "b \<notin> X" "\<not> mm_is_used (mem st) b"
  obtains L' where "heap_work c (mm_bin_remove c b st) u (insert b X) bs L'" "calm st (mm_bin_remove c b st)"
    "kept c (set bs) st (mm_bin_remove c b st)" "blocks_same (insert b (X \<inter> set bs)) st (mm_bin_remove c b st)"
    "mm_header_ok c (mm_bin_remove c b st) b"
    "\<And>q. q \<in> set bs \<Longrightarrow> same_on q (MM_HDR_SIZE c) (mem st) (mem (mm_bin_remove c b st))"
proof (rule step_take [OF heap_workD(1,2) [OF h] b])
  fix L' assume a: "tiles c (mm_bin_remove c b st) u (insert b X) bs" "filed c (mm_bin_remove c b st) (insert b X) bs L'"
    "calm st (mm_bin_remove c b st)" "kept c (set bs) st (mm_bin_remove c b st)"
    "blocks_same (insert b (X \<inter> set bs)) st (mm_bin_remove c b st)" "mm_header_ok c (mm_bin_remove c b st) b"
    "\<And>q. q \<in> set bs \<Longrightarrow> same_on q (MM_HDR_SIZE c) (mem st) (mem (mm_bin_remove c b st))"
  then have "heap_work c (mm_bin_remove c b st) u (insert b X) bs L'"
    using cur_calm [OF heap_workD(3) [OF h]] by (simp add: heap_work_def)
  then show thesis using a that by blast
qed

section \<open>Joining a block with the free block after it\<close>

lemma set_block_size_fields_mem:
  fixes m :: bytes and b :: nat
  assumes "n < 2 ^ 58" "16 dvd n"
  defines "m' \<equiv> mm_set_block_size m b n"
  shows "mm_block_size m' b = n" "mm_is_used m' b = mm_is_used m b" "mm_prev_in_use m' b = mm_prev_in_use m b"
    "mm_is_quarantined m' b = mm_is_quarantined m b" "mm_slack m' b = mm_slack m b"
    "payload_crc m' b = payload_crc m b" "within b (b + 8) m m'"
  using set_block_size_fields [OF assms(1,2)]
  by (simp_all add: m'_def mm_set_block_size_def mm_block_size_def mm_is_used_def mm_prev_in_use_def
      mm_is_quarantined_def mm_slack_def mem_simps set_word_at_def within_store)
     (simp_all add: mm_word_def payload_crc_def mem_simps)

lemma set_word_fields_mem:
  fixes m :: bytes and b :: nat and used quar :: bool
  assumes "n < 2 ^ 58" "16 dvd n" "s < 128"
  defines "m' \<equiv> mm_set_word m b n s used quar"
  shows "mm_block_size m' b = n" "mm_is_used m' b = used" "mm_prev_in_use m' b = mm_prev_in_use m b"
    "mm_is_quarantined m' b = quar" "mm_slack m' b = s"
    "payload_crc m' b = payload_crc m b" "within b (b + 8) m m'"
    "mm_requested_size c m' b = (if used then let avail = sub64 n (MM_HDR_SIZE c) in if s \<le> avail then avail - s else 0 else 0)"
  using set_word_fields [OF assms(1-3)]
  by (simp_all add: m'_def mm_set_word_def mm_block_size_def mm_is_used_def mm_prev_in_use_def
      mm_is_quarantined_def mm_slack_def mem_simps set_word_at_def within_store)
     (simp_all add: mm_word_def payload_crc_def mem_simps mm_requested_size_def w_requested_size_def Let_def)

lemma size16: "16 dvd mm_block_size m b" "mm_block_size m b < 2 ^ 58"
  using w_block_size_bounds by (simp_all add: mm_block_size_def)

text \<open>A sealed block of the tiling: seal changes its checksum and, if it is used, its mirror.\<close>

lemma work_seal:
  assumes h: "heap_work c st u X (xs @ b # ys) L" and b: "b \<in> X"
  shows "heap_work c (mm_seal c b st) u X (xs @ b # ys) L" "still c (set xs \<union> set ys) st (mm_seal c b st)"
    "mm_header_ok c (mm_seal c b st) b"
    "b + MM_HDR_SIZE c \<le> a \<Longrightarrow> a < b + mm_block_size (mem st) b - 16 \<Longrightarrow> mem (mm_seal c b st) a = mem st a"
proof -
  note hd = heap_workD [OF h]
  have blk: "mm_is_block c st b" using tiles_blocks [OF hd(1)] by simp
  note min = is_block_size [OF blk]
  note sf = mm_seal_fields [OF min]
  have w: "within b (b + mm_block_size (mem st) b) (mem st) (mem (mm_seal c b st))"
    using mm_seal_mem(4) [OF min] by (simp add: mm_block_end_def)
  show "heap_work c (mm_seal c b st) u X (xs @ b # ys) L" "still c (set xs \<union> set ys) st (mm_seal c b st)"
    using work_edit [OF h b mem_only_seal w] sf by simp_all
  show "mm_header_ok c (mm_seal c b st) b" by (rule mm_seal_header_ok [OF blk])
  assume a: "b + MM_HDR_SIZE c \<le> a" "a < b + mm_block_size (mem st) b - 16"
  show "mem (mm_seal c b st) a = mem st a"
  proof (cases "MM_HAS_CRC c")
    case False
    then show ?thesis by (simp add: mm_seal_def MM_HAS_MIRROR_def MM_HAS_CRC_def)
  next
    case True
    then have "MM_HDR_SIZE c = 16" by (simp add: MM_HDR_SIZE_def)
    then show ?thesis using mm_seal_changes [OF min, of a] a by (force simp: mm_block_end_def)
  qed
qed

lemma join_next:
  assumes h: "heap_work c st u X (xs @ b # n # zs) L" and b: "b \<in> X" and n: "n \<notin> X" "\<not> mm_is_used (mem st) n"
    and ok: "mm_header_ok c st b"
  defines "st1 \<equiv> mm_bin_remove c n st" and "k \<equiv> mm_block_size (mem st) b + mm_block_size (mem st) n"
  defines "st2 \<equiv> upd_mem (\<lambda>m. mm_set_block_size m b k) st1"
  defines "st3 \<equiv> mm_seal c b (mm_scrub_forget b (mm_block_end (mem st2) b) st2)"
  obtains L' where "heap_work c st3 u X (xs @ b # zs) L'" "kept c (set xs \<union> set zs) st st3" "shell st st3"
    "mm_header_ok c st3 b" "mm_block_size (mem st3) b = k" "mm_is_used (mem st3) b = mm_is_used (mem st) b"
    "mm_prev_in_use (mem st3) b = mm_prev_in_use (mem st) b"
    "mm_is_quarantined (mem st3) b = mm_is_quarantined (mem st) b"
    "\<And>a. b + MM_HDR_SIZE c \<le> a \<Longrightarrow> a < b + mm_block_size (mem st) b \<Longrightarrow> mem st3 a = mem st a"
    "MM_HAS_CRC c \<Longrightarrow> payload_crc (mem st3) b = payload_crc (mem st) b"
    "mm_unchanged c st1 b (mm_block_size (mem st) b) (mm_is_used (mem st) b)"
    "mm_unchanged c st1 n (mm_block_size (mem st) n) False"
proof -
  have nb: "n \<in> set (xs @ b # n # zs)" by simp
  obtain L' where t: "heap_work c st1 u (insert n X) (xs @ b # n # zs) L'" "calm st st1"
      "kept c (set (xs @ b # n # zs)) st st1" "blocks_same (insert n (X \<inter> set (xs @ b # n # zs))) st st1"
      "mm_header_ok c st1 n" "\<And>q. q \<in> set (xs @ b # n # zs) \<Longrightarrow> same_on q (MM_HDR_SIZE c) (mem st) (mem st1)"
    using work_take [OF h nb n] unfolding st1_def by blast
  have hb: "same_on b (MM_HDR_SIZE c) (mem st) (mem st1)" and hn: "same_on n (MM_HDR_SIZE c) (mem st) (mem st1)"
    using t(6) by simp_all
  note fb = header_fields_cong [OF hb] and fn = header_fields_cong [OF hn]
  have u1: "mm_unchanged c st1 b (mm_block_size (mem st) b) (mm_is_used (mem st) b)"
    using ok mm_header_ok_cong [OF _ _ hb] shellD(1,3) [OF calm_shell [OF t(2)]] fb by (simp add: mm_unchanged_def)
  have u2: "mm_unchanged c st1 n (mm_block_size (mem st) n) False"
    using t(5) fn n(2) by (simp add: mm_unchanged_def)
  note hd1 = heap_workD [OF t(1)]
  have k58: "k < 2 ^ 58" "16 dvd k"
  proof -
    have pt: "ptiled c st (insert b X) (hi (descs st u)) (Some False) (lo (descs st u)) (xs @ b # n # zs)"
      using heap_workD(1) [OF h] ptiled_open by (auto simp: tiles_def)
    have "n = b + mm_block_size (mem st) b" using pt by (simp add: ptiled_append)
    moreover have "lo (descs st u) \<le> b" "n + mm_block_size (mem st) n \<le> hi (descs st u)"
      using ptiled_bounds [OF pt, of b] ptiled_bounds [OF pt, of n] by auto
    moreover have "hi (descs st u) - lo (descs st u) < 2 ^ 58" using heap_workD(4) [OF h] by (simp add: user_heap_def)
    ultimately show "k < 2 ^ 58" unfolding k_def by linarith
    show "16 dvd k" unfolding k_def by (intro dvd_add size16)
  qed
  note sf = set_block_size_fields_mem [OF k58, where m = "mem st1" and b = b]
  have m2: "mem st2 = mm_set_block_size (mem st1) b k" by (simp add: st2_def)
  have pt1: "ptiled c st1 (insert n X) (hi (descs st1 u)) (Some False) (lo (descs st1 u)) (xs @ b # n # zs)"
    using hd1(1) by (simp add: tiles_def)
  then have ne: "n = b + mm_block_size (mem st1) b" by (simp add: ptiled_append)
  have pos: "MM_MIN_BLOCK c \<le> mm_block_size (mem st1) n" "MM_MIN_BLOCK c \<le> mm_block_size (mem st1) b"
    using tiles_blocks [OF hd1(1)] is_block_size by simp_all
  then have w: "within b (n + mm_block_size (mem st1) n) (mem st1) (mem st2)"
    unfolding m2 using sf(7) ne layout_bounds(6) [of c] by (auto elim!: within_mono)
  have mo: "mem_only st1 st2" by (simp add: st2_def)
  have b2: "b \<in> insert n X" "n \<in> insert n X" using b by simp_all
  have sz: "mm_block_size (mem st2) b = mm_block_size (mem st1) b + mm_block_size (mem st1) n"
    using sf(1) fb fn by (simp add: m2 k_def)
  have pv: "mm_prev_in_use (mem st2) b = mm_prev_in_use (mem st1) b" using sf(3) by (simp add: m2)
  note mg = work_merge [OF t(1) b2 mo w sz pv]
  have X: "insert n X - {n} = X" using n(1) by simp
  let ?f = "mm_scrub_forget b (mm_block_end (mem st2) b) st2"
  have hf: "heap_work c ?f u X (xs @ b # zs) L'" using mg(1) X by simp
  note sl = work_seal [OF hf b]
  have blk: "mm_is_block c ?f b" using tiles_blocks [OF heap_workD(1) [OF hf]] by simp
  note ms = mm_seal_fields [OF is_block_size [OF blk]]
  have "kept c (set xs \<union> set zs) st st1" by (rule kept_mono [OF t(3)]) auto
  moreover have "kept c (set xs \<union> set zs) st1 ?f" by (rule still_kept [OF mg(2)])
  moreover have "kept c (set xs \<union> set zs) ?f st3" unfolding st3_def by (rule still_kept [OF sl(2)])
  ultimately have kept: "kept c (set xs \<union> set zs) st st3" using kept_trans by blast
  have shell: "shell st st3"
    unfolding st3_def
    by (rule shell_trans [OF calm_shell [OF t(2)] shell_trans [OF mem_onlyD(4) [OF mo]
          shell_trans [OF shell_forget shell_seal]]])
  have pay: "mem st3 a = mem st a" if a: "b + MM_HDR_SIZE c \<le> a" "a < b + mm_block_size (mem st) b" for a
  proof -
    have "32 \<le> mm_block_size (mem st) n" using pos(1) fn(2) layout_bounds(6) [of c] by simp
    then have "a < b + mm_block_size (mem ?f) b - 16" using a sz fb fn by simp
    then have "mem st3 a = mem st2 a" using sl(4) a(1) by (simp add: st3_def)
    also have "\<dots> = mem st1 a" using sf(7) a(1) layout_bounds(1) [of c] by (simp add: m2 within_def)
    also have "\<dots> = mem st a" using t(4) b a by (auto simp: blocks_same_def same_on_def)
    finally show ?thesis .
  qed
  have "payload_crc (mem st3) b = payload_crc (mem st) b" if "MM_HAS_CRC c"
    using mm_seal_mem(2) [OF is_block_size [OF blk] that] sf(6) fb(9) [OF that] by (simp add: st3_def m2)
  then show thesis
    using that [OF _ kept shell _ _ _ _ _ pay _ u1 u2] sl(1,3) ms sf fb by (simp add: st3_def m2)
qed

section \<open>Coalescing\<close>

lemma work_span:
  assumes "heap_work c st u X (xs @ b # ys) L"
  shows "mm_span_of st b = u" "u \<noteq> 0" "lo (descs st u) \<le> b" "b + mm_block_size (mem st) b \<le> hi (descs st u)"
    "b < hi (descs st u)" "MM_MIN_BLOCK c \<le> mm_block_size (mem st) b" "mm_is_block c st b" "b < 2 ^ 64"
    "ys = [] \<Longrightarrow> b + mm_block_size (mem st) b = hi (descs st u)"
    "ys \<noteq> [] \<Longrightarrow> b + mm_block_size (mem st) b = hd ys"
    "ys \<noteq> [] \<Longrightarrow> hd ys < hi (descs st u)"
proof -
  note hd = heap_workD [OF assms]
  have uh: "user_heap c st u" and pt: "ptiled c st X (hi (descs st u)) (Some False) (lo (descs st u)) (xs @ b # ys)"
    using hd(1) by (simp_all add: tiles_def)
  show blk: "mm_is_block c st b" using tiles_blocks [OF hd(1)] by simp
  show min: "MM_MIN_BLOCK c \<le> mm_block_size (mem st) b" by (rule is_block_size [OF blk])
  show lo: "lo (descs st u) \<le> b" and hi: "b + mm_block_size (mem st) b \<le> hi (descs st u)"
    using ptiled_bounds [OF pt, of b] by simp_all
  show lt: "b < hi (descs st u)" using hi is_block_pos [OF blk] by linarith
  show "mm_span_of st b = u" "u \<noteq> 0" "b < 2 ^ 64" using uh lo lt by (auto simp: user_heap_def)
  show "ys = [] \<Longrightarrow> b + mm_block_size (mem st) b = hi (descs st u)" using pt by (simp add: ptiled_append)
  show "ys \<noteq> [] \<Longrightarrow> b + mm_block_size (mem st) b = hd ys" using pt by (cases ys) (simp_all add: ptiled_append)
  assume "ys \<noteq> []"
  then have "hd ys \<in> set (xs @ b # ys)" by simp
  then show "hd ys < hi (descs st u)"
    using ptiled_bounds [OF pt] is_block_pos by (metis add_lessD1 le_neq_implies_less less_add_same_cancel1)
qed

lemma work_closed:
  assumes "heap_work c st u X bs L" "q \<in> set bs" "q \<notin> X"
  shows "closed c st q" "mm_header_ok c st q"
proof -
  obtain xs ys where bs: "bs = xs @ q # ys" using assms(2) by (meson split_list)
  show "closed c st q" using heap_workD(1) [OF assms(1)] assms(3) unfolding bs tiles_split by simp
  then show "mm_header_ok c st q" by (simp add: closed_def)
qed

text \<open>The block after a closed free block is used.\<close>

lemma work_no_two_free:
  assumes "heap_work c st u X (xs @ n # zs) L" "n \<notin> X" "\<not> mm_is_used (mem st) n" "zs \<noteq> []" "hd zs \<notin> X"
  shows "mm_is_used (mem st) (hd zs)"
  using heap_workD(1) [OF assms(1)] assms(2-5) by (cases zs) (simp_all add: tiles_split free_flag_def flag_ok_def)

lemma absorb_next_work:
  assumes h: "heap_work c st u X (xs @ b # ys) L" and b: "b \<in> X" and ys: "set ys \<inter> X = {}"
    and ok: "mm_header_ok c st b" and used: "mm_is_used (mem st) b"
  obtains ys' L' st' where "absorb_next c b st = (Some (mm_block_size (mem st') b), st')"
    "heap_work c st' u X (xs @ b # ys') L'" "kept c (set xs \<union> set ys') st st'" "shell st st'"
    "mm_header_ok c st' b" "mm_is_used (mem st') b" "mm_prev_in_use (mem st') b = mm_prev_in_use (mem st) b"
    "ys' \<noteq> [] \<Longrightarrow> mm_is_used (mem st') (hd ys')" "set ys' \<subseteq> set ys"
    "\<And>q. q \<in> set ys \<Longrightarrow> mm_is_used (mem st) q \<Longrightarrow> q \<in> set ys'"
proof -
  note sp = work_span [OF h]
  have an: "absorb_next c b st = (let own = mm_block_size (mem st) b; n = b + own
      in if n < hi (descs st u) \<and> mm_header_ok c st n \<and> \<not> mm_is_used (mem st) n
         then let theirs = mm_block_size (mem st) n; st = mm_bin_remove c n st
              in if \<not> mm_unchanged c st b own True
                 then (None, mm_fail MM_ERR_CORRUPT_HEADER (mm_quarantine c b st))
                 else if \<not> mm_unchanged c st n theirs False
                 then (Some own, mm_fail MM_ERR_CORRUPT_HEADER (mm_quarantine c n st))
                 else let st = upd_mem (\<lambda>m. mm_set_block_size m b (own + theirs)) st;
                          st = mm_scrub_forget b (mm_block_end (mem st) b) st
                      in (Some (own + theirs), mm_seal c b st)
         else (Some own, st))"
    by (simp add: absorb_next_def sp(1) mm_block_end_def Let_def)
  show thesis
  proof (cases "ys \<noteq> [] \<and> \<not> mm_is_used (mem st) (hd ys)")
    case False
    have "\<not> (b + mm_block_size (mem st) b < hi (descs st u) \<and> \<not> mm_is_used (mem st) (b + mm_block_size (mem st) b))"
      using False sp(9,10) by (cases "ys = []") auto
    then have "absorb_next c b st = (Some (mm_block_size (mem st) b), st)" unfolding an Let_def by auto
    then show thesis using that [of st ys L] h ok used False by auto
  next
    case True
    then obtain n zs where y: "ys = n # zs" by (cases ys) auto
    have n: "n = b + mm_block_size (mem st) b" "\<not> mm_is_used (mem st) n" "n \<notin> X" "n < hi (descs st u)"
      using sp(10,11) True ys by (simp_all add: y)
    have h': "heap_work c st u X (xs @ b # n # zs) L" using h by (simp add: y)
    have hn: "mm_header_ok c st n" using work_closed(2) [OF h' _ n(3)] by simp
    have zs: "zs \<noteq> [] \<Longrightarrow> mm_is_used (mem st) (hd zs)"
      using work_no_two_free [of c st u X "xs @ [b]" n zs L] h' n ys by (cases zs) (auto simp: y)
    let ?st1 = "mm_bin_remove c n st" and ?k = "mm_block_size (mem st) b + mm_block_size (mem st) n"
    let ?st2 = "upd_mem (\<lambda>m. mm_set_block_size m b ?k) ?st1"
    let ?st3 = "mm_seal c b (mm_scrub_forget b (mm_block_end (mem ?st2) b) ?st2)"
    show thesis
    proof (rule join_next [OF h' b n(3,2) ok])
      fix L'
      assume j: "heap_work c ?st3 u X (xs @ b # zs) L'" "kept c (set xs \<union> set zs) st ?st3" "shell st ?st3"
        "mm_header_ok c ?st3 b" "mm_block_size (mem ?st3) b = ?k" "mm_is_used (mem ?st3) b = mm_is_used (mem st) b"
        "mm_prev_in_use (mem ?st3) b = mm_prev_in_use (mem st) b"
        "mm_unchanged c ?st1 b (mm_block_size (mem st) b) (mm_is_used (mem st) b)"
        "mm_unchanged c ?st1 n (mm_block_size (mem st) n) False"
      have "absorb_next c b st = (Some (mm_block_size (mem ?st3) b), ?st3)"
        unfolding j(5) unfolding an Let_def using n hn used j(8,9) by simp
      moreover have "zs \<noteq> [] \<Longrightarrow> mm_is_used (mem ?st3) (hd zs)"
        using zs j(2) by (auto simp: kept_def)
      ultimately show thesis using that [of ?st3 zs L'] j used n(2) by (auto simp: y)
    qed
  qed
qed

lemma mm_prev_free_block_work:
  assumes h: "heap_work c st u X (xs @ p # b # ys) L" and p: "p \<notin> X" "\<not> mm_is_used (mem st) p"
    and pv: "\<not> mm_prev_in_use (mem st) b"
  shows "mm_prev_free_block c st b = p"
proof -
  have h2: "heap_work c st u X ((xs @ [p]) @ b # ys) L" using h by simp
  note sp = work_span [OF h] and sb = work_span [OF h2]
  have pb: "p + mm_block_size (mem st) p = b" using sp(10) by simp
  have pin: "p \<in> set (xs @ p # b # ys)" by simp
  note cl = work_closed [OF h pin p(1)]
  have "load64 (mem st) (b - 8) = of_nat (mm_block_size (mem st) p)"
    using cl(1) p(2) pb by (simp add: closed_def mm_block_end_def)
  then have foot: "mm_read_prev_footer (mem st) b = mm_block_size (mem st) p"
    using mm_block_size_less by (simp add: mm_read_prev_footer_def unat_of_nat take_bit_nat_eq_self)
  define n where "n = mm_block_size (mem st) p"
  have 1: "sub64 b (lo (descs st u)) = b - lo (descs st u)" "\<not> b - lo (descs st u) < MM_MIN_BLOCK c"
      "\<not> b - lo (descs st u) < n" "b - n = p" "\<not> n < MM_MIN_BLOCK c"
    using sb(3) pb sp(3,6) by (simp_all add: n_def)
  have 2: "n mod MM_ALIGNMENT = 0" using size16(1) by (simp add: n_def mod_eq_0_iff_dvd MM_ALIGNMENT_def)
  show ?thesis
    unfolding mm_prev_free_block_def Let_def sb(1) foot n_def [symmetric] 1(1,4)
    by (simp only: pv sp(2) 1(2,3,5) 2 cl(2) p(2) if_False if_True simp_thms n_def [symmetric])
qed

lemma absorb_prev_work:
  assumes h: "heap_work c st u X (xs @ b # ys) L" and b: "b \<in> X"
    and xs: "set xs \<inter> X = {} \<or> mm_prev_in_use (mem st) b" and ys: "set ys \<inter> X = {}"
    and ok: "mm_header_ok c st b" and used: "mm_is_used (mem st) b"
    and yu: "ys \<noteq> [] \<Longrightarrow> mm_is_used (mem st) (hd ys)"
  obtains r xs' L' st' where "absorb_prev c b (mm_block_size (mem st) b) st = (r, st')" "r \<noteq> 0"
    "heap_work c st' u (insert r (X - {b})) (xs' @ r # ys) L'" "kept c (set xs' \<union> set ys) st st'" "shell st st'"
    "mm_header_ok c st' r" "mm_is_used (mem st') r" "last_flag st' (X - {b}) (Some False) xs' \<noteq> Some True"
    "ys \<noteq> [] \<Longrightarrow> mm_is_used (mem st') (hd ys)" "set xs' \<subseteq> set xs" "r \<in> insert b (set xs)"
    "\<And>q. q \<in> set xs \<Longrightarrow> mm_is_used (mem st) q \<Longrightarrow> q \<in> set xs'"
    "mm_prev_in_use (mem st) b \<Longrightarrow> r = b \<and> xs' = xs"
proof -
  note sp = work_span [OF h] and hd = heap_workD [OF h]
  have fl: "flag_ok st X (last_flag st X (Some False) xs) b" using hd(1) unfolding tiles_split by blast
  have bnz: "b \<noteq> 0" using ok by (simp add: mm_header_ok_def)
  have bxs: "b \<notin> set xs" "b \<notin> set ys" using hd(5) by auto
  show thesis
  proof (cases "mm_prev_in_use (mem st) b")
    case True
    then have "absorb_prev c b (mm_block_size (mem st) b) st = (b, st)"
      by (simp add: absorb_prev_def mm_prev_free_block_def)
    moreover have "last_flag st (X - {b}) (Some False) xs \<noteq> Some True"
    proof -
      have "(X - {b}) \<inter> set xs = X \<inter> set xs" using bxs by blast
      from last_flag_open_set [OF this] show ?thesis using fl True by (auto simp: flag_ok_def)
    qed
    moreover have "insert b (X - {b}) = X" using b by blast
    ultimately show thesis using that [of b st xs L] h bnz ok used yu by auto
  next
    case False
    then have lf: "last_flag st X (Some False) xs = Some True"
    proof -
      have dis: "set xs \<inter> X = {}" using xs False by blast
      have "last_flag st X (Some False) xs \<noteq> None"
        using dis last_in_set [of xs] by (fastforce simp: last_flag_def free_flag_def)
      then show ?thesis using fl False by (auto simp: flag_ok_def)
    qed
    then obtain xs' p where x: "xs = xs' @ [p]" by (cases xs rule: rev_cases) auto
    have p: "p \<notin> X" "\<not> mm_is_used (mem st) p"
      using lf by (auto simp: x last_flag_def free_flag_def split: if_splits)
    have h': "heap_work c st u X (xs' @ p # b # ys) L" using h by (simp add: x)
    have prev: "mm_prev_free_block c st b = p" by (rule mm_prev_free_block_work [OF h' p False])
    note cp = work_closed [OF h' _ p(1)]
    have pnz: "p \<noteq> 0" using cp(2) by (simp add: mm_header_ok_def)
    have pin: "p \<in> set (xs' @ p # b # ys)" by simp
    let ?s1 = "mm_bin_remove c p st"
    obtain L' where t: "heap_work c ?s1 u (insert p X) (xs' @ p # b # ys) L'" "calm st ?s1"
        "kept c (set (xs' @ p # b # ys)) st ?s1" "mm_header_ok c ?s1 p"
        "\<And>q. q \<in> set (xs' @ p # b # ys) \<Longrightarrow> same_on q (MM_HDR_SIZE c) (mem st) (mem ?s1)"
      using work_take [OF h' pin p] by blast
    have hb: "same_on b (MM_HDR_SIZE c) (mem st) (mem ?s1)" and hp: "same_on p (MM_HDR_SIZE c) (mem st) (mem ?s1)"
      using t(5) by simp_all
    note fb = header_fields_cong [OF hb] and fp = header_fields_cong [OF hp]
    have u1: "mm_unchanged c ?s1 b (mm_block_size (mem st) b) True"
      using ok used mm_header_ok_cong [OF _ _ hb] shellD(1,3) [OF calm_shell [OF t(2)]] fb by (simp add: mm_unchanged_def)
    have u2: "mm_unchanged c ?s1 p (mm_block_size (mem st) p) False"
      using t(4) fp p(2) by (simp add: mm_unchanged_def)
    let ?k = "mm_block_size (mem st) p + mm_block_size (mem st) b"
    have k: "?k < 2 ^ 58" "16 dvd ?k"
    proof -
      note s1 = work_span [OF h']
      have "p + ?k \<le> hi (descs st u)" using s1(10) sp(4) by simp
      moreover have "hi (descs st u) - lo (descs st u) < 2 ^ 58" using hd(4) by (simp add: user_heap_def)
      ultimately show "?k < 2 ^ 58" using s1(3) by linarith
      show "16 dvd ?k" by (intro dvd_add size16)
    qed
    have tr: "MM_TRAIL c < 128" using layout_bounds(9) [of c] by linarith
    let ?s2 = "upd_mem (\<lambda>m. mm_set_word m p ?k (MM_TRAIL c) True False) ?s1"
    note sf = set_word_fields_mem [OF k tr, where m = "mem ?s1" and b = p and used = True and quar = False]
    have m2: "mem ?s2 = mm_set_word (mem ?s1) p ?k (MM_TRAIL c) True False" by simp
    note s1 = work_span [OF t(1)]
    have h12: "heap_work c ?s1 u (insert p X) ((xs' @ [p]) @ b # ys) L'" using t(1) by simp
    note s1b = work_span [OF h12]
    have w: "within p (b + mm_block_size (mem ?s1) b) (mem ?s1) (mem ?s2)"
      unfolding m2 using sf(7) s1(10,6) layout_bounds(6) [of c] by (auto elim!: within_mono)
    have pb: "p \<in> insert p X" "b \<in> insert p X" using b by simp_all
    have sz: "mm_block_size (mem ?s2) p = mm_block_size (mem ?s1) p + mm_block_size (mem ?s1) b"
      using sf(1) fb fp by simp
    have pv: "mm_prev_in_use (mem ?s2) p = mm_prev_in_use (mem ?s1) p" using sf(3) by simp
    note mg = work_merge [OF t(1) pb mem_only_upd w sz pv]
    let ?s3 = "mm_scrub_forget p (mm_block_end (mem ?s2) p) ?s2"
    have pb': "p \<noteq> b" using hd(5) by (auto simp: x)
    have Xeq: "insert p X - {b} = insert p (X - {b})" using pb' by blast
    have h3: "heap_work c ?s3 u (insert p (X - {b})) (xs' @ p # ys) L'" using mg(1) by (simp only: Xeq)
    note sl = work_seal [OF h3 insertI1]
    let ?s4 = "mm_seal c p ?s3"
    have ap: "absorb_prev c b (mm_block_size (mem st) b) st = (p, ?s4)"
      unfolding absorb_prev_def Let_def prev using pnz u1 u2 by simp
    have kp: "kept c (set xs' \<union> set ys) st ?s4"
    proof (rule kept_trans)
      show "kept c (set xs' \<union> set ys) st ?s1" by (rule kept_mono [OF t(3)]) auto
      show "kept c (set xs' \<union> set ys) ?s1 ?s4"
        by (rule kept_trans [OF still_kept [OF mg(2)] still_kept [OF sl(2)]])
    qed
    have sh: "shell st ?s4"
      by (rule shell_trans [OF calm_shell [OF t(2)] shell_trans [OF shell_upd(1) shell_trans [OF shell_forget shell_seal]]])
    have us: "mm_is_used (mem ?s4) p"
    proof -
      have "mm_is_block c ?s3 p" using work_span(7) [OF h3] .
      from mm_seal_fields(2) [OF is_block_size [OF this]] show ?thesis using sf(2) by simp
    qed
    have low: "last_flag ?s4 (X - {b}) (Some False) xs' \<noteq> Some True"
    proof (cases "xs' = []")
      case False
      then have l: "last xs' \<in> set xs'" by simp
      have "mm_is_used (mem ?s4) (last xs') = mm_is_used (mem st) (last xs')" using kp l by (simp add: kept_def)
      moreover have "flag_ok st X (last_flag st X (Some False) xs') p"
        using heap_workD(1) [OF h'] by (simp add: tiles_split)
      moreover have "last xs' \<noteq> b" using bxs l by (auto simp: x)
      ultimately show ?thesis
        using p False by (auto simp: last_flag_def free_flag_def flag_ok_def split: if_splits)
    qed simp
    have yu': "ys \<noteq> [] \<Longrightarrow> mm_is_used (mem ?s4) (hd ys)" using yu kp by (auto simp: kept_def)
    show thesis
      by (rule that [OF ap pnz sl(1) kp sh sl(3) us low yu']) (use p x False in auto)
  qed
qed

section \<open>Giving a block back\<close>

lemma last_flag_still:
  assumes "still c (set xs) st st'"
  shows "last_flag st' X pf xs = last_flag st X pf xs"
proof (cases "xs = []")
  case False
  then have "view c (mem st') (last xs) = view c (mem st) (last xs)" using assms by (simp add: still_def)
  from view_fields(2) [OF this] show ?thesis using False by (simp add: last_flag_def free_flag_def)
qed simp

lemma still_used: "still c S st st' \<Longrightarrow> q \<in> S \<Longrightarrow> mm_is_used (mem st') q = mm_is_used (mem st) q"
  by (meson view_fields(2) still_def)

text \<open>Publishing closes the block; a used one is then in the invariant, a free one has yet to be filed.\<close>

lemma work_publish:
  assumes h: "heap_work c st u X (xs @ b # ys) L" and b: "b \<in> X" and r: "ready c st X xs b ys"
    and nx: "ys \<noteq> [] \<Longrightarrow> hd ys \<notin> X"
  obtains st' where "mm_publish c b st = (True, st')" "tiles c st' u (X - {b}) (xs @ b # ys)"
    "mem_only st st'" "still c (set xs \<union> set ys) st st'" "view c (mem st') b = view c (mem st) b"
    "bins_rep c st' L" "cur st' u (xs @ b # ys)"
    "members L = {q \<in> set (xs @ b # ys). q \<notin> X - {b} \<and> \<not> mm_is_used (mem st') q} - {b}"
proof (rule publish_step [OF heap_workD(1) [OF h] b r nx], assumption)
  fix st'
  assume p: "mm_publish c b st = (True, st')" "tiles c st' u (X - {b}) (xs @ b # ys)" "mem_only st st'"
    "still c (set xs \<union> set ys) st st'" "view c (mem st') b = view c (mem st) b"
  note hd = heap_workD [OF h]
  have mem: "members L = {q \<in> set (xs @ b # ys). q \<notin> X \<and> \<not> mm_is_used (mem st) q}"
    using hd(2) by (simp add: filed_def)
  have us: "mm_is_used (mem st') q = mm_is_used (mem st) q" if "q \<in> set (xs @ b # ys)" for q
    using that still_used [OF p(4), of q] view_fields(2) [OF p(5)] by auto
  have m: "members L = {q \<in> set (xs @ b # ys). q \<notin> X - {b} \<and> \<not> mm_is_used (mem st') q} - {b}"
    unfolding mem using us b by blast
  have "still c (members L) st st'" by (rule still_mono [OF p(4)]) (use mem b in auto)
  from filed_still(1) [OF hd(2) p(2) _ _ _ this] have "bins_rep c st' L"
    using m mem mem_onlyD(1) [OF p(3)] by (metis (no_types, lifting) Diff_subset)
  then show thesis using that [OF p] m cur_calm [OF hd(3) mem_only_calm [OF p(3)]] by blast
qed

lemma set_payload_crc_fields:
  fixes m :: bytes and b :: nat and v :: u32
  assumes "MM_HAS_CRC c"
  defines "m' \<equiv> set_payload_crc m b v"
  shows "mm_block_size m' b = mm_block_size m b" "mm_is_used m' b = mm_is_used m b"
    "mm_prev_in_use m' b = mm_prev_in_use m b" "mm_is_quarantined m' b = mm_is_quarantined m b"
    "mm_slack m' b = mm_slack m b" "mm_requested_size c m' b = mm_requested_size c m b"
    "within b (b + 16) m m'" "payload_crc m' b = v"
proof -
  have "load64 m' b = load64 m b" by (simp add: m'_def set_payload_crc_def mem_simps)
  then have "mm_word m' b = mm_word m b" by (simp add: mm_word_def)
  then show "mm_block_size m' b = mm_block_size m b" "mm_is_used m' b = mm_is_used m b"
    "mm_prev_in_use m' b = mm_prev_in_use m b" "mm_is_quarantined m' b = mm_is_quarantined m b"
    "mm_slack m' b = mm_slack m b" "mm_requested_size c m' b = mm_requested_size c m b"
    by (simp_all add: mm_block_size_def mm_is_used_def mm_prev_in_use_def mm_is_quarantined_def mm_slack_def
        mm_requested_size_def)
  show "within b (b + 16) m m'" by (simp add: m'_def set_payload_crc_def within_store)
  show "payload_crc m' b = v" by (simp add: m'_def set_payload_crc_def payload_crc_def mem_simps)
qed

lemma release_block_work:
  assumes h: "heap_work c st u X (xs @ b # ys) L" and b: "b \<in> X"
    and low: "last_flag st X (Some False) xs \<noteq> Some True"
    and up: "ys \<noteq> [] \<Longrightarrow> hd ys \<notin> X \<and> mm_is_used (mem st) (hd ys)"
  obtains L' where "heap_work c (release_block c b st) u (X - {b}) (xs @ b # ys) L'"
    "kept c (set xs \<union> set ys) st (release_block c b st)" "shell st (release_block c b st)"
    "\<not> mm_is_used (mem (release_block c b st)) b"
proof -
  let ?k = "mm_block_size (mem st) b"
  let ?s1 = "upd_mem (\<lambda>m. mm_set_word m b (mm_block_size m b) 0 False False) st"
  let ?s2 = "if MM_HAS_CRC c then upd_mem (\<lambda>m. set_payload_crc m b 0) ?s1 else ?s1"
  note sp = work_span [OF h]
  have z: "(0::nat) < 128" by simp
  note sf = set_word_fields_mem [OF size16(2,1) z, where m = "mem st" and b = b and used = False and quar = False]
  have w1: "within b (b + ?k) (mem st) (mem ?s1)"
    using within_mono [OF sf(7)] sp(6) layout_bounds(6) [of c] by simp
  note e1 = work_edit [OF h b mem_only_upd w1]
  have h1: "heap_work c ?s1 u X (xs @ b # ys) L" "still c (set xs \<union> set ys) st ?s1"
    using e1 sf(1,3) by simp_all
  have 2: "heap_work c ?s2 u X (xs @ b # ys) L \<and> still c (set xs \<union> set ys) ?s1 ?s2 \<and> \<not> mm_is_used (mem ?s2) b \<and>
      mem_only st ?s2"
  proof (cases "MM_HAS_CRC c")
    case False
    then show ?thesis using h1 sf(2) by simp
  next
    case True
    note pf = set_payload_crc_fields [OF True, where m = "mem ?s1" and b = b and v = 0]
    have w2: "within b (b + mm_block_size (mem ?s1) b) (mem ?s1) (mem (upd_mem (\<lambda>m. set_payload_crc m b 0) ?s1))"
      using within_mono [OF pf(7)] sp(6) sf(1) layout_bounds(6) [of c] by simp
    have eqs: "mm_block_size (mem (upd_mem (\<lambda>m. set_payload_crc m b 0) ?s1)) b = mm_block_size (mem ?s1) b"
        "mm_prev_in_use (mem (upd_mem (\<lambda>m. set_payload_crc m b 0) ?s1)) b = mm_prev_in_use (mem ?s1) b"
        "\<not> mm_is_used (mem (upd_mem (\<lambda>m. set_payload_crc m b 0) ?s1)) b"
      using pf(1,2,3) sf(2) by simp_all
    note e2 = work_edit [OF h1(1) b mem_only_upd w2 eqs(1,2)]
    show ?thesis using e2 eqs(3) True mem_only_trans [OF mem_only_upd mem_only_upd] by simp
  qed
  have s2: "still c (set xs \<union> set ys) st ?s2" using still_trans [OF h1(2)] 2 by blast
  have sx: "still c (set xs) st ?s2" by (rule still_mono [OF s2]) blast
  have rd: "ready c ?s2 X xs b ys"
    using 2 low up still_used [OF s2] last_flag_still [OF sx] unfolding ready_def by (cases ys) simp_all
  show thesis
  proof (rule work_publish [OF conjunct1 [OF 2] b rd])
    fix st'
    assume p: "mm_publish c b ?s2 = (True, st')" "tiles c st' u (X - {b}) (xs @ b # ys)"
      "mem_only ?s2 st'" "still c (set xs \<union> set ys) ?s2 st'" "view c (mem st') b = view c (mem ?s2) b"
      "bins_rep c st' L" "cur st' u (xs @ b # ys)"
      "members L = {q \<in> set (xs @ b # ys). q \<notin> X - {b} \<and> \<not> mm_is_used (mem st') q} - {b}"
    have fr: "\<not> mm_is_used (mem st') b" using view_fields(2) [OF p(5)] 2 by simp
    have rb: "release_block c b st = mm_bin_insert c b st'"
      unfolding release_block_def Let_def using p(1) by simp
    have bm: "b \<in> set (xs @ b # ys)" "b \<notin> X - {b}" by simp_all
    show thesis
    proof (rule step_put [OF p(2,6,8) bm fr])
      fix L'
      assume q: "tiles c (mm_bin_insert c b st') u (X - {b}) (xs @ b # ys)"
        "filed c (mm_bin_insert c b st') (X - {b}) (xs @ b # ys) L'" "calm st' (mm_bin_insert c b st')"
        "kept c (set (xs @ b # ys)) st' (mm_bin_insert c b st')"
      have hw: "heap_work c (mm_bin_insert c b st') u (X - {b}) (xs @ b # ys) L'"
        using q(1,2) cur_calm [OF p(7) q(3) subset_refl] by (simp add: heap_work_def)
      have "mem_only st ?s2" using 2 by blast
      then have sh: "shell st (mm_bin_insert c b st')"
        using shell_trans mem_onlyD(4) p(3) calm_shell [OF q(3)] by blast
      have "kept c (set xs \<union> set ys) st' (mm_bin_insert c b st')" by (rule kept_mono [OF q(4)]) auto
      then have kp: "kept c (set xs \<union> set ys) st (mm_bin_insert c b st')"
        by (rule kept_trans [OF still_kept [OF still_trans [OF s2 p(4)]]])
      have "\<not> mm_is_used (mem (mm_bin_insert c b st')) b" using q(4) fr by (simp add: kept_def)
      then show thesis using that [of L'] hw kp sh unfolding rb by blast
    qed
  qed (use up in blast)
qed

section \<open>Splitting\<close>

text \<open>The header the tail of a split is given, before its seal.\<close>

definition tail_header :: "mm_config \<Rightarrow> nat \<Rightarrow> nat \<Rightarrow> bytes \<Rightarrow> bytes" where
  "tail_header c t n m =
     (let m = set_word_at m t 0;
          m = (if MM_HAS_CRC c then set_payload_crc m t 0 else m);
          m = mm_set_word m t n (MM_TRAIL c) True False
      in mm_set_prev_in_use m t True)"

lemma tail_header_fields:
  assumes "n < 2 ^ 58" "16 dvd n"
  shows "mm_block_size (tail_header c t n m) t = n" "mm_is_used (tail_header c t n m) t"
    "mm_prev_in_use (tail_header c t n m) t" "\<not> mm_is_quarantined (tail_header c t n m) t"
    "within t (t + MM_HDR_SIZE c) m (tail_header c t n m)"
proof -
  define m1 where "m1 = (if MM_HAS_CRC c then set_payload_crc (set_word_at m t 0) t 0 else set_word_at m t 0)"
  have tr: "MM_TRAIL c < 128" using layout_bounds(9) [of c] by linarith
  note sf = set_word_fields_mem [OF assms tr, where m = m1 and b = t and used = True and quar = False]
  have th: "tail_header c t n m = mm_set_prev_in_use (mm_set_word m1 t n (MM_TRAIL c) True False) t True"
    by (simp add: tail_header_def m1_def Let_def)
  have w: "mm_word (tail_header c t n m) t = w_set_prev_in_use (mm_word (mm_set_word m1 t n (MM_TRAIL c) True False) t) True"
    by (simp add: th mm_set_prev_in_use_def)
  show "mm_block_size (tail_header c t n m) t = n" "mm_is_used (tail_header c t n m) t"
    "mm_prev_in_use (tail_header c t n m) t" "\<not> mm_is_quarantined (tail_header c t n m) t"
    using sf(1,2,4) by (simp_all add: mm_block_size_def mm_is_used_def mm_prev_in_use_def mm_is_quarantined_def w)
  have h8: "8 \<le> MM_HDR_SIZE c" using layout_bounds(1) [of c] by simp
  have "within t (t + MM_HDR_SIZE c) m m1"
  proof (cases "MM_HAS_CRC c")
    case True
    then have h: "MM_HDR_SIZE c = 16" by (simp add: MM_HDR_SIZE_def)
    have "within t (t + 16) m (set_word_at m t 0)" by (simp add: set_word_at_def within_store)
    moreover have "within t (t + 16) (set_word_at m t 0) (set_payload_crc (set_word_at m t 0) t 0)"
      unfolding set_payload_crc_def by (rule within_store) simp_all
    ultimately show ?thesis unfolding m1_def h using True within_trans by simp
  next
    case False
    then show ?thesis using h8 by (simp add: m1_def set_word_at_def within_store)
  qed
  moreover have "within t (t + MM_HDR_SIZE c) m1 (mm_set_word m1 t n (MM_TRAIL c) True False)"
    by (rule within_mono [OF sf(7)]) (use h8 in simp_all)
  moreover have "within t (t + MM_HDR_SIZE c) (mm_set_word m1 t n (MM_TRAIL c) True False) (tail_header c t n m)"
    using h8 by (simp add: th mm_set_prev_in_use_def set_word_at_def within_store)
  ultimately show "within t (t + MM_HDR_SIZE c) m (tail_header c t n m)" using within_trans by blast
qed

lemma split_block_tail:
  "split_block c b need st =
     (let leftover = sub64 (mm_block_size (mem st) b) need
      in if leftover < MM_MIN_BLOCK c then st
         else let st = mm_seal c b (upd_mem (\<lambda>m. mm_set_block_size m b need) st);
                  st = mm_seal c (b + need) (upd_mem (tail_header c (b + need) leftover) st);
                  (run, st) = absorb_neighbours c (b + need) st
              in if run \<noteq> 0 then release_block c run st else st)"
proof -
  have "upd_mem (\<lambda>m. mm_set_prev_in_use m t True) (upd_mem (\<lambda>m. mm_set_word m t n (MM_TRAIL c) True False)
      (if MM_HAS_CRC c then upd_mem (\<lambda>m. set_payload_crc m t 0) (upd_mem (\<lambda>m. set_word_at m t 0) s)
       else upd_mem (\<lambda>m. set_word_at m t 0) s)) = upd_mem (tail_header c t n) s" for t n s
    by (cases s) (simp add: tail_header_def Let_def upd_mem_def)
  then show ?thesis by (simp add: split_block_def Let_def)
qed

text \<open>The cut itself, up to the seal of the tail.\<close>

lemma work_split:
  assumes h: "heap_work c st u X (xs @ b # ys) L" and b: "b \<in> X"
    and need: "16 dvd need" "MM_MIN_BLOCK c \<le> need" "need + MM_MIN_BLOCK c \<le> mm_block_size (mem st) b"
  defines "k \<equiv> mm_block_size (mem st) b" and "t \<equiv> b + need"
  defines "st1 \<equiv> mm_seal c b (upd_mem (\<lambda>m. mm_set_block_size m b need) st)"
  defines "st2 \<equiv> mm_seal c t (upd_mem (tail_header c t (k - need)) st1)"
  shows "heap_work c st2 u (insert t X) (xs @ b # t # ys) L" "still c (set xs \<union> set ys) st st2" "mem_only st st2"
    "mm_block_size (mem st2) b = need" "mm_is_used (mem st2) b = mm_is_used (mem st) b"
    "mm_is_quarantined (mem st2) b = mm_is_quarantined (mem st) b"
    "mm_header_ok c st2 t" "mm_is_used (mem st2) t" "mm_prev_in_use (mem st2) t"
proof -
  note sp = work_span [OF h] and lb = layout_bounds [of c]
  have k: "16 dvd k" "k < 2 ^ 58" unfolding k_def by (rule size16)+
  have n58: "need < 2 ^ 58" "k - need < 2 ^ 58" "16 dvd k - need"
    using need k by (simp_all add: k_def)
  let ?s0 = "upd_mem (\<lambda>m. mm_set_block_size m b need) st"
  note sf = set_block_size_fields_mem [OF n58(1) need(1), where m = "mem st" and b = b]
  have min0: "MM_MIN_BLOCK c \<le> mm_block_size (mem ?s0) b" using sf(1) need(2) by simp
  note ms = mm_seal_fields [OF min0] and mm = mm_seal_mem [OF min0]
  note tf = tail_header_fields [OF n58(2,3), where c = c and t = t and m = "mem st1"]
  let ?s3 = "upd_mem (tail_header c t (k - need)) st1"
  have bk: "b + need = t" "t + (k - need) = b + k" using need(3) by (simp_all add: t_def k_def)
  have w0: "within b (b + k) (mem st) (mem ?s0)"
    using within_mono [OF sf(7)] need lb(6) by (simp add: k_def)
  have w1: "within b (b + k) (mem ?s0) (mem st1)"
    unfolding st1_def by (rule within_mono [OF mm(4)]) (use sf(1) need(3) in \<open>simp_all add: mm_block_end_def k_def\<close>)
  have w2: "within b (b + k) (mem st1) (mem ?s3)"
  proof -
    have "b \<le> t" "t + MM_HDR_SIZE c \<le> b + k" using need(3) lb(2,6) by (simp_all add: t_def k_def)
    then show ?thesis using within_mono [OF tf(5)] by simp
  qed
  have w: "within b (b + k) (mem st) (mem ?s3)"
    by (rule within_trans [OF within_trans [OF w0 w1] w2])
  have "same_on b (MM_HDR_SIZE c) (mem st1) (mem ?s3)"
    using within_same_on [OF tf(5)] need(2) lb(2,6) by (simp add: t_def)
  note hb = header_fields_cong [OF this]
  have mo: "mem_only st ?s3" unfolding st1_def using mem_only_trans [OF mem_only_trans [OF mem_only_upd mem_only_seal] mem_only_upd] by blast
  have f3: "mm_block_size (mem ?s3) b = need" "mm_is_used (mem ?s3) b = mm_is_used (mem st) b"
    "mm_prev_in_use (mem ?s3) b = mm_prev_in_use (mem st) b" "mm_is_quarantined (mem ?s3) b = mm_is_quarantined (mem st) b"
    using hb ms sf by (simp_all add: st1_def)
  have r3: "mm_block_size (mem ?s3) (b + need) + need = mm_block_size (mem st) b"
    "MM_MIN_BLOCK c \<le> mm_block_size (mem ?s3) (b + need)"
    using tf(1) need(3) bk by (simp_all add: k_def)
  have wk: "within b (b + mm_block_size (mem st) b) (mem st) (mem ?s3)" using w by (simp add: k_def)
  note cut = work_cut [OF h b mo wk f3(1) need(2) r3 f3(3), unfolded bk(1)]
  have cut': "heap_work c ?s3 u (insert t X) ((xs @ [b]) @ t # ys) L" using cut(1) by simp
  note sl = work_seal [OF cut' insertI1]
  show "heap_work c st2 u (insert t X) (xs @ b # t # ys) L" using sl(1) by (simp add: st2_def)
  have "still c (set xs \<union> set ys) ?s3 st2" unfolding st2_def by (rule still_mono [OF sl(2)]) auto
  then show "still c (set xs \<union> set ys) st st2" by (rule still_trans [OF cut(2)])
  show "mem_only st st2" unfolding st2_def by (rule mem_only_trans [OF mo mem_only_seal])
  show "mm_header_ok c st2 t" unfolding st2_def by (rule sl(3))
  have mint: "MM_MIN_BLOCK c \<le> mm_block_size (mem ?s3) t" using r3 bk by simp
  note mst = mm_seal_fields [OF mint] and mmt = mm_seal_mem(4) [OF mint]
  show "mm_is_used (mem st2) t" "mm_prev_in_use (mem st2) t" using mst tf by (simp_all add: st2_def)
  have "same_on b (MM_HDR_SIZE c) (mem ?s3) (mem st2)"
    unfolding st2_def using within_same_on [OF mmt] need(2) lb(2,6) by (simp add: t_def)
  note hb2 = header_fields_cong [OF this]
  show "mm_block_size (mem st2) b = need" "mm_is_used (mem st2) b = mm_is_used (mem st) b"
    "mm_is_quarantined (mem st2) b = mm_is_quarantined (mem st) b"
    using hb2 f3 by simp_all
qed

section \<open>What an operation does to the blocks of others\<close>

text \<open>Outside \<open>S\<close> the used blocks are the same before and after, and their holders see the same.\<close>

definition keeps :: "mm_config \<Rightarrow> nat set \<Rightarrow> mm_state \<Rightarrow> nat list \<Rightarrow> mm_state \<Rightarrow> nat list \<Rightarrow> bool" where
  "keeps c S st bs st' bs' \<longleftrightarrow>
     (\<forall>q. q \<notin> S \<longrightarrow>
        (q \<in> set bs' \<and> mm_is_used (mem st') q \<longleftrightarrow> q \<in> set bs \<and> mm_is_used (mem st) q)) \<and>
     (\<forall>q \<in> set bs - S. mm_is_used (mem st) q \<longrightarrow> view c (mem st') q = view c (mem st) q)"

lemma keeps_refl [simp]: "keeps c S st bs st bs"
  by (simp add: keeps_def)

lemma keeps_trans: "keeps c S r as s bs \<Longrightarrow> keeps c S s bs t cs \<Longrightarrow> keeps c S r as t cs"
  unfolding keeps_def by (metis Diff_iff)

lemma keeps_mono: "keeps c S st bs st' bs' \<Longrightarrow> S \<subseteq> T \<Longrightarrow> keeps c T st bs st' bs'"
  unfolding keeps_def by blast

lemma keeps_mem: "mem st' = mem st \<Longrightarrow> keeps c S st bs st' bs"
  by (simp add: keeps_def)

lemma kept_keeps:
  assumes "kept c (set bs' - S) st st'" "set bs' \<subseteq> set bs \<union> S"
    "\<forall>q \<in> set bs - S. mm_is_used (mem st) q \<longrightarrow> q \<in> set bs'"
  shows "keeps c S st bs st' bs'"
  using assms unfolding keeps_def kept_def by (metis Diff_iff UnE subsetD)

section \<open>Disposing of a block\<close>

lemma absorb_neighbours_work:
  assumes h: "heap_work c st u X (xs @ b # ys) L" and b: "b \<in> X"
    and xs: "set xs \<inter> X = {} \<or> mm_prev_in_use (mem st) b" and ys: "set ys \<inter> X = {}"
    and ok: "mm_header_ok c st b" and used: "mm_is_used (mem st) b"
  obtains r xs' ys' L' st' where "absorb_neighbours c b st = (r, st')" "r \<noteq> 0"
    "heap_work c st' u (insert r (X - {b})) (xs' @ r # ys') L'"
    "keeps c {b, r} st (xs @ b # ys) st' (xs' @ r # ys')" "shell st st'"
    "last_flag st' (insert r (X - {b})) (Some False) xs' \<noteq> Some True"
    "ys' \<noteq> [] \<Longrightarrow> hd ys' \<notin> insert r (X - {b}) \<and> mm_is_used (mem st') (hd ys')"
    "r \<notin> X - {b}" "r \<noteq> b \<Longrightarrow> r \<in> set xs \<and> \<not> mm_is_used (mem st) r"
    "b \<notin> set (xs' @ ys')" "mm_prev_in_use (mem st) b \<Longrightarrow> r = b \<and> xs' = xs"
proof (rule absorb_next_work [OF h b ys ok used])
  fix ys1 L1 st1
  assume n: "absorb_next c b st = (Some (mm_block_size (mem st1) b), st1)"
    "heap_work c st1 u X (xs @ b # ys1) L1" "kept c (set xs \<union> set ys1) st st1" "shell st st1"
    "mm_header_ok c st1 b" "mm_is_used (mem st1) b" "mm_prev_in_use (mem st1) b = mm_prev_in_use (mem st) b"
    "ys1 \<noteq> [] \<Longrightarrow> mm_is_used (mem st1) (hd ys1)" "set ys1 \<subseteq> set ys"
    "\<And>q. q \<in> set ys \<Longrightarrow> mm_is_used (mem st) q \<Longrightarrow> q \<in> set ys1"
  have xs1: "set xs \<inter> X = {} \<or> mm_prev_in_use (mem st1) b" using xs n(7) by simp
  have ys1: "set ys1 \<inter> X = {}" using ys n(9) by blast
  note sp = work_span [OF h]
  show thesis
  proof (rule absorb_prev_work [OF n(2) b xs1 ys1 n(5,6,8)], assumption)
    fix r xs' L' st'
    assume p: "absorb_prev c b (mm_block_size (mem st1) b) st1 = (r, st')" "r \<noteq> 0"
      "heap_work c st' u (insert r (X - {b})) (xs' @ r # ys1) L'" "kept c (set xs' \<union> set ys1) st1 st'" "shell st1 st'"
      "mm_header_ok c st' r" "mm_is_used (mem st') r" "last_flag st' (X - {b}) (Some False) xs' \<noteq> Some True"
      "ys1 \<noteq> [] \<Longrightarrow> mm_is_used (mem st') (hd ys1)" "set xs' \<subseteq> set xs" "r \<in> insert b (set xs)"
      "\<And>q. q \<in> set xs \<Longrightarrow> mm_is_used (mem st1) q \<Longrightarrow> q \<in> set xs'"
      "mm_prev_in_use (mem st1) b \<Longrightarrow> r = b \<and> xs' = xs"
    have an: "absorb_neighbours c b st = (r, st')"
      using n(1) p(1) sp(1,2) by (simp add: absorb_neighbours_def)
    have d: "distinct (xs' @ r # ys1)" by (rule heap_workD(5) [OF p(3)])
    have d0: "distinct (xs @ b # ys)" by (rule heap_workD(5) [OF h])
    have kx: "\<And>q. q \<in> set xs \<Longrightarrow> mm_is_used (mem st1) q = mm_is_used (mem st) q" using n(3) by (simp add: kept_def)
    have kp: "keeps c {b, r} st (xs @ b # ys) st' (xs' @ r # ys1)"
    proof (rule kept_keeps)
      have "kept c (set xs' \<union> set ys1) st st1" by (rule kept_mono [OF n(3)]) (use p(10) in blast)
      then have "kept c (set xs' \<union> set ys1) st st'" by (rule kept_trans [OF _ p(4)])
      then show "kept c (set (xs' @ r # ys1) - {b, r}) st st'" by (rule kept_mono) auto
      show "set (xs' @ r # ys1) \<subseteq> set (xs @ b # ys) \<union> {b, r}" using p(10) n(9) by auto
      show "\<forall>q \<in> set (xs @ b # ys) - {b, r}. mm_is_used (mem st) q \<longrightarrow> q \<in> set (xs' @ r # ys1)"
        using p(12) kx n(10) by auto
    qed
    have rX: "r \<notin> X - {b}" using p(11,13) xs1 by blast
    have "last_flag st' (insert r (X - {b})) (Some False) xs' = last_flag st' (X - {b}) (Some False) xs'"
      by (rule last_flag_open_set) (use d in auto)
    then have low: "last_flag st' (insert r (X - {b})) (Some False) xs' \<noteq> Some True" using p(8) by simp
    have up: "ys1 \<noteq> [] \<Longrightarrow> hd ys1 \<notin> insert r (X - {b}) \<and> mm_is_used (mem st') (hd ys1)"
      using p(9) ys1 d by (cases ys1) auto
    have fr: "r \<in> set xs \<and> \<not> mm_is_used (mem st) r" if "r \<noteq> b"
    proof -
      have "r \<in> set xs" using p(11) that by blast
      moreover have "r \<notin> set xs'" using d by simp
      ultimately show ?thesis using p(12) kx by blast
    qed
    have nb: "b \<notin> set (xs' @ ys1)" using d0 p(10) n(9) by auto
    show thesis
      by (rule that [OF an p(2,3) kp shell_trans [OF n(4) p(5)] low up rX fr nb]) (use n(7) p(13) in blast)+
  qed
qed

lemma dispose_work:
  assumes h: "heap_work c st u X (xs @ b # ys) L" and b: "b \<in> X"
    and xs: "set xs \<inter> X = {} \<or> mm_prev_in_use (mem st) b" and ys: "set ys \<inter> X = {}"
    and ok: "mm_header_ok c st b" and used: "mm_is_used (mem st) b"
  obtains r st1 bs' L' where "absorb_neighbours c b st = (r, st1)" "r \<noteq> 0" "shell st st1"
    "heap_work c (release_block c r st1) u (X - {b}) bs' L'" "shell st (release_block c r st1)"
    "keeps c {b} st (xs @ b # ys) (release_block c r st1) bs'"
    "\<not> (b \<in> set bs' \<and> mm_is_used (mem (release_block c r st1)) b)"
    "mm_prev_in_use (mem st) b \<Longrightarrow> \<exists>ys'. bs' = xs @ b # ys'"
    "lo (descs st u) \<le> r" "r < hi (descs st u)"
proof (rule absorb_neighbours_work [OF assms])
  fix r xs' ys' L' st1
  assume a: "absorb_neighbours c b st = (r, st1)" "r \<noteq> 0"
    "heap_work c st1 u (insert r (X - {b})) (xs' @ r # ys') L'"
    "keeps c {b, r} st (xs @ b # ys) st1 (xs' @ r # ys')" "shell st st1"
    "last_flag st1 (insert r (X - {b})) (Some False) xs' \<noteq> Some True"
    "ys' \<noteq> [] \<Longrightarrow> hd ys' \<notin> insert r (X - {b}) \<and> mm_is_used (mem st1) (hd ys')"
    "r \<notin> X - {b}" "r \<noteq> b \<Longrightarrow> r \<in> set xs \<and> \<not> mm_is_used (mem st) r"
    "b \<notin> set (xs' @ ys')" "mm_prev_in_use (mem st) b \<Longrightarrow> r = b \<and> xs' = xs"
  show thesis
  proof (rule release_block_work [OF a(3) insertI1 a(6,7)], assumption)
    fix L2
    let ?s = "release_block c r st1" and ?bs = "xs' @ r # ys'"
    assume q: "heap_work c ?s u (insert r (X - {b}) - {r}) ?bs L2" "kept c (set xs' \<union> set ys') st1 ?s"
      "shell st1 ?s" "\<not> mm_is_used (mem ?s) r"
    have X: "insert r (X - {b}) - {r} = X - {b}" using a(8) by blast
    have hw: "heap_work c ?s u (X - {b}) ?bs L2" using q(1) by (simp only: X)
    have "keeps c {b, r} st1 ?bs ?s ?bs"
      by (rule kept_keeps) (auto intro: kept_mono [OF q(2)])
    then have k2: "keeps c {b, r} st (xs @ b # ys) ?s ?bs" by (rule keeps_trans [OF a(4)])
    have "r \<notin> set (xs @ b # ys) \<or> \<not> mm_is_used (mem st) r" if "r \<noteq> b" using a(9) that by blast
    then have kp: "keeps c {b} st (xs @ b # ys) ?s ?bs"
      using k2 q(4) unfolding keeps_def by (metis Diff_iff insert_iff singletonD)
    have nb: "\<not> (b \<in> set ?bs \<and> mm_is_used (mem ?s) b)" using a(10) q(4) by auto
    show thesis
      by (rule that [OF a(1,2,5) hw shell_trans [OF a(5) q(3)] kp nb])
         (use a(11) work_span(3,5) [OF a(3)] shellD(2) [OF a(5)] in auto)
  qed
qed

section \<open>Splitting off the rest\<close>

lemma keeps_drop:
  assumes "keeps c (insert r S) st bs st' bs'" "\<not> (r \<in> set bs \<and> mm_is_used (mem st) r)"
    "\<not> (r \<in> set bs' \<and> mm_is_used (mem st') r)"
  shows "keeps c S st bs st' bs'"
  using assms unfolding keeps_def by (metis Diff_iff insert_iff)

lemma split_block_work:
  assumes h: "heap_work c st u X (xs @ b # ys) L" and b: "b \<in> X" and ys: "set ys \<inter> X = {}"
    and X: "X \<subseteq> set (xs @ b # ys)" and need: "16 dvd need" "MM_MIN_BLOCK c \<le> need" "need \<le> mm_block_size (mem st) b"
    and used: "mm_is_used (mem st) b"
  obtains ys' L' where "heap_work c (split_block c b need st) u X (xs @ b # ys') L'"
    "keeps c {b} st (xs @ b # ys) (split_block c b need st) (xs @ b # ys')" "shell st (split_block c b need st)"
    "need \<le> mm_block_size (mem (split_block c b need st)) b"
    "mm_block_size (mem (split_block c b need st)) b < need + MM_MIN_BLOCK c"
    "mm_is_used (mem (split_block c b need st)) b" "set ys' \<inter> X = {}"
proof (cases "mm_block_size (mem st) b - need < MM_MIN_BLOCK c")
  case True
  then have "split_block c b need st = st" using need(3) by (simp add: split_block_tail)
  then show thesis using that [of ys L] h True need(3) used ys by simp
next
  case False
  have room: "need + MM_MIN_BLOCK c \<le> mm_block_size (mem st) b" using False need(3) by linarith
  let ?k = "mm_block_size (mem st) b" and ?t = "b + need"
  let ?s1 = "mm_seal c b (upd_mem (\<lambda>m. mm_set_block_size m b need) st)"
  let ?s2 = "mm_seal c ?t (upd_mem (tail_header c ?t (?k - need)) ?s1)"
  note w = work_split [OF h b need(1,2) room]
  have d0: "distinct (xs @ b # ys)" and d2: "distinct (xs @ b # ?t # ys)"
    using heap_workD(5) [OF h] heap_workD(5) [OF w(1)] by simp_all
  have h2: "heap_work c ?s2 u (insert ?t X) ((xs @ [b]) @ ?t # ys) L" using w(1) by simp
  have ysX: "set ys \<inter> insert ?t X = {}" using ys d2 by auto
  have pv: "set (xs @ [b]) \<inter> insert ?t X = {} \<or> mm_prev_in_use (mem ?s2) ?t" using w(9) by simp
  have lo: "sub64 ?k need = ?k - need" "(?k - need < MM_MIN_BLOCK c) = False" using room need(3) by simp_all
  have sb: "split_block c b need st = (let (run, s) = absorb_neighbours c ?t ?s2
      in if run \<noteq> 0 then release_block c run s else s)"
    unfolding split_block_tail Let_def by (simp only: lo if_False)
  show thesis
  proof (rule dispose_work [OF h2 insertI1 pv ysX w(7,8)])
    fix r s3 bs' L'
    let ?s = "release_block c r s3"
    assume q: "absorb_neighbours c ?t ?s2 = (r, s3)" "r \<noteq> 0" "shell ?s2 s3"
      "heap_work c ?s u (insert ?t X - {?t}) bs' L'" "shell ?s2 ?s"
      "keeps c {?t} ?s2 ((xs @ [b]) @ ?t # ys) ?s bs'" "\<not> (?t \<in> set bs' \<and> mm_is_used (mem ?s) ?t)"
      "mm_prev_in_use (mem ?s2) ?t \<Longrightarrow> \<exists>ys'. bs' = (xs @ [b]) @ ?t # ys'"
    have sp: "split_block c b need st = ?s" unfolding sb using q(1,2) by simp
    obtain ys' where bs: "bs' = xs @ b # ?t # ys'" using q(8) [OF w(9)] by auto
    have d3: "distinct (xs @ b # ?t # ys')" using heap_workD(5) [OF q(4)] by (simp add: bs)
    have tX: "insert ?t X - {?t} = X" using X d2 by auto
    have hw: "heap_work c ?s u X (xs @ b # ?t # ys') L'" using q(4) unfolding tX bs .
    have bu: "b \<in> set ((xs @ [b]) @ ?t # ys) - {?t}" "mm_is_used (mem ?s2) b" using d2 w(5) used by auto
    then have vb: "view c (mem ?s) b = view c (mem ?s2) b" using q(6) unfolding keeps_def by blast
    note vf = view_fields(1,2) [OF vb]
    have k1: "keeps c {?t, b} st (xs @ b # ys) ?s2 ((xs @ [b]) @ ?t # ys)"
      by (rule kept_keeps) (auto intro: kept_mono [OF still_kept [OF w(2)]])
    have "keeps c {?t, b} ?s2 ((xs @ [b]) @ ?t # ys) ?s bs'" by (rule keeps_mono [OF q(6)]) blast
    then have "keeps c {?t, b} st (xs @ b # ys) ?s bs'" by (rule keeps_trans [OF k1])
    then have kp: "keeps c {b} st (xs @ b # ys) ?s (xs @ b # ?t # ys')"
      unfolding bs by (rule keeps_drop) (use d2 q(7) bs in auto)
    have sh: "shell st ?s" by (rule shell_trans [OF mem_onlyD(4) [OF w(3)] q(5)])
    have y: "set (?t # ys') \<inter> X = {}" using X ys d2 d3 by auto
    have min: "0 < MM_MIN_BLOCK c" using layout_bounds(6) [of c] by linarith
    show thesis
      by (rule that [of "?t # ys'" L']) (use hw kp sh y vf w(4,5) used min in \<open>simp_all add: sp\<close>)
  qed
qed

section \<open>Finishing an allocation\<close>

lemma write_canary_mem:
  assumes min: "MM_MIN_BLOCK c \<le> mm_block_size (mem st) b"
    and rm: "MM_HDR_SIZE c + mm_requested_size c (mem st) b + MM_TRAIL c \<le> mm_block_size (mem st) b"
    and us: "mm_is_used (mem st) b" "\<not> mm_is_quarantined (mem st) b"
  shows "within b (b + mm_block_size (mem st) b) (mem st) (mem (mm_write_canary c b st))"
    "same_on b (MM_HDR_SIZE c) (mem st) (mem (mm_write_canary c b st))"
    "mem_only st (mm_write_canary c b st)" "mm_canary_ok c (mm_write_canary c b st) b"
proof -
  have tr: "MM_HAS_CANARY c \<Longrightarrow> 8 \<le> MM_TRAIL c" by (simp add: MM_TRAIL_def MM_CANARY_SIZE_def)
  show "within b (b + mm_block_size (mem st) b) (mem st) (mem (mm_write_canary c b st))"
    using rm tr by (auto simp: mm_write_canary_def canary_at_def mm_payload_of_def intro!: within_store)
  show s: "same_on b (MM_HDR_SIZE c) (mem st) (mem (mm_write_canary c b st))"
    by (simp add: mm_write_canary_def canary_at_def mm_payload_of_def same_on_store64)
  show "mem_only st (mm_write_canary c b st)" by (simp add: mm_write_canary_def)
  note f = header_fields_cong [OF s]
  have "shell st (mm_write_canary c b st)" by (simp add: mm_write_canary_def)
  then have ix: "mm_block_index (mm_write_canary c b st) b = mm_block_index st b"
    "secret (g_arena (mm_write_canary c b st)) = secret (g_arena st)"
    using shellD(2,3,7) [of st "mm_write_canary c b st"] by (simp_all add: mm_block_index_def Let_def)
  show "mm_canary_ok c (mm_write_canary c b st) b"
  proof (cases "MM_HAS_CANARY c")
    case True
    have "canary_at c (mem (mm_write_canary c b st)) b = canary_at c (mem st) b" using f by (simp add: canary_at_def)
    then have "load64 (mem (mm_write_canary c b st)) (canary_at c (mem (mm_write_canary c b st)) b) =
        mm_canary_value (mm_block_index st b) (secret (g_arena st))"
      using True by (simp add: mm_write_canary_def mem_simps)
    then show ?thesis by (simp add: mm_canary_ok_def ix)
  qed (simp add: mm_canary_ok_def)
qed

lemma finish_allocation_work:
  fixes sz :: nat
  assumes h: "heap_work c st u X (xs @ b # ys) L" and b: "b \<in> X" and ys: "ys \<noteq> [] \<Longrightarrow> hd ys \<notin> X"
  defines "give \<equiv> if mode (g_arena st) = MM_MODE_LIBC then mm_block_size (mem st) b - MM_HDR_SIZE c - MM_TRAIL c else sz"
  assumes rm: "MM_HDR_SIZE c + give + MM_TRAIL c \<le> mm_block_size (mem st) b"
    and sl: "mm_block_size (mem st) b < MM_HDR_SIZE c + give + 128"
  obtains st' where "finish_allocation c b sz st = (True, st')" "heap_work c st' u (X - {b}) (xs @ b # ys) L"
    "keeps c {b} st (xs @ b # ys) st' (xs @ b # ys)" "mem_only st st'"
    "mm_block_size (mem st') b = mm_block_size (mem st) b" "mm_is_used (mem st') b"
    "\<not> mm_is_quarantined (mem st') b" "mm_requested_size c (mem st') b = give"
proof -
  let ?k = "mm_block_size (mem st) b"
  note sp = work_span [OF h] and lb = layout_bounds [of c]
  have s1: "sub64 (sub64 ?k (MM_HDR_SIZE c)) give = ?k - MM_HDR_SIZE c - give" using rm by simp
  have g: "(if mode (g_arena st) = MM_MODE_LIBC then sub64 (sub64 ?k (MM_HDR_SIZE c)) (MM_TRAIL c) else sz) = give"
    using sp(6) lb(4) by (simp add: give_def)
  let ?s1 = "upd_mem (\<lambda>m. mm_set_word m b ?k (?k - MM_HDR_SIZE c - give) True False) st"
  have sl': "?k - MM_HDR_SIZE c - give < 128" using sl by linarith
  note sf = set_word_fields_mem [OF size16(2,1) sl', where m = "mem st" and b = b and used = True and quar = False]
  have w1: "within b (b + ?k) (mem st) (mem ?s1)"
    using within_mono [OF sf(7)] sp(6) lb(6) by simp
  have e1: "mm_block_size (mem ?s1) b = ?k" "mm_prev_in_use (mem ?s1) b = mm_prev_in_use (mem st) b" using sf(1,3) by simp_all
  note h1 = work_edit [OF h b mem_only_upd w1 e1]
  have u1: "mm_is_used (mem ?s1) b" "\<not> mm_is_quarantined (mem ?s1) b" using sf(2,4) by simp_all
  have "?k - MM_HDR_SIZE c - (?k - MM_HDR_SIZE c - give) = give" "MM_HDR_SIZE c \<le> ?k" using rm by linarith+
  then have rq: "mm_requested_size c (mem ?s1) b = give" using sf(8) [of c] by (simp add: Let_def del: diff_diff_left diff_diff_cancel)
  have rm1: "MM_HDR_SIZE c + mm_requested_size c (mem ?s1) b + MM_TRAIL c \<le> mm_block_size (mem ?s1) b"
    using rm by (simp only: rq e1)
  have min1: "MM_MIN_BLOCK c \<le> mm_block_size (mem ?s1) b" using sp(6) by (simp only: e1)
  let ?s2 = "mm_write_canary c b ?s1"
  note wc = write_canary_mem [OF min1 rm1 u1] and hf = header_fields_cong [OF wc(2)]
  note h2 = work_edit [OF h1(1) b wc(3,1) hf(2,4)]
  have rd: "ready c ?s2 X xs b ys"
  proof -
    have "mm_is_used (mem ?s2) b" using u1(1) by (simp only: hf)
    moreover have "room c (mem ?s2) b" unfolding room_def hf using rm1 by blast
    ultimately show ?thesis unfolding ready_def using wc(4) by (simp only: if_True simp_thms)
  qed
  have fa: "finish_allocation c b sz st = mm_publish c b ?s2"
    unfolding finish_allocation_def Let_def g s1 ..
  show thesis
  proof (rule work_publish [OF h2(1) b rd ys], assumption)
    fix st'
    assume p: "mm_publish c b ?s2 = (True, st')" "tiles c st' u (X - {b}) (xs @ b # ys)"
      "mem_only ?s2 st'" "still c (set xs \<union> set ys) ?s2 st'" "view c (mem st') b = view c (mem ?s2) b"
      "bins_rep c st' L" "cur st' u (xs @ b # ys)"
      "members L = {q \<in> set (xs @ b # ys). q \<notin> X - {b} \<and> \<not> mm_is_used (mem st') q} - {b}"
    note vf = view_fields [OF p(5)]
    have us: "mm_is_used (mem st') b" using u1(1) by (simp only: vf(2) hf(3))
    have fs: "mm_block_size (mem st') b = ?k" "\<not> mm_is_quarantined (mem st') b"
        "mm_requested_size c (mem st') b = give"
      using e1(1) u1(2) rq by (simp_all only: vf hf not_False_eq_True)
    have hw: "heap_work c st' u (X - {b}) (xs @ b # ys) L"
      using p(2,6,7,8) us by (auto simp: heap_work_def filed_def)
    have "still c (set xs \<union> set ys) st st'" by (rule still_trans [OF still_trans [OF h1(2) h2(2)] p(4)])
    then have kp: "keeps c {b} st (xs @ b # ys) st' (xs @ b # ys)"
      by (intro kept_keeps) (auto intro: kept_mono [OF still_kept])
    have mo: "mem_only st st'" by (rule mem_only_trans [OF mem_only_trans [OF mem_only_upd wc(3)] p(3)])
    show thesis by (rule that [OF p(1) [folded fa] hw kp mo fs(1) us fs(2,3)])
  qed
qed

end
