(* ===== verification/Mars_Client.thy ===== *)
theory Mars_Client
  imports Mars_Alloc Mars_Api
begin

unbundle bit_operations_syntax

text \<open>
  What a program that uses the allocator on its own buffer relies on: \<^verbatim>\<open>mm_malloc\<close>, \<^verbatim>\<open>mm_free\<close> and the
  validated accesses on a consistent heap, in every branch they can take there; that all of them keep
  the heap consistent and leave the blocks of others alone; and that therefore \<^verbatim>\<open>mm_check_heap\<close> finds
  nothing wrong after any sequence of calls that stays inside its own blocks.
\<close>

section \<open>Steps that only count and report\<close>

definition quiet :: "mm_state \<Rightarrow> mm_state \<Rightarrow> bool" where
  "quiet st st' \<longleftrightarrow> mem st' = mem st \<and> calm st st' \<and> bins (g_arena st') = bins (g_arena st) \<and>
     bin_bitmap (g_arena st') = bin_bitmap (g_arena st)"

lemma quiet_refl [simp]: "quiet st st"
  by (simp add: quiet_def)

lemma quiet_trans: "quiet r s \<Longrightarrow> quiet s t \<Longrightarrow> quiet r t"
  by (auto simp: quiet_def intro: calm_trans)

lemma calm_counters:
  assumes "\<And>a. f a = a\<lparr>stats := stats (f a), ops := ops (f a), ops_since_scrub := ops_since_scrub (f a)\<rparr>"
  shows "quiet st (upd_arena f st)"
proof -
  define a where "a = g_arena st"
  have f: "f a = a\<lparr>stats := stats (f a), ops := ops (f a), ops_since_scrub := ops_since_scrub (f a)\<rparr>" by (rule assms)
  have "bins (f a) = bins a" "bin_bitmap (f a) = bin_bitmap a" "spans (f a) = spans a" "secret (f a) = secret a"
    "total_bytes (f a) = total_bytes a" "fresh_spans (f a) = fresh_spans a" "growable (f a) = growable a"
    "lost_bytes (f a) = lost_bytes a" "mode (f a) = mode a" "span_count (f a) = span_count a"
    "span_cache (f a) = span_cache a" "scrub_at (f a) = scrub_at a" "scrub_span (f a) = scrub_span a"
    by (subst f, simp)+
  then show ?thesis
    by (simp add: quiet_def calm_def shell_def same_registry_def Let_def a_def) (simp add: upd_arena_def)
qed

lemma quiet_report [simp]:
  "quiet st (mm_fail e st)" "quiet st (mm_clear_error st)"
  by (simp_all add: quiet_def calm_def shell_def same_registry_def mm_fail_def mm_clear_error_def g_arena_def)

lemma quiet_upd_stats [simp]: "quiet st (upd_stats c f st)"
  by (auto simp: upd_stats_def intro!: calm_counters)

lemma quiet_stat [simp]: "quiet st (MM_STAT_NOTE c e n st)" "quiet st (MM_STAT_ADD c b st)" "quiet st (MM_STAT_SUB c b st)"
  by (simp_all add: MM_STAT_NOTE_def MM_STAT_ADD_def MM_STAT_SUB_def)

lemma quiet_work: "heap_work c st u X bs L \<Longrightarrow> quiet st st' \<Longrightarrow> heap_work c st' u X bs L"
  using quiet_step [of c st u X bs L st'] heap_workD [of c st u X bs L] cur_calm [of st u bs st' bs]
  by (auto simp: quiet_def calm_shell)

lemma quietD: "quiet st st' \<Longrightarrow> mem st' = mem st" "quiet st st' \<Longrightarrow> shell st st'"
  by (simp_all add: quiet_def calm_shell)

section \<open>The patrol on a consistent heap\<close>

lemma scrub_block_closed:
  assumes "closed c st p"
  shows "\<exists>e. scrub_block c p st = (e, st)"
  using assms by (auto simp: scrub_block_def closed_def Let_def)

lemma closed_blocks:
  assumes "heap_work c st u {} bs L" "q \<in> set bs"
  shows "closed c st q" "mm_header_ok c st q"
    "q + mm_block_size (mem st) q = hi (descs st u) \<or> q + mm_block_size (mem st) q \<in> set bs"
    "lo (descs st u) \<le> q" "q < hi (descs st u)" "mm_span_of st q = u"
proof -
  show "closed c st q" "mm_header_ok c st q" using work_closed [OF assms] by simp_all
  obtain xs ys where bs: "bs = xs @ q # ys" using assms(2) by (meson split_list)
  note sp = work_span [OF assms(1) [unfolded bs]]
  show "q + mm_block_size (mem st) q = hi (descs st u) \<or> q + mm_block_size (mem st) q \<in> set bs"
    using sp(9,10) by (cases ys) (auto simp: bs)
  show "lo (descs st u) \<le> q" "q < hi (descs st u)" "mm_span_of st q = u" using sp by simp_all
qed

lemma first_block:
  assumes "heap_work c st u {} bs L" "lo (descs st u) < hi (descs st u)"
  shows "lo (descs st u) \<in> set bs"
proof -
  have "ptiled c st {} (hi (descs st u)) (Some False) (lo (descs st u)) bs"
    using heap_workD(1) [OF assms(1)] by (simp add: tiles_def)
  then show ?thesis using assms(2) by (cases bs) auto
qed

lemma scrub_loop_quiet:
  assumes h: "heap_work c st u {} bs L" and ne: "lo (descs st u) < hi (descs st u)"
    and k: "cur_span k = u" "cur_at k \<in> insert (hi (descs st u)) (set bs)"
  shows "\<exists>k'. scrub_loop c budget guard k st = (k', st) \<and> cur_span k' = u \<and>
    cur_at k' \<in> insert (hi (descs st u)) (set bs)"
  using k
proof (induction guard arbitrary: k)
  case (Suc guard)
  have sp: "spans (g_arena st) = [u]" using heap_workD(4) [OF h] by (simp add: user_heap_def)
  have none: "span_after (spans (g_arena st)) u = None" and sole: "mm_sole_span st = u"
    by (simp_all add: sp mm_sole_span_def)
  let ?p = "if cur_at k \<ge> hi (descs st u) then lo (descs st u) else cur_at k"
  have p: "?p \<in> set bs" using Suc.prems(2) first_block [OF h ne] by auto
  note cl = closed_blocks [OF h p]
  obtain e where e: "scrub_block c ?p st = (e, st)" using scrub_block_closed [OF cl(1)] by blast
  let ?k1 = "if e \<noteq> MM_OK then k\<lparr>found := (if found k = MM_OK then e else found k), hits := hits k + 1\<rparr> else k"
  let ?k2 = "?k1\<lparr>cur_span := u, cur_at := ?p + mm_block_size (mem st) ?p, visited := visited ?k1 + 1\<rparr>"
  have step: "scrub_loop c budget (Suc guard) k st =
      (if \<not> visited k < budget then (k, st) else scrub_loop c budget guard ?k2 st)"
    unfolding scrub_loop.simps Let_def Suc.prems(1) none sole option.case if_cancel
    using cl(2) e by simp
  have "cur_span ?k2 = u" "cur_at ?k2 \<in> insert (hi (descs st u)) (set bs)" using cl(3) by auto
  from Suc.IH [OF this] show ?case unfolding step using Suc.prems by auto
qed simp

lemma set_cursor_shell: "shell st (upd_arena (\<lambda>a. a\<lparr>scrub_span := s, scrub_at := p\<rparr>) st)"
  by (simp add: shell_def same_registry_def Let_def) (simp add: upd_arena_def)

lemma scrub_run_work:
  assumes h: "heap_work c st u {} bs L" and ne: "lo (descs st u) < hi (descs st u)"
  obtains e st' where "scrub_run c budget st = (e, st')" "heap_work c st' u {} bs L" "mem st' = mem st" "shell st st'"
proof (cases "budget = 0")
  case True
  then show thesis using that [of MM_OK st] h by (simp add: scrub_run_def)
next
  case False
  have uh: "user_heap c st u" and cu: "cur st u bs" using heap_workD [OF h] by simp_all
  then have u: "u \<noteq> 0" "mm_sole_span st = u" by (simp_all add: user_heap_def mm_sole_span_def)
  have s: "(if scrub_span (g_arena st) = 0 then mm_sole_span st else scrub_span (g_arena st)) = u"
    using cu u by (auto simp: cur_def Let_def)
  let ?p = "scrub_at (g_arena st)"
  let ?p0 = "if ?p = 0 \<or> ?p < lo (descs st u) \<or> ?p \<ge> hi (descs st u) then lo (descs st u) else ?p"
  have p0: "?p0 \<in> set bs" using cu first_block [OF h ne] by (auto simp: cur_def Let_def)
  let ?k0 = "\<lparr>cur_span = u, cur_at = ?p0, found = MM_OK, visited = 0, hits = 0\<rparr>"
  obtain k where k: "scrub_loop c budget (mm_max_blocks c st + span_count (g_arena st)) ?k0 st = (k, st)"
      "cur_span k = u" "cur_at k \<in> insert (hi (descs st u)) (set bs)"
    using scrub_loop_quiet [OF h ne, of ?k0 budget "mm_max_blocks c st + span_count (g_arena st)"] p0 by auto
  let ?s1 = "upd_arena (\<lambda>a. a\<lparr>scrub_span := cur_span k, scrub_at := cur_at k\<rparr>) st"
  note hd = heap_workD [OF h]
  have "cur ?s1 u bs" using k(2,3) by (auto simp: cur_def Let_def)
  then have h1: "heap_work c ?s1 u {} bs L"
    using quiet_step [OF hd(1,2) _ set_cursor_shell, of "cur_at k" "cur_span k"] by simp
  let ?s2 = "MM_STAT_NOTE c MM_STAT_SCRUB (visited k) ?s1"
  let ?s3 = "if hits k > 0 then MM_STAT_NOTE c MM_STAT_SCRUB_HIT (hits k) ?s2 else ?s2"
  have q3: "quiet ?s1 ?s3" using quiet_trans [OF quiet_stat(1) quiet_stat(1)] by simp
  have run: "scrub_run c budget st = (if found k \<noteq> MM_OK then (found k, mm_fail (found k) ?s3) else (MM_OK, ?s3))"
    unfolding scrub_run_def Let_def s k(1) prod.case using False u(1) by simp
  let ?s4 = "if found k \<noteq> MM_OK then mm_fail (found k) ?s3 else ?s3"
  have q4: "quiet ?s1 ?s4" using quiet_trans [OF q3 quiet_report(1)] q3 by simp
  show thesis
  proof (rule that)
    show "scrub_run c budget st = ((if found k \<noteq> MM_OK then found k else MM_OK), ?s4)" unfolding run by simp
    show "heap_work c ?s4 u {} bs L" by (rule quiet_work [OF h1 q4])
    show "mem ?s4 = mem st" using quietD(1) [OF q4] by simp
    show "shell st ?s4" by (rule shell_trans [OF set_cursor_shell quietD(2) [OF q4]])
  qed
qed

lemma mm_scrub_tick_work:
  assumes h: "heap_work c st u {} bs L" and ne: "lo (descs st u) < hi (descs st u)"
  shows "heap_work c (mm_scrub_tick c st) u {} bs L" "mem (mm_scrub_tick c st) = mem st" "shell st (mm_scrub_tick c st)"
proof -
  let ?s1 = "upd_arena (\<lambda>a. a\<lparr>ops := ops a + 1\<rparr>) st"
  let ?s2 = "upd_arena (\<lambda>a. a\<lparr>ops_since_scrub := ops_since_scrub a + 1\<rparr>) ?s1"
  let ?s3 = "upd_arena (\<lambda>a. a\<lparr>ops_since_scrub := 0\<rparr>) ?s2"
  have q: "quiet st ?s1" "quiet ?s1 ?s2" "quiet ?s2 ?s3" by (simp_all add: calm_counters)
  have q12: "quiet st ?s2" by (rule quiet_trans [OF q(1,2)])
  have q13: "quiet st ?s3" by (rule quiet_trans [OF q12 q(3)])
  have ne3: "lo (descs ?s3 u) < hi (descs ?s3 u)" using ne by simp
  obtain e s4 where s4: "scrub_run c (g_scrub_budget ?s3) ?s3 = (e, s4)" "heap_work c s4 u {} bs L"
      "mem s4 = mem ?s3" "shell ?s3 s4" by (rule scrub_run_work [OF quiet_work [OF h q13] ne3])
  have t: "mm_scrub_tick c st \<in> {?s1, ?s2, s4}"
    unfolding mm_scrub_tick_def Let_def s4(1) by simp
  have "heap_work c s u {} bs L \<and> mem s = mem st \<and> shell st s" if "s \<in> {?s1, ?s2, s4}" for s
  proof -
    have "heap_work c s4 u {} bs L \<and> mem s4 = mem st \<and> shell st s4"
      using s4(2,3) quietD(1) [OF q13] shell_trans [OF quietD(2) [OF q13] s4(4)] by simp
    moreover have "heap_work c s u {} bs L \<and> mem s = mem st \<and> shell st s" if "quiet st s" for s
      using quiet_work [OF h that] quietD [OF that] by blast
    ultimately show ?thesis using that q(1) q12 by blast
  qed
  from this [OF t] show "heap_work c (mm_scrub_tick c st) u {} bs L" "mem (mm_scrub_tick c st) = mem st"
    "shell st (mm_scrub_tick c st)" by simp_all
qed

section \<open>Allocation\<close>

lemma find_block_user:
  assumes h: "heap_work c st u {} bs L" and need: "need < 2 ^ 64"
  obtains b where "find_block c need st = (b, st)"
    "b \<noteq> 0 \<Longrightarrow> b \<in> set bs \<and> \<not> mm_is_used (mem st) b \<and> need \<le> mm_block_size (mem st) b"
    "b = 0 \<Longrightarrow> \<forall>j. mm_bin_of c need < j \<and> j < MM_BIN_COUNT \<longrightarrow> L j = []"
proof -
  note hd = heap_workD [OF h]
  have rep: "bins_rep c st L" and mem: "members L = {q \<in> set bs. \<not> mm_is_used (mem st) q}"
    using hd(2) by (simp_all add: filed_def)
  have gr: "\<not> growable (g_arena st)" using hd(4) by (simp add: user_heap_def)
  let ?b = "find_spec c (mm_block_size (mem st)) L need"
  have "find_block c need st = (?b, st)"
    using mm_bin_find_rep [OF rep need] gr by (simp add: find_block_def grow_for_def)
  moreover have "?b \<in> set bs \<and> \<not> mm_is_used (mem st) ?b \<and> need \<le> mm_block_size (mem st) ?b" if "?b \<noteq> 0"
    using find_spec_fits [OF rep need refl that] members_memb mem by blast
  ultimately show thesis using that [of ?b] find_spec_zero [OF rep need] by blast
qed

text \<open>What an allocation of \<open>sz\<close> bytes gives a block of \<open>n\<close> bytes, by the arena's mode.\<close>

definition given :: "mm_config \<Rightarrow> mm_state \<Rightarrow> nat \<Rightarrow> nat \<Rightarrow> nat" where
  "given c st n sz = (if mode (g_arena st) = MM_MODE_LIBC then n - MM_HDR_SIZE c - MM_TRAIL c else sz)"

lemma given_fits:
  assumes need: "mm_size_for c sz = need" "need \<noteq> 0" "0 < sz" and t: "16 dvd t" "need \<le> t" "t < need + MM_MIN_BLOCK c"
  shows "MM_HDR_SIZE c + given c st t sz + MM_TRAIL c \<le> t" "t < MM_HDR_SIZE c + given c st t sz + 128"
    "sz \<le> given c st t sz"
proof -
  note b = mm_size_for_bounds [of c sz, unfolded need(1), OF need(2)] and lb = layout_bounds [of c]
  obtain q where q: "t = 16 * q" using t(1) by (auto elim: dvdE)
  obtain n where n: "need = 16 * n" using b(1) by (auto elim: dvdE)
  obtain m where m: "MM_MIN_BLOCK c = 16 * m" using lb(7) by (auto elim: dvdE)
  have t2: "t + 16 \<le> need + MM_MIN_BLOCK c" using t(3) unfolding q n m by presburger
  have car: "need - MM_HDR_SIZE c - sz \<le> MM_SLACK_CARVED c" using b(4) need(3) by blast
  have "MM_SLACK_CARVED c + MM_MIN_BLOCK c - 16 < 128" using lb(8) by (simp add: MM_SLACK_MAX_def MM_ALIGNMENT_def)
  then have "t < MM_HDR_SIZE c + sz + 128" using car t2 b(3) lb(6) by linarith
  then show "MM_HDR_SIZE c + given c st t sz + MM_TRAIL c \<le> t" "t < MM_HDR_SIZE c + given c st t sz + 128"
    "sz \<le> given c st t sz"
    using b(2,3) t(2) lb(4,9) by (auto simp: given_def)
qed

text \<open>From the chosen free block to the finished one.\<close>

lemma malloc_carve:
  fixes sz :: nat
  assumes h: "heap_work c st u {} bs L" and b: "b \<in> set bs" "\<not> mm_is_used (mem st) b"
    and need: "mm_size_for c sz = need" "need \<noteq> 0" "0 < sz" "need \<le> mm_block_size (mem st) b"
  defines "fnd \<equiv> mm_block_size (mem st) b"
  defines "st1 \<equiv> mm_bin_remove c b st"
  defines "st2 \<equiv> mm_seal c b (upd_mem (\<lambda>m. mm_set_word m b fnd 0 True False) st1)"
  defines "st3 \<equiv> split_block c b need st2"
  defines "st4 \<equiv> if MM_HAS_CRC c then upd_mem (\<lambda>m. set_payload_crc m b 0) st3 else st3"
  obtains st' bs' L' where "mm_unchanged c st1 b fnd False" "fresh_spans (g_arena st1) = 0"
    "finish_allocation c b sz st4 = (True, st')" "heap_work c st' u {} bs' L'" "keeps c {b} st bs st' bs'"
    "shell st st'" "b \<in> set bs'" "mm_is_used (mem st') b" "\<not> mm_is_quarantined (mem st') b"
    "mm_requested_size c (mem st') b = given c st (mm_block_size (mem st') b) sz"
    "need \<le> mm_block_size (mem st') b" "mm_block_size (mem st') b < need + MM_MIN_BLOCK c"
proof -
  obtain L1 where t: "heap_work c st1 u {b} bs L1" "calm st st1" "kept c (set bs) st st1" "mm_header_ok c st1 b"
      "\<And>q. q \<in> set bs \<Longrightarrow> same_on q (MM_HDR_SIZE c) (mem st) (mem st1)"
    unfolding st1_def by (rule work_take [OF h b(1) _ b(2)]) auto
  note hf = header_fields_cong [OF t(5) [OF b(1)]]
  have un: "mm_unchanged c st1 b fnd False" using t(4) hf b(2) by (simp add: mm_unchanged_def fnd_def)
  have fs: "fresh_spans (g_arena st1) = 0" using heap_workD(4) [OF t(1)] by (simp add: user_heap_def)
  obtain xs ys where bs: "bs = xs @ b # ys" using b(1) by (meson split_list)
  note h1 = t(1) [unfolded bs]
  note sp = work_span [OF h1] and lb = layout_bounds [of c]
  have f1: "mm_block_size (mem st1) b = fnd" using hf by (simp add: fnd_def)
  have f58: "fnd < 2 ^ 58" "16 dvd fnd" unfolding fnd_def by (rule size16)+
  have z: "(0::nat) < 128" by simp
  let ?w = "upd_mem (\<lambda>m. mm_set_word m b fnd 0 True False) st1"
  note sf = set_word_fields_mem [OF f58 z, where m = "mem st1" and b = b and used = True and quar = False]
  have w1: "within b (b + mm_block_size (mem st1) b) (mem st1) (mem ?w)"
    using within_mono [OF sf(7)] sp(6) lb(6) by simp
  have e1: "mm_block_size (mem ?w) b = mm_block_size (mem st1) b" "mm_prev_in_use (mem ?w) b = mm_prev_in_use (mem st1) b"
    "mm_is_used (mem ?w) b" using sf(1,2,3) f1 by simp_all
  note hw = work_edit [OF h1 insertI1 mem_only_upd w1 e1(1,2)]
  note h2 = work_seal [OF hw(1) insertI1, folded st2_def]
  have minw: "MM_MIN_BLOCK c \<le> mm_block_size (mem ?w) b" using sp(6) by (simp only: e1)
  note ms = mm_seal_fields [OF minw, folded st2_def]
  have d1: "distinct (xs @ b # ys)" by (rule heap_workD(5) [OF h1])
  have k2: "keeps c {b} st bs st2 (xs @ b # ys)"
  proof (rule kept_keeps)
    have "kept c (set xs \<union> set ys) st st1" by (rule kept_mono [OF t(3)]) (auto simp: bs)
    moreover have "kept c (set xs \<union> set ys) st1 st2" by (rule still_kept [OF still_trans [OF hw(2) h2(2)]])
    ultimately have "kept c (set xs \<union> set ys) st st2" by (rule kept_trans)
    then show "kept c (set (xs @ b # ys) - {b}) st st2" by (rule kept_mono) auto
  qed (auto simp: bs)
  have need': "16 dvd need" "MM_MIN_BLOCK c \<le> need" using mm_size_for_bounds [of c sz] need(1,2) by simp_all
  have le: "need \<le> mm_block_size (mem st2) b" using ms(1) e1(1) f1 need(4) by (simp add: fnd_def)
  have us2: "mm_is_used (mem st2) b" using ms(2) e1(3) by simp
  have yb: "set ys \<inter> {b} = {}" and sub: "{b} \<subseteq> set (xs @ b # ys)" using d1 by auto
  show thesis
  proof (rule split_block_work [OF h2(1) insertI1 yb sub need' le us2, folded st3_def])
    fix ys' L3
    assume s: "heap_work c st3 u {b} (xs @ b # ys') L3" "keeps c {b} st2 (xs @ b # ys) st3 (xs @ b # ys')"
      "shell st2 st3" "need \<le> mm_block_size (mem st3) b" "mm_block_size (mem st3) b < need + MM_MIN_BLOCK c"
      "mm_is_used (mem st3) b" "set ys' \<inter> {b} = {}"
    note s3 = work_span [OF s(1)]
    have c4: "heap_work c st4 u {b} (xs @ b # ys') L3 \<and> still c (set xs \<union> set ys') st3 st4 \<and> mem_only st3 st4 \<and>
        mm_block_size (mem st4) b = mm_block_size (mem st3) b"
    proof (cases "MM_HAS_CRC c")
      case True
      note pf = set_payload_crc_fields [OF True, where m = "mem st3" and b = b and v = 0]
      have st4: "st4 = upd_mem (\<lambda>m. set_payload_crc m b 0) st3" using True by (simp add: st4_def)
      have w4: "within b (b + mm_block_size (mem st3) b) (mem st3) (mem st4)"
        unfolding st4 using within_mono [OF pf(7)] s3(6) lb(6) by simp
      have e4: "mm_block_size (mem st4) b = mm_block_size (mem st3) b" "mm_prev_in_use (mem st4) b = mm_prev_in_use (mem st3) b"
        unfolding st4 using pf(1,3) by simp_all
      have mo: "mem_only st3 st4" unfolding st4 by simp
      show ?thesis using work_edit [OF s(1) insertI1 mo w4 e4] mo e4 by blast
    qed (simp add: s(1) st4_def)
    have md: "mode (g_arena st4) = mode (g_arena st)"
      using c4 shellD(4) [OF s(3)] shellD(4) [OF calm_shell [OF t(2)]] mem_onlyD(1) [of st3 st4] by (simp add: st2_def)
    let ?t = "mm_block_size (mem st4) b"
    have gv: "given c st ?t sz = (if mode (g_arena st4) = MM_MODE_LIBC then ?t - MM_HDR_SIZE c - MM_TRAIL c else sz)"
      by (simp add: given_def md)
    have lim: "need \<le> ?t" "?t < need + MM_MIN_BLOCK c" using s(4,5) c4 by simp_all
    note gf = given_fits [OF need(1-3) size16(1) lim, of st, unfolded gv]
    have ny: "ys' \<noteq> [] \<Longrightarrow> hd ys' \<notin> {b}" using s(7) by (cases ys') auto
    show thesis
    proof (rule finish_allocation_work [OF conjunct1 [OF c4] insertI1 ny gf(1,2)], assumption)
      fix st'
      assume f: "finish_allocation c b sz st4 = (True, st')" "heap_work c st' u ({b} - {b}) (xs @ b # ys') L3"
        "keeps c {b} st4 (xs @ b # ys') st' (xs @ b # ys')" "mem_only st4 st'" "mm_block_size (mem st') b = ?t"
        "mm_is_used (mem st') b" "\<not> mm_is_quarantined (mem st') b"
        "mm_requested_size c (mem st') b = (if mode (g_arena st4) = MM_MODE_LIBC then ?t - MM_HDR_SIZE c - MM_TRAIL c else sz)"
      have "keeps c {b} st3 (xs @ b # ys') st4 (xs @ b # ys')"
        by (rule kept_keeps) (use c4 in \<open>auto intro: kept_mono [OF still_kept]\<close>)
      then have kp: "keeps c {b} st bs st' (xs @ b # ys')"
        using keeps_trans [OF keeps_trans [OF k2 s(2)] keeps_trans [OF _ f(3)]] by blast
      have "shell st1 st2" unfolding st2_def by (rule shell_trans [OF shell_upd(1) shell_seal])
      then have sh: "shell st st'"
        using shell_trans calm_shell [OF t(2)] s(3) mem_onlyD(4) c4 mem_onlyD(4) [OF f(4)] by blast
      have hw': "heap_work c st' u {} (xs @ b # ys') L3" using f(2) by simp
      have rq: "mm_requested_size c (mem st') b = given c st (mm_block_size (mem st') b) sz"
        unfolding f(5) f(8) gv ..
      show thesis
        by (rule that [OF un fs f(1) hw' kp sh _ f(6,7) rq]) (use lim f(5) in simp_all)
    qed
  qed
qed

section \<open>The invariant between calls\<close>

definition heap_inv :: "mm_config \<Rightarrow> mm_state \<Rightarrow> nat \<Rightarrow> nat list \<Rightarrow> bool" where
  "heap_inv c st u bs \<longleftrightarrow> (\<exists>L. heap_work c st u {} bs L) \<and> lo (descs st u) < hi (descs st u) \<and>
     quarantined_total st bs = lost_bytes (g_arena st)"

lemma quarantined_total_set:
  "distinct bs \<Longrightarrow> quarantined_total st bs =
     (\<Sum>q \<in> {q \<in> set bs. mm_is_used (mem st) q \<and> mm_is_quarantined (mem st) q}. mm_block_size (mem st) q)"
  unfolding quarantined_total_def by (subst sum_list_distinct_conv_sum_set) (simp_all add: set_filter)

lemma quarantined_keeps:
  assumes k: "keeps c {b} st bs st' bs'" and d: "distinct bs" "distinct bs'"
    and b: "b \<in> set bs \<Longrightarrow> mm_is_used (mem st) b \<Longrightarrow> \<not> mm_is_quarantined (mem st) b"
      "b \<in> set bs' \<Longrightarrow> mm_is_used (mem st') b \<Longrightarrow> \<not> mm_is_quarantined (mem st') b"
  shows "quarantined_total st' bs' = quarantined_total st bs"
proof -
  have v: "view c (mem st') q = view c (mem st) q" if "q \<in> set bs" "mm_is_used (mem st) q" "q \<noteq> b" for q
    using k that unfolding keeps_def by blast
  have iff: "q \<in> set bs' \<and> mm_is_used (mem st') q \<longleftrightarrow> q \<in> set bs \<and> mm_is_used (mem st) q" if "q \<noteq> b" for q
    using k that unfolding keeps_def by blast
  have eq: "q \<in> set bs' \<and> mm_is_used (mem st') q \<and> mm_is_quarantined (mem st') q \<longleftrightarrow>
      q \<in> set bs \<and> mm_is_used (mem st) q \<and> mm_is_quarantined (mem st) q" for q
    by (cases "q = b") (use iff view_fields(3) [OF v] b in blast)+
  show ?thesis
    unfolding quarantined_total_set [OF d(1)] quarantined_total_set [OF d(2)]
  proof (rule sum.cong)
    fix q assume "q \<in> {q \<in> set bs. mm_is_used (mem st) q \<and> mm_is_quarantined (mem st) q}"
    then have "q \<in> set bs" "mm_is_used (mem st) q" "q \<noteq> b" using b by auto
    from view_fields(1) [OF v [OF this]] show "mm_block_size (mem st') q = mm_block_size (mem st) q" .
  qed (use eq in blast)
qed

lemma heap_inv_step:
  assumes h: "heap_inv c st u bs" and w: "heap_work c st' u {} bs' L'" and sh: "shell st st'"
    and k: "keeps c {b} st bs st' bs'"
    and b: "b \<in> set bs \<Longrightarrow> mm_is_used (mem st) b \<Longrightarrow> \<not> mm_is_quarantined (mem st) b"
      "b \<in> set bs' \<Longrightarrow> mm_is_used (mem st') b \<Longrightarrow> \<not> mm_is_quarantined (mem st') b"
  shows "heap_inv c st' u bs'"
proof -
  obtain L where L: "heap_work c st u {} bs L" using h by (auto simp: heap_inv_def)
  have "quarantined_total st' bs' = quarantined_total st bs"
    by (rule quarantined_keeps [OF k heap_workD(5) [OF L] heap_workD(5) [OF w] b])
  then show ?thesis using h w shellD(2,5) [OF sh] unfolding heap_inv_def by auto
qed

lemma heap_inv_same:
  assumes h: "heap_inv c st u bs" and w: "heap_work c st' u {} bs L'" and sh: "shell st st'" and m: "mem st' = mem st"
  shows "heap_inv c st' u bs"
  using h w shellD(2,5) [OF sh] unfolding heap_inv_def quarantined_total_def m by auto

lemma heap_inv_quiet: "heap_inv c st u bs \<Longrightarrow> quiet st st' \<Longrightarrow> heap_inv c st' u bs"
  using heap_inv_same [OF _ quiet_work quietD(2) quietD(1)] unfolding heap_inv_def by blast

lemma heap_inv_tick:
  assumes "heap_inv c st u bs"
  shows "heap_inv c (mm_scrub_tick c st) u bs" "mem (mm_scrub_tick c st) = mem st" "shell st (mm_scrub_tick c st)"
proof -
  obtain L where L: "heap_work c st u {} bs L" "lo (descs st u) < hi (descs st u)"
    using assms by (auto simp: heap_inv_def)
  note t = mm_scrub_tick_work [OF L]
  show "heap_inv c (mm_scrub_tick c st) u bs" by (rule heap_inv_same [OF assms t(1,3,2)])
  show "mem (mm_scrub_tick c st) = mem st" "shell st (mm_scrub_tick c st)" by (rule t(2,3))+
qed

lemma payload_aligned:
  assumes "heap_work c st u X bs L" "b \<in> set bs"
  shows "mm_payload_of c b mod 16 = 0"
proof -
  obtain xs ys where bs: "bs = xs @ b # ys" using assms(2) by (meson split_list)
  note sp = work_span [OF assms(1) [unfolded bs]]
  have uh: "user_heap c st u" by (rule heap_workD(4) [OF assms(1)])
  have "16 dvd b - lo (descs st u)" using user_block_iff [OF uh sp(3,5)] sp(7) by blast
  moreover have "16 dvd lo (descs st u) + MM_HDR_SIZE c" using uh by (auto simp: user_heap_def)
  ultimately have "16 dvd (b - lo (descs st u)) + (lo (descs st u) + MM_HDR_SIZE c)" by (rule dvd_add)
  then show ?thesis using sp(3) by (simp add: mm_payload_of_def mod_eq_0_iff_dvd)
qed

section \<open>Allocation on a consistent heap\<close>

lemma malloc_unlocked_work:
  assumes inv: "heap_inv c st u bs" and run: "malloc_unlocked c sz st = (p, d, st')"
  shows "\<exists>bs'. heap_inv c st' u bs' \<and> shell st st' \<and>
    (if p = 0 then mem st' = mem st \<and> bs' = bs \<and>
       (sz = 0 \<or> mm_size_for c sz = 0 \<or>
        (\<forall>q \<in> set bs. \<not> mm_is_used (mem st) q \<longrightarrow>
           mm_bin_of c (mm_block_size (mem st) q) \<le> mm_bin_of c (mm_size_for c sz)))
     else let b = p - MM_HDR_SIZE c in
       p = mm_payload_of c b \<and> p mod 16 = 0 \<and> b \<in> set bs \<and> \<not> mm_is_used (mem st) b \<and>
       b \<in> set bs' \<and> mm_is_used (mem st') b \<and> \<not> mm_is_quarantined (mem st') b \<and>
       mm_requested_size c (mem st') b = given c st (mm_block_size (mem st') b) sz \<and>
       sz \<le> mm_requested_size c (mem st') b \<and>
       MM_HDR_SIZE c + mm_requested_size c (mem st') b + MM_TRAIL c \<le> mm_block_size (mem st') b \<and>
       keeps c {b} st bs st' bs')"
proof -
  define s where "s = mm_clear_error st"
  have qs: "quiet st s" by (simp add: s_def)
  have ms: "mem s = mem st" by (rule quietD(1) [OF qs])
  have inv0: "heap_inv c s u bs" by (rule heap_inv_quiet [OF inv qs])
  obtain L where h: "heap_work c s u {} bs L" using inv0 by (auto simp: heap_inv_def)
  note hd = heap_workD [OF h]
  have live: "mm_arena_live s" using hd(4) by (simp add: user_heap_def mm_arena_live_def)
  let ?need = "mm_size_for c sz"
  show ?thesis
  proof (cases "sz = 0 \<or> ?need = 0")
    case True
    then have "malloc_unlocked c sz st = (0, SIZE_MAX, mm_fail MM_ERR_NOMEM s)"
      unfolding malloc_unlocked_def Let_def s_def [symmetric] using live by (elim disjE) simp_all
    then have "(p, d, st') = (0, SIZE_MAX, mm_fail MM_ERR_NOMEM s)" using run by simp
    moreover have "quiet st (mm_fail MM_ERR_NOMEM s)" by (rule quiet_trans [OF qs quiet_report(1)])
    ultimately have q: "quiet st st'" and z: "p = 0" by simp_all
    show ?thesis unfolding if_P [OF z]
      by (rule exI [of _ bs]) (use True heap_inv_quiet [OF inv q] quietD [OF q] in blast)
  next
    case False
    then have sz: "0 < sz" "?need \<noteq> 0" by simp_all
    have n64: "?need < 2 ^ 64" by (rule mm_size_for_bounds(5) [OF sz(2)])
    obtain b where fb: "find_block c ?need s = (b, s)"
        "b \<noteq> 0 \<Longrightarrow> b \<in> set bs \<and> \<not> mm_is_used (mem s) b \<and> ?need \<le> mm_block_size (mem s) b"
        "b = 0 \<Longrightarrow> \<forall>j. mm_bin_of c ?need < j \<and> j < MM_BIN_COUNT \<longrightarrow> L j = []"
      using find_block_user [OF h n64] by blast
    show ?thesis
    proof (cases "b = 0")
      case True
      let ?f = "mm_fail MM_ERR_NOMEM (MM_STAT_NOTE c MM_STAT_ALLOC_FAILED 0 s)"
      have r: "p = 0" "st' = mm_scrub_tick c ?f"
      proof -
        have "malloc_unlocked c sz st = (0, SIZE_MAX, mm_scrub_tick c ?f)"
          unfolding malloc_unlocked_def Let_def s_def [symmetric] fb(1) prod.case using live sz True by simp
        then show "p = 0" "st' = mm_scrub_tick c ?f" using run by simp_all
      qed
      have q: "quiet st ?f" by (rule quiet_trans [OF qs quiet_trans [OF quiet_stat(1) quiet_report(1)]])
      note t = heap_inv_tick [OF heap_inv_quiet [OF inv q]]
      have rep: "bins_rep c s L" and mem: "members L = {q \<in> set bs. \<not> mm_is_used (mem s) q}"
        using hd(2) by (simp_all add: filed_def)
      have "mm_bin_of c (mm_block_size (mem st) q) \<le> mm_bin_of c ?need" if "q \<in> set bs" "\<not> mm_is_used (mem st) q" for q
      proof -
        have "q \<in> members L" using that mem ms by simp
        then obtain j where j: "j < MM_BIN_COUNT" "q \<in> set (L j)" by (auto simp: members_def)
        then have "node_ok c s q j" using rep by (simp add: bins_rep_def bin_rep_def)
        then have "mm_bin_of c (mm_block_size (mem st) q) = j" using node_ok_size ms by metis
        then show ?thesis using fb(3) [OF True] j by (metis empty_iff list.set(1) not_le)
      qed
      moreover have "mem st' = mem st" "shell st st'" "heap_inv c st' u bs"
        using t r(2) quietD(1) [OF q] shell_trans [OF quietD(2) [OF q] t(3)] by simp_all
      ultimately show ?thesis unfolding if_P [OF r(1)] by (intro exI [of _ bs]) blast
    next
      case nz: False
      note fb2 = fb(2) [OF nz]
      show ?thesis
      proof (rule malloc_carve [OF h _ _ refl sz(2,1)], (use fb2 in blast)+)
        let ?st1 = "mm_bin_remove c b s" and ?fnd = "mm_block_size (mem s) b"
        let ?st2 = "mm_seal c b (upd_mem (\<lambda>m. mm_set_word m b ?fnd 0 True False) ?st1)"
        let ?st3 = "split_block c b ?need ?st2"
        let ?st4 = "if MM_HAS_CRC c then upd_mem (\<lambda>m. set_payload_crc m b 0) ?st3 else ?st3"
        fix s5 bs' L'
        assume a: "mm_unchanged c ?st1 b ?fnd False" "fresh_spans (g_arena ?st1) = 0"
          "finish_allocation c b sz ?st4 = (True, s5)" "heap_work c s5 u {} bs' L'" "keeps c {b} s bs s5 bs'"
          "shell s s5" "b \<in> set bs'" "mm_is_used (mem s5) b" "\<not> mm_is_quarantined (mem s5) b"
          "mm_requested_size c (mem s5) b = given c s (mm_block_size (mem s5) b) sz"
          "?need \<le> mm_block_size (mem s5) b" "mm_block_size (mem s5) b < ?need + MM_MIN_BLOCK c"
        let ?s6 = "MM_STAT_ADD c b (MM_STAT_NOTE c MM_STAT_ALLOC sz s5)"
        have "malloc_unlocked c sz st = (mm_payload_of c b, SIZE_MAX, mm_scrub_tick c ?s6)"
          unfolding malloc_unlocked_def Let_def s_def [symmetric] fb(1) prod.case
          using live sz nz a(1,2,3) by simp
        then have r: "p = mm_payload_of c b" "st' = mm_scrub_tick c ?s6" using run by simp_all
        have q6: "quiet s5 ?s6" by (rule quiet_trans [OF quiet_stat(1,2)])
        have "heap_inv c s5 u bs'" by (rule heap_inv_step [OF inv0 a(4,6,5)]) (use fb2 a(9) in blast)+
        from heap_inv_tick [OF heap_inv_quiet [OF this q6]]
        have t: "heap_inv c st' u bs'" "mem st' = mem s5" "shell s5 st'"
          using r(2) quietD [OF q6] shell_trans by simp_all
        have bp: "p - MM_HDR_SIZE c = b" "p \<noteq> 0" using r(1) nz by (simp_all add: mm_payload_of_def)
        have md: "given c s = given c st" using shellD(4) [OF quietD(2) [OF qs]] by (simp add: given_def fun_eq_iff)
        note gf = given_fits [OF refl sz(2,1) size16(1) a(11,12), of s]
        have kp: "keeps c {b} st bs st' bs'" using a(5) t(2) ms by (simp add: keeps_def)
        have sh: "shell st st'" by (rule shell_trans [OF quietD(2) [OF qs] shell_trans [OF a(6) t(3)]])
        have al: "p mod 16 = 0" unfolding r(1) by (rule payload_aligned [OF a(4,7)])
        have rq: "mm_requested_size c (mem st') b = given c st (mm_block_size (mem st') b) sz"
          "sz \<le> mm_requested_size c (mem st') b"
          "MM_HDR_SIZE c + mm_requested_size c (mem st') b + MM_TRAIL c \<le> mm_block_size (mem st') b"
          using a(10) gf by (simp_all add: t(2) md)
        have bk: "b \<in> set bs" "\<not> mm_is_used (mem st) b" "mm_is_used (mem st') b" "\<not> mm_is_quarantined (mem st') b"
          using fb2 a(8,9) ms t(2) by simp_all
        show ?thesis unfolding if_not_P [OF bp(2)] Let_def bp(1)
          by (rule exI [of _ bs']) (use t(1) sh r(1) al bk a(7) rq kp in blast)
      qed
    qed
  qed
qed

section \<open>Release\<close>

lemma work_open_used:
  assumes h: "heap_work c st u X bs L" and b: "mm_is_used (mem st) b"
  shows "heap_work c st u (insert b X) bs L"
proof -
  note hd = heap_workD [OF h]
  have "tiles c st u (insert b X) bs" using hd(1) ptiled_open unfolding tiles_def by blast
  moreover have "{q \<in> set bs. q \<notin> X \<and> \<not> mm_is_used (mem st) q} = {q \<in> set bs. q \<notin> insert b X \<and> \<not> mm_is_used (mem st) q}"
    using b by auto
  then have "filed c st (insert b X) bs L" using hd(2) by (simp add: filed_def)
  ultimately show ?thesis using hd(3) by (simp add: heap_work_def)
qed

text \<open>A payload pointer leads back to its block.\<close>

lemma mm_block_of_work:
  assumes "heap_work c st u X bs L" "b \<in> set bs"
  shows "mm_block_of c (mm_payload_of c b) st = (b, st)"
proof -
  obtain xs ys where bs: "bs = xs @ b # ys" using assms(2) by (meson split_list)
  note sp = work_span [OF assms(1) [unfolded bs]] and lb = layout_bounds [of c]
  have uh: "user_heap c st u" by (rule heap_workD(4) [OF assms(1)])
  have live: "mm_arena_live st" using uh by (simp add: user_heap_def mm_arena_live_def)
  have d: "16 dvd b - lo (descs st u)" using user_block_iff [OF uh sp(3,5)] sp(7) by blast
  have "mm_payload_of c b < hi (descs st u)" using sp(4,6) lb(3) by (simp add: mm_payload_of_def)
  then have s: "mm_span_of st (mm_payload_of c b) = u" using uh sp(3) by (simp add: user_heap_def mm_payload_of_def)
  have "mm_payload_of c b - (lo (descs st u) + MM_HDR_SIZE c) = b - lo (descs st u)" by (simp add: mm_payload_of_def)
  then have "(mm_payload_of c b - (lo (descs st u) + MM_HDR_SIZE c)) mod MM_ALIGNMENT = 0"
    using d by (simp add: MM_ALIGNMENT_def mod_eq_0_iff_dvd)
  moreover have "mm_payload_of c b \<noteq> 0" "\<not> mm_payload_of c b < lo (descs st u) + MM_HDR_SIZE c"
    "mm_payload_of c b - MM_HDR_SIZE c = b" using sp(3) lb(1) by (simp_all add: mm_payload_of_def)
  ultimately show ?thesis unfolding mm_block_of_def Let_def using live sp(2,7) by (simp add: s)
qed

lemma live_block_work:
  assumes "heap_work c st u {} bs L" "b \<in> set bs" "\<not> mm_is_quarantined (mem st) b"
  shows "live_block c (mm_payload_of c b) st = (b, st)"
proof -
  have "b \<noteq> 0" using closed_blocks(2) [OF assms(1,2)] by (simp add: mm_header_ok_def)
  then show ?thesis
    using mm_block_of_work [OF assms(1,2)] closed_blocks(2) [OF assms(1,2)] assms(3)
    by (simp add: live_block_def)
qed

lemma reclaim_user:
  assumes "user_heap c st u" "lo (descs st u) \<le> r" "r < hi (descs st u)"
  shows "reclaim c r st = st"
proof -
  have "mm_span_of st r = u" "kind (descs st u) = MM_SPAN_USER" using assms by (auto simp: user_heap_def)
  then show ?thesis by (simp add: reclaim_def)
qed

lemma free_unlocked_work:
  assumes inv: "heap_inv c st u bs" and b: "b \<in> set bs" "mm_is_used (mem st) b" "\<not> mm_is_quarantined (mem st) b"
  shows "\<exists>bs'. heap_inv c (free_unlocked c (mm_payload_of c b) st) u bs' \<and>
    shell st (free_unlocked c (mm_payload_of c b) st) \<and>
    keeps c {b} st bs (free_unlocked c (mm_payload_of c b) st) bs' \<and>
    \<not> (b \<in> set bs' \<and> mm_is_used (mem (free_unlocked c (mm_payload_of c b) st)) b)"
proof -
  define s where "s = mm_clear_error st"
  have qs: "quiet st s" by (simp add: s_def)
  have ms: "mem s = mem st" by (rule quietD(1) [OF qs])
  have inv0: "heap_inv c s u bs" by (rule heap_inv_quiet [OF inv qs])
  obtain L where h: "heap_work c s u {} bs L" using inv0 by (auto simp: heap_inv_def)
  have bq: "\<not> mm_is_quarantined (mem s) b" "mm_is_used (mem s) b" using b ms by simp_all
  have lb: "live_block c (mm_payload_of c b) s = (b, s)" by (rule live_block_work [OF h b(1) bq(1)])
  note cl = closed_blocks [OF h b(1)]
  have bnz: "b \<noteq> 0" using cl(2) by (simp add: mm_header_ok_def)
  have can: "mm_canary_ok c s b" using cl(1) by (simp add: closed_def)
  let ?s1 = "MM_STAT_SUB c b (MM_STAT_NOTE c MM_STAT_FREE (mm_requested_size c (mem s) b) s)"
  have q1: "quiet s ?s1" by (rule quiet_trans [OF quiet_stat(1,3)])
  have m1: "mem ?s1 = mem s" by (rule quietD(1) [OF q1])
  have h1: "heap_work c ?s1 u {b} bs L"
    using work_open_used [OF quiet_work [OF h q1], of b] bq(2) m1 by simp
  obtain xs ys where bs: "bs = xs @ b # ys" using b(1) by (meson split_list)
  note h1' = h1 [unfolded bs] and sp = work_span [OF h1 [unfolded bs]]
  let ?z = "\<lambda>m. mem_fill m (mm_payload_of c b) (mm_block_size m b - MM_HDR_SIZE c) 0"
  let ?s2 = "if cfg_zero_on_free c then upd_mem ?z ?s1 else ?s1"
  have 2: "heap_work c ?s2 u {b} (xs @ b # ys) L \<and> still c (set xs \<union> set ys) ?s1 ?s2 \<and> mem_only ?s1 ?s2 \<and>
      same_on b (MM_HDR_SIZE c) (mem ?s1) (mem ?s2)"
  proof (cases "cfg_zero_on_free c")
    case True
    let ?t = "upd_mem ?z ?s1"
    have w: "within (b + MM_HDR_SIZE c) (b + mm_block_size (mem ?s1) b) (mem ?s1) (mem ?t)"
      using sp(6) layout_bounds(3) [of c] by (simp add: mm_payload_of_def within_fill)
    have sm: "same_on b (MM_HDR_SIZE c) (mem ?s1) (mem ?t)" by (rule within_same_on [OF w]) simp
    have w': "within b (b + mm_block_size (mem ?s1) b) (mem ?s1) (mem ?t)" by (rule within_mono [OF w]) simp_all
    note hf = header_fields_cong [OF sm]
    show ?thesis using work_edit [OF h1' insertI1 mem_only_upd w' hf(2,4)] sm True by simp
  qed (simp add: h1')
  note hf = header_fields_cong [OF conjunct2 [OF conjunct2 [OF conjunct2 [OF 2]]]]
  have sh2: "shell s ?s2" using shell_trans [OF quietD(2) [OF q1]] mem_onlyD(4) 2 by blast
  have ok2: "mm_header_ok c ?s2 b"
  proof -
    have "same_on b (MM_HDR_SIZE c) (mem s) (mem ?s2)" using 2 m1 by simp
    then show ?thesis using mm_header_ok_cong [of s ?s2 b c] shellD(1,3) [OF sh2] cl(2) by simp
  qed
  have us2: "mm_is_used (mem ?s2) b" using hf(3) bq(2) m1 by simp
  have d: "distinct (xs @ b # ys)" by (rule heap_workD(5) [OF h1'])
  have dx: "set xs \<inter> {b} = {} \<or> mm_prev_in_use (mem ?s2) b" "set ys \<inter> {b} = {}" using d by auto
  show ?thesis
  proof (rule dispose_work [OF conjunct1 [OF 2] insertI1 dx ok2 us2])
    fix r s3 bs' L'
    let ?s4 = "release_block c r s3"
    assume q: "absorb_neighbours c b ?s2 = (r, s3)" "r \<noteq> 0" "shell ?s2 s3"
      "heap_work c ?s4 u ({b} - {b}) bs' L'" "shell ?s2 ?s4"
      "keeps c {b} ?s2 (xs @ b # ys) ?s4 bs'" "\<not> (b \<in> set bs' \<and> mm_is_used (mem ?s4) b)"
      "lo (descs ?s2 u) \<le> r" "r < hi (descs ?s2 u)"
    have h4: "heap_work c ?s4 u {} bs' L'" using q(4) by simp
    have rc: "reclaim c r ?s4 = ?s4"
      by (rule reclaim_user [OF heap_workD(4) [OF h4]]) (use q(8,9) shellD(2) [OF q(5)] in simp_all)
    have fr: "free_unlocked c (mm_payload_of c b) st = mm_scrub_tick c ?s4"
      unfolding free_unlocked_def s_def [symmetric] lb prod.case Let_def
      using bnz bq(2) can q(1,2) rc by simp
    have "keeps c {b} s bs ?s2 (xs @ b # ys)"
      by (rule kept_keeps) (use 2 m1 in \<open>auto simp: bs still_def intro: kept_mono [OF still_kept]\<close>)
    then have k4: "keeps c {b} s bs ?s4 bs'" by (rule keeps_trans [OF _ q(6)])
    have sh4: "shell s ?s4" by (rule shell_trans [OF sh2 q(5)])
    have "heap_inv c ?s4 u bs'" by (rule heap_inv_step [OF inv0 h4 sh4 k4]) (use bq q(7) in blast)+
    note t = heap_inv_tick [OF this]
    have "keeps c {b} st bs (mm_scrub_tick c ?s4) bs'" using k4 t(2) ms by (simp add: keeps_def)
    moreover have "shell st (mm_scrub_tick c ?s4)"
      by (rule shell_trans [OF quietD(2) [OF qs] shell_trans [OF sh4 t(3)]])
    ultimately show ?thesis unfolding fr using t(1,2) q(7) by auto
  qed
qed

section \<open>The invariant is what the check decides\<close>

lemma filed_bin:
  assumes f: "filed c st {} bs L" and i: "i < MM_BIN_COUNT" and d: "distinct bs"
  shows "length (L i) = length (free_of_bin c st i bs)"
proof -
  have rep: "bin_rep c st j (L j)" if "j < MM_BIN_COUNT" for j using f that by (simp add: filed_def bins_rep_def)
  have mem: "members L = {q \<in> set bs. \<not> mm_is_used (mem st) q}" using f by (simp add: filed_def)
  have node: "mm_bin_of c (mm_block_size (mem st) q) = j" if "q \<in> set (L j)" "j < MM_BIN_COUNT" for q j
    using rep [OF that(2)] that(1) node_ok_size by (metis bin_rep_def)
  have "set (L i) = set (free_of_bin c st i bs)"
  proof (intro equalityI subsetI)
    fix q assume "q \<in> set (L i)"
    then show "q \<in> set (free_of_bin c st i bs)"
      using members_memb [of q L i] mem node i by (auto simp: free_of_bin_def)
  next
    fix q assume q: "q \<in> set (free_of_bin c st i bs)"
    then have "q \<in> members L" using mem by (simp add: free_of_bin_def)
    then obtain j where j: "j < MM_BIN_COUNT" "q \<in> set (L j)" by (auto simp: members_def)
    then show "q \<in> set (L i)" using node q by (auto simp: free_of_bin_def)
  qed
  moreover have "distinct (L i)" using rep [OF i] by (simp add: bin_rep_def)
  moreover have "distinct (free_of_bin c st i bs)" using d by (simp add: free_of_bin_def)
  ultimately show ?thesis by (metis distinct_card)
qed

lemma heap_inv_ok:
  assumes "heap_inv c st u bs"
  shows "\<exists>L. heap_ok c st (\<lambda>_. bs) L"
proof -
  obtain L where h: "heap_work c st u {} bs L" and q: "quarantined_total st bs = lost_bytes (g_arena st)"
    using assms by (auto simp: heap_inv_def)
  note hd = heap_workD [OF h]
  have sp: "spans (g_arena st) = [u]" and tot: "total_bytes (g_arena st) = hi (descs st u) - lo (descs st u)"
    using hd(4) by (simp_all add: user_heap_def)
  have t: "tiled c st (hi (descs st u)) False (lo (descs st u)) bs"
    using hd(1) ptiled_tiled by (simp add: tiles_def)
  have lenb: "length bs \<le> mm_max_blocks c st"
    using tiled_budget [OF t] tot tiled_bounds [OF t] by (simp add: mm_max_blocks_def mm_span_max_blocks_def)
  have "length (L i) \<le> mm_max_blocks c st" if "i < MM_BIN_COUNT" for i
    using filed_bin [OF hd(2) that hd(5)] lenb length_filter_le unfolding free_of_bin_def by (metis le_trans)
  then have "heap_ok c st (\<lambda>_. bs) L"
    using t q sp hd(2) filed_bin [OF hd(2) _ hd(5)] by (simp add: heap_ok_def filed_def bins_rep_def)
  then show ?thesis by blast
qed

lemma heap_inv_check: "heap_inv c st u bs \<Longrightarrow> fst (check_heap_unlocked c st) = MM_OK"
proof -
  assume h: "heap_inv c st u bs"
  then have "\<forall>s \<in> set (spans (g_arena st)). lo (descs st s) \<le> hi (descs st s)"
    by (auto simp: heap_inv_def heap_work_def tiles_def user_heap_def)
  then show ?thesis using check_heap_iff heap_inv_ok [OF h] by blast
qed

section \<open>A fresh heap\<close>

lemma mm_init_inv:
  assumes "heap \<noteq> 0" "heap mod 16 = 0" "mm_min_arena c \<le> heap_size" "heap + heap_size \<le> 2 ^ 64" "heap_size < 2 ^ 58"
    and "cfg_lock c = MM_LOCK_ARENA \<Longrightarrow> g_main_arena \<in> set (g_arenas st)"
  obtains st' where "mm_init c heap heap_size st = (True, st')" "heap_inv c st' user_desc [heap + MM_BLOCK_OFFSET c]"
    "mm_block_size (mem st') (heap + MM_BLOCK_OFFSET c) = (heap_size - MM_BLOCK_OFFSET c) div 16 * 16"
    "\<not> mm_is_used (mem st') (heap + MM_BLOCK_OFFSET c)" "mode (g_arena st') = MM_MODE_MANAGED"
proof (rule mm_init_state [OF assms], assumption)
  define n where "n = (heap_size - MM_BLOCK_OFFSET c) div 16 * 16"
  let ?b = "heap + MM_BLOCK_OFFSET c"
  let ?L = "(\<lambda>_. [])(mm_bin_of c n := [?b])"
  fix st'
  assume i0: "mm_init c heap heap_size st = (True, st')"
    "mm_block_size (mem st') ?b = (heap_size - MM_BLOCK_OFFSET c) div 16 * 16"
    "heap_ok c st' (\<lambda>_. [?b]) ((\<lambda>_. [])(mm_bin_of c ((heap_size - MM_BLOCK_OFFSET c) div 16 * 16) := [?b]))"
    "spans (g_arena st') = [user_desc]" "g_user st' = user_desc" "span_cache (g_arena st') = 0"
    "kind (descs st' user_desc) = MM_SPAN_USER" "lo (descs st' user_desc) = ?b"
    "hi (descs st' user_desc) = ?b + (heap_size - MM_BLOCK_OFFSET c) div 16 * 16"
    "total_bytes (g_arena st') = (heap_size - MM_BLOCK_OFFSET c) div 16 * 16"
    "fresh_spans (g_arena st') = 0" "\<not> growable (g_arena st')" "scrub_span (g_arena st') = user_desc"
    "scrub_at (g_arena st') = ?b" "mode (g_arena st') = MM_MODE_MANAGED"
  note i = i0 [folded n_def]
  have off: "MM_BLOCK_OFFSET c + MM_MIN_BLOCK c \<le> heap_size" using assms(3) by (simp add: mm_min_arena_def)
  have nz: "user_desc \<noteq> 0" by (simp add: user_desc_def)
  have le: "n \<le> heap_size - MM_BLOCK_OFFSET c" by (simp add: n_def)
  have sp: "\<forall>q. ?b \<le> q \<and> q < ?b + n \<longrightarrow> mm_span_of st' q = user_desc"
    using i(5,6,8,9) nz by (auto simp: mm_span_of_def mm_span_lookup_uncached_def Let_def)
  note o = i(3) [unfolded heap_ok_def i(4) list.map concat.simps append_Nil2 list.set, THEN conjunct2]
  have tl: "tiled c st' (?b + n) False ?b [?b]"
    using bspec [OF conjunct1 [OF o], of user_desc] unfolding i(8,9) by (simp only: insertI1 simp_thms)
  have qt: "quarantined_total st' [?b] = lost_bytes (g_arena st')" by (rule conjunct1 [OF conjunct2 [OF o]])
  note o3 = conjunct2 [OF conjunct2 [OF o]]
  have rep: "bin_rep c st' j (?L j)" and len: "length (?L j) = length (free_of_bin c st' j [?b])"
    if "j < MM_BIN_COUNT" for j
    by (rule conjunct1 [OF mp [OF spec [OF o3] that]],
        rule conjunct2 [OF conjunct2 [OF mp [OF spec [OF o3] that]]])
  have lt: "?b < ?b + n" using tl by simp
  have bin: "mm_bin_of c n < MM_BIN_COUNT" using mm_bin_of_less [OF mm_block_size_less, of c "mem st'" ?b] i(2) by simp
  have "length (free_of_bin c st' (mm_bin_of c n) [?b]) = 1" using len [OF bin] by (simp only: fun_upd_same) simp
  then have fr: "\<not> mm_is_used (mem st') ?b" by (cases "mm_is_used (mem st') ?b") (simp_all add: free_of_bin_def)
  have al: "(?b + MM_HDR_SIZE c) mod 16 = 0"
    using assms(2) layout_bounds(12) [of c] by (metis add.assoc mod_add_left_eq add_0)
  have lims: "?b + n \<le> 2 ^ 64" "n < 2 ^ 58" "0 < ?b" "?b < 2 ^ 64" using le lt assms(1,4,5) off by linarith+
  have uh: "user_heap c st' user_desc"
    unfolding user_heap_def i(4,7,8,9,10,11) using i(12) sp nz al lims by (intro conjI) simp_all
  have "ptiled c st' {} (?b + n) (Some False) ?b [?b]"
    by (rule tiled_ptiled [OF tl]) (use fr in \<open>simp add: room_def\<close>)
  then have t: "tiles c st' user_desc {} [?b]" using uh i(8,9) by (simp only: tiles_def)
  have mem: "members ?L = {?b}" using bin by (auto simp: members_def)
  have "bins_rep c st' ?L"
    unfolding bins_rep_def mem blocks_ok_def using rep lims(4) by (intro conjI) (blast, simp, simp)
  then have f: "filed c st' {} [?b] ?L" unfolding filed_def mem using fr by (intro conjI) auto
  have "cur st' user_desc [?b]" unfolding cur_def Let_def i(13,14) by simp
  then have "heap_work c st' user_desc {} [?b] ?L" using t f by (simp only: heap_work_def simp_thms)
  then have "heap_inv c st' user_desc [?b]" unfolding heap_inv_def i(8,9) using qt lt by blast
  then show thesis using that i0(1,2,15) fr by blast
qed

section \<open>Writing to a block one holds\<close>

text \<open>A used block that has become valid again.\<close>

lemma work_close_used:
  assumes h: "heap_work c st u X (xs @ b # ys) L" and cl: "closed c st b" and us: "mm_is_used (mem st) b"
    and nx: "ys \<noteq> [] \<Longrightarrow> mm_prev_in_use (mem st) (hd ys)"
  shows "heap_work c st u (X - {b}) (xs @ b # ys) L"
proof -
  note hd = heap_workD [OF h]
  have "tiles c st u (X - {b}) (xs @ b # ys)"
    by (rule step_close [OF hd(1) cl]) (use us nx in \<open>simp_all add: flag_ok_def\<close>)
  moreover have "{q \<in> set (xs @ b # ys). q \<notin> X - {b} \<and> \<not> mm_is_used (mem st) q} =
      {q \<in> set (xs @ b # ys). q \<notin> X \<and> \<not> mm_is_used (mem st) q}" if "b \<in> X" using us that by auto
  then have "filed c st (X - {b}) (xs @ b # ys) L" using hd(2) by (cases "b \<in> X") (simp_all add: filed_def)
  ultimately show ?thesis using hd(3) by (simp add: heap_work_def)
qed

lemma used_next_flag:
  assumes "heap_work c st u {} (xs @ b # ys) L" "mm_is_used (mem st) b" "ys \<noteq> []"
  shows "mm_prev_in_use (mem st) (hd ys)"
  using heap_workD(1) [OF assms(1)] assms(2,3)
  by (cases ys) (simp_all add: tiles_split free_flag_def flag_ok_def)

text \<open>Whatever changes inside a used block, the heap stays as it was once the block is valid again.\<close>

lemma work_rewrite:
  assumes h: "heap_work c st u {} bs L" and b: "b \<in> set bs" "mm_is_used (mem st) b"
    and m: "mem_only st st'" and w: "within b (b + mm_block_size (mem st) b) (mem st) (mem st')"
    and f: "mm_block_size (mem st') b = mm_block_size (mem st) b" "mm_prev_in_use (mem st') b = mm_prev_in_use (mem st) b"
    and us: "mm_is_used (mem st') b" and cl: "closed c st' b"
  shows "heap_work c st' u {} bs L" "keeps c {b} st bs st' bs"
proof -
  obtain xs ys where bs: "bs = xs @ b # ys" using b(1) by (meson split_list)
  have hb: "heap_work c st u {b} (xs @ b # ys) L" using work_open_used [OF h b(2)] by (simp add: bs)
  note e = work_edit [OF hb insertI1 m w f]
  note sp = work_span [OF hb]
  have nx: "mm_prev_in_use (mem st') (hd ys)" if ne: "ys \<noteq> []"
  proof -
    have "same_on (hd ys) (MM_HDR_SIZE c) (mem st) (mem st')"
      by (rule within_same_on [OF w]) (use sp(10) [OF ne] in simp)
    from header_fields_cong(4) [OF this] show ?thesis using used_next_flag [OF h [unfolded bs] b(2) ne] by simp
  qed
  show "heap_work c st' u {} bs L" using work_close_used [OF e(1) cl us nx] by (simp add: bs)
  show "keeps c {b} st bs st' bs"
    unfolding bs by (rule kept_keeps) (auto intro: kept_mono [OF still_kept [OF e(2)]])
qed

lemma payload_write_closed:
  assumes cl: "closed c st b" and us: "mm_is_used (mem st) b" "\<not> mm_is_quarantined (mem st) b"
    and w: "within (mm_payload_of c b) (mm_payload_of c b + mm_requested_size c (mem st) b) (mem st) (mem st')"
    and sh: "shell st st'"
  shows "closed c st' b" "same_on b (MM_HDR_SIZE c) (mem st) (mem st')"
    "within b (b + mm_block_size (mem st) b) (mem st) (mem st')"
proof -
  have rm: "MM_HDR_SIZE c + mm_requested_size c (mem st) b + MM_TRAIL c \<le> mm_block_size (mem st) b"
    using cl us by (simp add: closed_def room_def)
  show hs: "same_on b (MM_HDR_SIZE c) (mem st) (mem st')"
    by (rule within_same_on [OF w]) (simp add: mm_payload_of_def)
  have "tail_bytes_same c b (mem st) (mem st')"
    using us within_same_on [OF w] by (simp add: tail_bytes_same_def canary_at_def)
  from closed_cong [OF sh hs this] show "closed c st' b" using cl by blast
  show "within b (b + mm_block_size (mem st) b) (mem st) (mem st')"
    by (rule within_mono [OF w]) (use rm in \<open>simp_all add: mm_payload_of_def\<close>)
qed

lemma payload_write_work:
  assumes h: "heap_work c st u {} bs L" and b: "b \<in> set bs" "mm_is_used (mem st) b" "\<not> mm_is_quarantined (mem st) b"
    and len: "off + length vs \<le> mm_requested_size c (mem st) b"
  defines "st' \<equiv> upd_mem (\<lambda>m. mem_write m (mm_payload_of c b + off) vs) st"
  shows "heap_work c st' u {} bs L" "keeps c {b} st bs st' bs" "closed c st' b"
    "same_on b (MM_HDR_SIZE c) (mem st) (mem st')"
proof -
  have m: "mem_only st st'" by (simp add: st'_def)
  have w: "within (mm_payload_of c b) (mm_payload_of c b + mm_requested_size c (mem st) b) (mem st) (mem st')"
    using len by (simp add: st'_def within_write)
  note p = payload_write_closed [OF closed_blocks(1) [OF h b(1)] b(2,3) w mem_onlyD(4) [OF m]]
  note f = header_fields_cong [OF p(2)]
  show "heap_work c st' u {} bs L" "keeps c {b} st bs st' bs"
    using work_rewrite [OF h b(1,2) m p(3) f(2,4) _ p(1)] f(3) b(2) by simp_all
  show "closed c st' b" "same_on b (MM_HDR_SIZE c) (mem st) (mem st')" by (rule p)+
qed

section \<open>Validated access\<close>

lemma checked_block_work:
  assumes h: "heap_work c st u {} bs L" and b: "b \<in> set bs"
  shows "checked_block c (mm_payload_of c b) off len st =
    (if mm_is_quarantined (mem st) b then (0, mm_fail MM_ERR_QUARANTINED st)
     else if \<not> mm_is_used (mem st) b then (0, mm_fail MM_ERR_INVALID_PTR st)
     else if mm_requested_size c (mem st) b < off + len then (0, mm_fail MM_ERR_OOB st)
     else (b, st))"
proof -
  note cl = closed_blocks [OF h b]
  have "b \<noteq> 0" using cl(2) by (simp add: mm_header_ok_def)
  moreover have "mm_canary_ok c st b" using cl(1) by (simp add: closed_def)
  ultimately show ?thesis
    using mm_block_of_work [OF h b] cl(2) unfolding checked_block_def Let_def by (simp add: less_diff_conv2)
qed

lemma canary_cong:
  assumes "shell st st'" "mm_is_used (mem st') b = mm_is_used (mem st) b"
    "mm_is_quarantined (mem st') b = mm_is_quarantined (mem st) b"
    "mm_requested_size c (mem st') b = mm_requested_size c (mem st) b"
    and s: "same_on (canary_at c (mem st) b) 8 (mem st) (mem st')"
  shows "mm_canary_ok c st' b = mm_canary_ok c st b"
proof -
  have "canary_at c (mem st') b = canary_at c (mem st) b" using assms(4) by (simp add: canary_at_def)
  moreover have "mm_block_index st' b = mm_block_index st b"
    using shellD(2,7) [OF assms(1)] by (simp add: mm_block_index_def Let_def)
  moreover have "load64 (mem st') (canary_at c (mem st) b) = load64 (mem st) (canary_at c (mem st) b)"
    using load64_cong [OF s] by simp
  ultimately show ?thesis using assms(2,3) shellD(3) [OF assms(1)] by (simp add: mm_canary_ok_def)
qed

text \<open>Refreshing the payload checksum and sealing.\<close>

lemma refresh_work:
  assumes h: "heap_work c st u {} bs L" and b: "b \<in> set bs" "mm_is_used (mem st) b" "\<not> mm_is_quarantined (mem st) b"
    and crc: "MM_HAS_CRC c"
  defines "v \<equiv> mm_payload_crc (payload_bytes c (mem st) b)"
  defines "st' \<equiv> mm_seal c b (upd_mem (\<lambda>m. set_payload_crc m b (mm_payload_crc (payload_bytes c m b))) st)"
  shows "heap_work c st' u {} bs L" "keeps c {b} st bs st' bs" "mem_only st st'"
    "mm_is_used (mem st') b" "\<not> mm_is_quarantined (mem st') b"
    "mm_requested_size c (mem st') b = mm_requested_size c (mem st) b"
    "payload_bytes c (mem st') b = payload_bytes c (mem st) b" "payload_crc (mem st') b = v"
proof -
  let ?s = "upd_mem (\<lambda>m. set_payload_crc m b (mm_payload_crc (payload_bytes c m b))) st"
  obtain xs ys where bs: "bs = xs @ b # ys" using b(1) by (meson split_list)
  note sp = work_span [OF h [unfolded bs]]
  note cl = closed_blocks(1) [OF h b(1)]
  have uh: "user_heap c st u" by (rule heap_workD(4) [OF h])
  have ms: "mem ?s = set_payload_crc (mem st) b v" by (simp add: v_def)
  note pf = set_payload_crc_fields [OF crc, where m = "mem st" and b = b and v = v, folded ms]
  have hdr: "MM_HDR_SIZE c = 16" using crc by (simp add: MM_HDR_SIZE_def)
  have sh: "shell st ?s" by simp
  have rm: "room c (mem ?s) b" using cl pf by (simp add: closed_def room_def)
  have "same_on (canary_at c (mem st) b) 8 (mem st) (mem ?s)"
    by (rule within_same_on [OF pf(7)]) (simp add: canary_at_def mm_payload_of_def hdr)
  then have can: "mm_canary_ok c ?s b"
    using canary_cong [OF sh pf(2,4,6)] cl by (simp add: closed_def)
  have lo: "lo (descs ?s u) \<le> b" "b < hi (descs ?s u)" using sp(3,5) by simp_all
  have blk: "mm_is_block c ?s b"
    using user_block_iff [OF user_heap_shell [OF uh sh] lo] user_block_iff [OF uh sp(3,5)] sp(7) pf(1) by simp
  note min = is_block_size [OF blk]
  have us: "mm_is_used (mem ?s) b" using pf(2) b(2) by simp
  note sc = seal_closes [OF blk rm can, folded st'_def]
  have cl': "closed c st' b" by (rule sc(1)) (use us in simp)
  have vw: "view c (mem st') b = view c (mem ?s) b" by (rule sc(2)) (use us in simp)
  note sf = mm_seal_fields [OF min, folded st'_def] and sm = mm_seal_mem [OF min, folded st'_def]
  have w: "within b (b + mm_block_size (mem st) b) (mem st) (mem st')"
  proof (rule within_trans)
    show "within b (b + mm_block_size (mem st) b) (mem st) (mem ?s)"
      by (rule within_mono [OF pf(7)]) (use sp(6) layout_bounds(6) [of c] in simp_all)
    show "within b (b + mm_block_size (mem st) b) (mem ?s) (mem st')"
      using sm(4) pf(1) by (simp add: mm_block_end_def)
  qed
  have f: "mm_block_size (mem st') b = mm_block_size (mem st) b" "mm_prev_in_use (mem st') b = mm_prev_in_use (mem st) b"
    using sf(1,3) pf(1,3) by simp_all
  show us': "mm_is_used (mem st') b" using sf(2) us by simp
  show mo: "mem_only st st'" unfolding st'_def by (rule mem_only_trans [OF mem_only_upd mem_only_seal])
  show "heap_work c st' u {} bs L" "keeps c {b} st bs st' bs"
    by (rule work_rewrite [OF h b(1,2) mo w f us' cl'])+
  show q': "\<not> mm_is_quarantined (mem st') b" using sf(4) pf(4) b(3) by simp
  show rq: "mm_requested_size c (mem st') b = mm_requested_size c (mem st) b" using sf(5) pf(6) by simp
  show "payload_crc (mem st') b = v" using sm(2) [OF crc] pf(8) by simp
  have "payload_bytes c (mem st') b = payload_bytes c (mem ?s) b"
    using vw q' view_fields(3,4) [OF vw] by (simp add: view_def payload_bytes_def)
  also have "\<dots> = payload_bytes c (mem st) b"
    unfolding payload_bytes_def [of c "mem ?s" b] pf(6) payload_bytes_def [of c "mem st" b]
    by (rule mem_read_cong [symmetric], rule within_same_on [OF pf(7)]) (simp add: mm_payload_of_def hdr)
  finally show "payload_bytes c (mem st') b = payload_bytes c (mem st) b" .
qed

lemma mem_write_Nil: "mem_write m a [] = m"
  by (rule ext) (auto simp: mem_write_def)

lemma mem_read_patch:
  "off + length vs \<le> n \<Longrightarrow>
     mem_read (mem_write m (a + off) vs) a n = take off (mem_read m a n) @ vs @ drop (off + length vs) (mem_read m a n)"
  by (rule nth_equalityI) (auto simp: mem_read_def mem_write_def nth_append)

lemma write_unlocked_work:
  assumes h: "heap_work c st u {} bs L" and b: "b \<in> set bs" "mm_is_used (mem st) b" "\<not> mm_is_quarantined (mem st) b"
    and len: "off + len \<le> mm_requested_size c (mem st) b"
  obtains st' where "write_unlocked c (mm_payload_of c b) off src len st = (int len, st')"
    "heap_work c st' u {} bs L" "keeps c {b} st bs st' bs" "mem_only st st'"
    "mm_is_used (mem st') b" "\<not> mm_is_quarantined (mem st') b"
    "mm_requested_size c (mem st') b = mm_requested_size c (mem st) b"
    "payload_bytes c (mem st') b = (let old = payload_bytes c (mem st) b
       in take off old @ mem_read (mem st) src len @ drop (off + len) old)"
    "mm_payload_crc_live c st \<Longrightarrow> payload_crc (mem st') b = mm_payload_crc (payload_bytes c (mem st') b)"
proof -
  let ?vs = "mem_read (mem st) src len"
  let ?s1 = "upd_mem (\<lambda>m. mem_write m (mm_payload_of c b + off) ?vs) st"
  have lv: "length ?vs = len" by (simp add: mem_read_def)
  note p = payload_write_work [OF h b, of off ?vs, unfolded lv, OF len]
  note f = header_fields_cong [OF p(4)]
  have bnz: "b \<noteq> 0" using closed_blocks(2) [OF h b(1)] by (simp add: mm_header_ok_def)
  have can: "mm_canary_ok c ?s1 b" using p(3) by (simp add: closed_def)
  have s1: "(if 0 < len then upd_mem (\<lambda>m. mem_write m (mm_payload_of c b + off) (mem_read m src len)) st else st) = ?s1"
    by (cases "len = 0") (simp_all add: upd_mem_def mem_write_Nil mem_read_def)
  have cb: "checked_block c (mm_payload_of c b) off len st = (b, st)"
    using checked_block_work [OF h b(1), of off len] b len by simp
  have pb: "payload_bytes c (mem ?s1) b = (let old = payload_bytes c (mem st) b in take off old @ ?vs @ drop (off + len) old)"
    using mem_read_patch [of off ?vs "mm_requested_size c (mem st) b"] len f(6) by (simp add: payload_bytes_def lv Let_def)
  have us1: "mm_is_used (mem ?s1) b" "\<not> mm_is_quarantined (mem ?s1) b" using f(3,5) b by simp_all
  have lv1: "mm_payload_crc_live c ?s1 = mm_payload_crc_live c st" by (simp add: mm_payload_crc_live_def)
  show thesis
  proof (cases "MM_HAS_CRC c \<and> mm_payload_crc_live c st")
    case False
    then have "\<not> mm_payload_crc_live c st" by (simp add: mm_payload_crc_live_def)
    moreover have "write_unlocked c (mm_payload_of c b) off src len st = (int len, ?s1)"
      unfolding write_unlocked_def cb prod.case Let_def s1 using bnz can False lv1 by auto
    ultimately show thesis by (intro that [OF _ p(1,2) mem_only_upd us1 f(6) pb]) simp_all
  next
    case True
    let ?s2 = "mm_seal c b (upd_mem (\<lambda>m. set_payload_crc m b (mm_payload_crc (payload_bytes c m b))) ?s1)"
    note r = refresh_work [OF p(1) b(1) us1 conjunct1 [OF True]]
    have "write_unlocked c (mm_payload_of c b) off src len st = (int len, ?s2)"
      unfolding write_unlocked_def cb prod.case Let_def s1 using bnz can True lv1 by auto
    from that [OF this r(1) keeps_trans [OF p(2) r(2)] mem_only_trans [OF mem_only_upd r(3)] r(4,5)]
    show thesis using r(6-8) f(6) pb by simp
  qed
qed

end
