(* ===== verification/Mars_Service.thy ===== *)
theory Mars_Service
  imports Mars_Client
begin

unbundle bit_operations_syntax

text \<open>
  The allocator as a service: a program as a step relation over the heap and the payload pointers it
  holds, and the properties of \<^verbatim>\<open>mm_malloc\<close>, \<^verbatim>\<open>mm_free\<close>, \<^verbatim>\<open>mm_read\<close>, \<^verbatim>\<open>mm_write\<close> and the patrol on a
  consistent heap over a caller's buffer, up to: no sequence of such steps from \<^verbatim>\<open>mm_init\<close> makes
  \<^verbatim>\<open>mm_check_heap\<close> complain.
\<close>

section \<open>Facts about the invariant\<close>

lemma live_disjoint:
  assumes inv: "heap_inv c st u bs" and a: "a \<in> set bs" "mm_is_used (mem st) a" "\<not> mm_is_quarantined (mem st) a"
  shows "MM_HDR_SIZE c + mm_requested_size c (mem st) a + MM_TRAIL c \<le> mm_block_size (mem st) a"
    "lo (descs st u) \<le> a" "a + mm_block_size (mem st) a \<le> hi (descs st u)" "mm_payload_of c a mod 16 = 0"
    "b \<in> set bs \<Longrightarrow> a \<noteq> b \<Longrightarrow> a + mm_block_size (mem st) a \<le> b \<or> b + mm_block_size (mem st) b \<le> a"
proof -
  obtain L where h: "heap_work c st u {} bs L" using inv by (auto simp: heap_inv_def)
  have pt: "ptiled c st {} (hi (descs st u)) (Some False) (lo (descs st u)) bs"
    using heap_workD(1) [OF h] by (simp add: tiles_def)
  show "MM_HDR_SIZE c + mm_requested_size c (mem st) a + MM_TRAIL c \<le> mm_block_size (mem st) a"
    using closed_blocks(1) [OF h a(1)] a(2,3) by (simp add: closed_def room_def)
  show "lo (descs st u) \<le> a" "a + mm_block_size (mem st) a \<le> hi (descs st u)"
    using ptiled_bounds [OF pt a(1)] by simp_all
  show "mm_payload_of c a mod 16 = 0" by (rule payload_aligned [OF h a(1)])
  show "b \<in> set bs \<Longrightarrow> a \<noteq> b \<Longrightarrow> a + mm_block_size (mem st) a \<le> b \<or> b + mm_block_size (mem st) b \<le> a"
    by (rule ptiled_disjoint [OF pt a(1)])
qed

lemma no_used_one_block:
  assumes inv: "heap_inv c st u bs" and free: "\<forall>b \<in> set bs. \<not> mm_is_used (mem st) b"
  shows "bs = [lo (descs st u)]"
proof -
  obtain L where h: "heap_work c st u {} bs L" and lt: "lo (descs st u) < hi (descs st u)"
    using inv by (auto simp: heap_inv_def)
  have pt: "ptiled c st {} (hi (descs st u)) (Some False) (lo (descs st u)) bs"
    using heap_workD(1) [OF h] by (simp add: tiles_def)
  then show ?thesis using lt free
    by (cases bs; cases "tl bs") (auto simp: free_flag_def flag_ok_def)
qed

text \<open>A list's links stay inside the list.\<close>

lemma dll_links:
  "dll nx pv p h xs \<Longrightarrow> x \<in> set xs \<Longrightarrow> nx x \<in> insert 0 (set xs) \<and> pv x \<in> insert p (set xs)"
proof (induction xs arbitrary: p h)
  case (Cons a xs)
  then show ?case by (cases xs) auto
qed simp

lemma free_links:
  assumes inv: "heap_inv c st u bs" and b: "b \<in> set bs" "\<not> mm_is_used (mem st) b"
  defines "k \<equiv> mm_bin_of c (mm_block_size (mem st) b)"
  defines "peers \<equiv> {q \<in> set bs. \<not> mm_is_used (mem st) q \<and> mm_bin_of c (mm_block_size (mem st) q) = k}"
  shows "link_next c st b \<in> insert 0 peers" "link_prev c st b \<in> insert 0 peers"
    "bins (g_arena st) k \<in> peers" "k < MM_BIN_COUNT"
proof -
  obtain L where h: "heap_work c st u {} bs L" using inv by (auto simp: heap_inv_def)
  have rep: "bins_rep c st L" and mem: "members L = {q \<in> set bs. \<not> mm_is_used (mem st) q}"
    using heap_workD(2) [OF h] by (simp_all add: filed_def)
  obtain j where j: "j < MM_BIN_COUNT" "b \<in> set (L j)" using b mem by (auto simp: members_def)
  have r: "bin_rep c st j (L j)" using rep j(1) by (simp add: bins_rep_def)
  then have node: "mm_bin_of c (mm_block_size (mem st) q) = j" if "q \<in> set (L j)" for q
    using that node_ok_size by (metis bin_rep_def)
  then have kj: "k = j" using j(2) by (simp add: k_def)
  have sub: "set (L j) \<subseteq> peers"
    using members_memb [of _ L j] j(1) mem node kj by (auto simp: peers_def)
  have d: "dll (link_next c st) (link_prev c st) 0 (bins (g_arena st) j) (L j)" using r by (simp add: bin_rep_def)
  show "link_next c st b \<in> insert 0 peers" "link_prev c st b \<in> insert 0 peers"
    using dll_links [OF d j(2)] sub by auto
  show "bins (g_arena st) k \<in> peers"
    using d j(2) sub unfolding kj by (cases "L j") auto
  show "k < MM_BIN_COUNT" using kj j(1) by simp
qed

section \<open>A program and its blocks\<close>

text \<open>One step of a program that holds the payload pointers \<open>H\<close>: it allocates, frees what it holds,
  writes to what it holds, directly or through \<^verbatim>\<open>mm_write\<close>, or asks for a patrol.\<close>

inductive client :: "mm_config \<Rightarrow> mm_state \<times> nat set \<Rightarrow> mm_state \<times> nat set \<Rightarrow> bool" for c where
  client_malloc: "malloc_unlocked c sz st = (p, d, st') \<Longrightarrow>
    client c (st, H) (st', if p = 0 then H else insert p H)"
| client_free: "p \<in> H \<Longrightarrow> client c (st, H) (free_unlocked c p st, H - {p})"
| client_store: "p \<in> H \<Longrightarrow> off + length vs \<le> mm_requested_size c (mem st) (p - MM_HDR_SIZE c) \<Longrightarrow>
    client c (st, H) (upd_mem (\<lambda>m. mem_write m (p + off) vs) st, H)"
| client_write: "p \<in> H \<Longrightarrow> off + len \<le> mm_requested_size c (mem st) (p - MM_HDR_SIZE c) \<Longrightarrow>
    write_unlocked c p off src len st = (n, st') \<Longrightarrow> client c (st, H) (st', H)"
| client_scrub: "scrub_run c budget st = (e, st') \<Longrightarrow> client c (st, H) (st', H)"

definition holds :: "mm_config \<Rightarrow> mm_state \<Rightarrow> nat list \<Rightarrow> nat set \<Rightarrow> bool" where
  "holds c st bs H \<longleftrightarrow> H = mm_payload_of c ` {b \<in> set bs. mm_is_used (mem st) b} \<and>
     (\<forall>b \<in> set bs. mm_is_used (mem st) b \<longrightarrow> \<not> mm_is_quarantined (mem st) b)"

lemma payload_back [simp]: "mm_payload_of c b - MM_HDR_SIZE c = b"
  by (simp add: mm_payload_of_def)

lemma inj_payload: "inj (mm_payload_of c)"
  by (simp add: inj_def mm_payload_of_def)

lemma set_but_one: "(\<And>q. q \<noteq> b \<Longrightarrow> q \<in> V \<longleftrightarrow> q \<in> U) \<Longrightarrow> V = (if b \<in> V then insert b U else U - {b})"
  by (rule set_eqI, case_tac "x = b") auto

lemma holds_keeps:
  assumes "holds c st bs H" and k: "keeps c {b} st bs st' bs'"
    and new: "b \<in> set bs' \<Longrightarrow> mm_is_used (mem st') b \<Longrightarrow> \<not> mm_is_quarantined (mem st') b"
  shows "holds c st' bs' (if b \<in> set bs' \<and> mm_is_used (mem st') b then insert (mm_payload_of c b) H
    else H - {mm_payload_of c b})"
proof -
  let ?U = "{q \<in> set bs. mm_is_used (mem st) q}" and ?V = "{q \<in> set bs'. mm_is_used (mem st') q}"
  have iff: "q \<in> ?V \<longleftrightarrow> q \<in> ?U" if "q \<noteq> b" for q using k that by (auto simp: keeps_def)
  have H: "H = mm_payload_of c ` ?U" using assms(1) by (simp add: holds_def)
  have "?V = (if b \<in> ?V then insert b ?U else ?U - {b})" by (rule set_but_one [OF iff])
  then have "mm_payload_of c ` ?V = (if b \<in> ?V then insert (mm_payload_of c b) H else H - {mm_payload_of c b})"
    unfolding H using image_set_diff [OF inj_payload, of c ?U "{b}"] by (auto split: if_splits)
  moreover have "\<not> mm_is_quarantined (mem st') q" if "q \<in> ?V" for q
  proof (cases "q = b")
    case False
    then have q: "q \<in> set bs" "mm_is_used (mem st) q" using iff that by auto
    then have v: "view c (mem st') q = view c (mem st) q" using k False by (auto simp: keeps_def)
    show ?thesis using view_fields(3) [OF v] assms(1) q by (auto simp: holds_def)
  qed (use new that in auto)
  ultimately show ?thesis by (auto simp: holds_def)
qed

lemma client_step:
  assumes "client c x y" "heap_inv c (fst x) u bs" "holds c (fst x) bs (snd x)"
  shows "\<exists>bs'. heap_inv c (fst y) u bs' \<and> holds c (fst y) bs' (snd y)"
  using assms
proof (cases rule: client.cases)
  case (client_malloc sz st p d st' H)
  obtain bs' where m: "heap_inv c st' u bs'" "if p = 0 then mem st' = mem st \<and> bs' = bs
      else p = mm_payload_of c (p - MM_HDR_SIZE c) \<and> p - MM_HDR_SIZE c \<in> set bs' \<and>
        mm_is_used (mem st') (p - MM_HDR_SIZE c) \<and> \<not> mm_is_quarantined (mem st') (p - MM_HDR_SIZE c) \<and>
        keeps c {p - MM_HDR_SIZE c} st bs st' bs'"
    using malloc_unlocked_work [of c st u bs sz p d st'] assms(2) client_malloc by (auto simp: Let_def split: if_splits)
  have ho: "holds c st bs H" using assms(3) client_malloc by simp
  show ?thesis
  proof (cases "p = 0")
    case True
    then show ?thesis using m ho client_malloc by (auto simp: holds_def)
  next
    case False
    then have k: "keeps c {p - MM_HDR_SIZE c} st bs st' bs'" and n: "\<not> mm_is_quarantined (mem st') (p - MM_HDR_SIZE c)"
      and b: "p - MM_HDR_SIZE c \<in> set bs'" "mm_is_used (mem st') (p - MM_HDR_SIZE c)"
      and p: "mm_payload_of c (p - MM_HDR_SIZE c) = p" using m(2) by simp_all
    show ?thesis using holds_keeps [OF ho k n] m(1) False b client_malloc unfolding p by auto
  qed
next
  case (client_free p H st)
  then obtain b where b: "p = mm_payload_of c b" "b \<in> set bs" "mm_is_used (mem st) b" "\<not> mm_is_quarantined (mem st) b"
    and ho: "holds c st bs H" using assms(3) by (auto simp: holds_def)
  obtain bs' where f: "heap_inv c (free_unlocked c p st) u bs'" "keeps c {b} st bs (free_unlocked c p st) bs'"
      "\<not> (b \<in> set bs' \<and> mm_is_used (mem (free_unlocked c p st)) b)"
    using free_unlocked_work [of c st u bs b] assms(2) client_free b by auto
  have "holds c (free_unlocked c p st) bs' (H - {p})" using holds_keeps [OF ho f(2)] f(3) b(1) by auto
  then show ?thesis using f(1) client_free by auto
next
  case (client_store p H off vs st)
  then obtain b where b: "p = mm_payload_of c b" "b \<in> set bs" "mm_is_used (mem st) b" "\<not> mm_is_quarantined (mem st) b"
    and ho: "holds c st bs H" using assms(3) by (auto simp: holds_def)
  obtain L where L: "heap_work c st u {} bs L" and inv: "heap_inv c st u bs"
    using assms(2) client_store by (auto simp: heap_inv_def)
  let ?s = "upd_mem (\<lambda>m. mem_write m (p + off) vs) st"
  have len: "off + length vs \<le> mm_requested_size c (mem st) b" using client_store b(1) by simp
  note w = payload_write_work [OF L b(2-4) len, folded b(1)]
  note f = header_fields_cong [OF w(4)]
  have q: "\<not> mm_is_quarantined (mem ?s) b" "mm_is_used (mem ?s) b" using f(3,5) b(3,4) by simp_all
  have hi: "heap_inv c ?s u bs" by (rule heap_inv_step [OF inv w(1) shell_upd(1) w(2)]) (use b(4) q in simp_all)
  have "insert p H = H" using client_store by auto
  then have "holds c ?s bs H" using holds_keeps [OF ho w(2)] q b(1,2) by simp
  then show ?thesis using hi client_store by auto
next
  case (client_write p H off len st src n st')
  then obtain b where b: "p = mm_payload_of c b" "b \<in> set bs" "mm_is_used (mem st) b" "\<not> mm_is_quarantined (mem st) b"
    and ho: "holds c st bs H" using assms(3) by (auto simp: holds_def)
  obtain L where L: "heap_work c st u {} bs L" and inv: "heap_inv c st u bs"
    using assms(2) client_write by (auto simp: heap_inv_def)
  have len: "off + len \<le> mm_requested_size c (mem st) b" using client_write b(1) by simp
  obtain s where s: "write_unlocked c p off src len st = (int len, s)" "heap_work c s u {} bs L" "keeps c {b} st bs s bs"
      "mem_only st s" "mm_is_used (mem s) b" "\<not> mm_is_quarantined (mem s) b"
    by (rule write_unlocked_work [OF L b(2-4) len]) (use b(1) in blast)
  have st': "st' = s" using s(1) client_write by simp
  have hi: "heap_inv c s u bs" by (rule heap_inv_step [OF inv s(2) mem_onlyD(4) [OF s(4)] s(3)]) (use b(4) s(6) in simp_all)
  have "insert p H = H" using client_write by auto
  then have "holds c s bs H" using holds_keeps [OF ho s(3)] s(5,6) b(1,2) by simp
  then show ?thesis using hi st' client_write by auto
next
  case (client_scrub budget st e st' H)
  obtain L where L: "heap_work c st u {} bs L" "lo (descs st u) < hi (descs st u)" and inv: "heap_inv c st u bs"
    using assms(2) client_scrub by (auto simp: heap_inv_def)
  obtain s where s: "heap_work c st' u {} bs L" "mem st' = mem st" "shell st st'"
    by (rule scrub_run_work [OF L, of budget]) (use client_scrub in auto)
  have "heap_inv c st' u bs" by (rule heap_inv_same [OF inv s(1,3,2)])
  moreover have "holds c st' bs H" using assms(3) client_scrub s(2) by (simp add: holds_def)
  ultimately show ?thesis using client_scrub by auto
qed

lemma client_run:
  assumes "(client c)\<^sup>*\<^sup>* x y" "heap_inv c (fst x) u bs" "holds c (fst x) bs (snd x)"
  shows "\<exists>bs'. heap_inv c (fst y) u bs' \<and> holds c (fst y) bs' (snd y)"
  using assms(1)
proof (induction rule: rtranclp_induct)
  case base
  then show ?case using assms(2,3) by blast
next
  case (step y z)
  then show ?case using client_step by blast
qed

section \<open>A sample heap\<close>

lemma sample_inv:
  "heap_inv c (sample_heap c) user_desc [65536 + MM_BLOCK_OFFSET c]"
  "\<not> mm_is_used (mem (sample_heap c)) (65536 + MM_BLOCK_OFFSET c)"
  "mm_init c 65536 4096 (boot_state []) = (True, sample_heap c)"
  "mode (g_arena (sample_heap c)) = MM_MODE_MANAGED"
proof -
  have min: "mm_min_arena c \<le> 4096" using layout_bounds(5,10) [of c] by (simp add: mm_min_arena_def)
  obtain st' where st': "mm_init c 65536 4096 (boot_state []) = (True, st')"
      "heap_inv c st' user_desc [65536 + MM_BLOCK_OFFSET c]" "\<not> mm_is_used (mem st') (65536 + MM_BLOCK_OFFSET c)"
      "mode (g_arena st') = MM_MODE_MANAGED"
    by (rule mm_init_inv [of 65536 c 4096 "boot_state []"]) (use min in \<open>auto simp: boot_state_def\<close>)
  then show "heap_inv c (sample_heap c) user_desc [65536 + MM_BLOCK_OFFSET c]"
    "\<not> mm_is_used (mem (sample_heap c)) (65536 + MM_BLOCK_OFFSET c)"
    "mm_init c 65536 4096 (boot_state []) = (True, sample_heap c)"
    "mode (g_arena (sample_heap c)) = MM_MODE_MANAGED"
    by (simp_all add: sample_heap_def)
qed

text \<open>A heap with one live block: 100 bytes allocated in the sample heap.\<close>

definition sample_alloc :: "mm_config \<Rightarrow> nat \<times> nat \<times> mm_state" where
  "sample_alloc c = malloc_unlocked c 100 (sample_heap c)"

definition sample_ptr :: "mm_config \<Rightarrow> nat" where "sample_ptr c = fst (sample_alloc c)"
definition sample_live :: "mm_config \<Rightarrow> mm_state" where "sample_live c = snd (snd (sample_alloc c))"

lemma sample_bins:
  "mm_bin_of c (mm_size_for c 100) < mm_bin_of c (mm_block_size (mem (sample_heap c)) (65536 + MM_BLOCK_OFFSET c))"
  "mm_size_for c 100 \<noteq> 0"
proof -
  let ?n = "mm_block_size (mem (sample_heap c)) (65536 + MM_BLOCK_OFFSET c)"
  have n: "208 \<le> ?n" unfolding sample_heap_ok(2) by (cases c rule: layout_cases) simp_all
  have "(100::nat) \<le> SIZE_MAX - MM_HDR_SIZE c - MM_TRAIL c - 16"
    by (cases c rule: layout_cases) (simp_all add: SIZE_MAX_def)
  from mm_size_for_eq [OF this] have s: "mm_size_for c 100 \<le> 144" "mm_size_for c 100 \<noteq> 0"
    by (cases c rule: layout_cases; simp)+
  show "mm_size_for c 100 \<noteq> 0" by (rule s(2))
  have "mm_bin_of c (mm_size_for c 100) \<le> mm_bin_of c 144" by (rule mm_bin_of_mono [OF s(1)]) simp
  also have "\<dots> < mm_bin_of c 208"
    by (cases c rule: layout_cases) (simp_all add: mm_bin_of_def MM_LARGE_MIN_def MM_SMALL_BINS_def MM_ALIGNMENT_def)
  also have "mm_bin_of c 208 \<le> mm_bin_of c ?n"
    by (rule mm_bin_of_mono [OF n]) (use mm_block_size_less in \<open>blast intro: less_trans\<close>)
  finally show "mm_bin_of c (mm_size_for c 100) < mm_bin_of c ?n" .
qed

lemma sample_live_facts:
  obtains bs b where "heap_inv c (sample_live c) user_desc bs" "b \<in> set bs" "mm_is_used (mem (sample_live c)) b"
    "\<not> mm_is_quarantined (mem (sample_live c)) b" "sample_ptr c = mm_payload_of c b" "sample_ptr c \<noteq> 0"
    "100 \<le> mm_requested_size c (mem (sample_live c)) b" "mode (g_arena (sample_live c)) = MM_MODE_MANAGED"
proof -
  obtain p d st' where run: "malloc_unlocked c 100 (sample_heap c) = (p, d, st')" by (metis prod_cases3)
  then have e: "sample_ptr c = p" "sample_live c = st'" by (simp_all add: sample_ptr_def sample_live_def sample_alloc_def)
  obtain bs' where m: "heap_inv c st' user_desc bs'" "shell (sample_heap c) st'" "if p = 0 then
      (\<forall>q \<in> set [65536 + MM_BLOCK_OFFSET c]. \<not> mm_is_used (mem (sample_heap c)) q \<longrightarrow>
         mm_bin_of c (mm_block_size (mem (sample_heap c)) q) \<le> mm_bin_of c (mm_size_for c 100))
     else p = mm_payload_of c (p - MM_HDR_SIZE c) \<and> p - MM_HDR_SIZE c \<in> set bs' \<and>
       mm_is_used (mem st') (p - MM_HDR_SIZE c) \<and> \<not> mm_is_quarantined (mem st') (p - MM_HDR_SIZE c) \<and>
       100 \<le> mm_requested_size c (mem st') (p - MM_HDR_SIZE c)"
    using malloc_unlocked_work [OF sample_inv(1) run] sample_bins(2) [of c]
    by (auto simp: Let_def split: if_splits)
  have "p \<noteq> 0"
  proof
    assume "p = 0"
    then have "mm_bin_of c (mm_block_size (mem (sample_heap c)) (65536 + MM_BLOCK_OFFSET c)) \<le> mm_bin_of c (mm_size_for c 100)"
      using m(3) sample_inv(2) [of c] by simp
    then show False using sample_bins(1) [of c] by simp
  qed
  then show thesis using that [of bs' "p - MM_HDR_SIZE c"] m e shellD(4) [OF m(2)] sample_inv(4) [of c] by simp
qed

section \<open>Refusals\<close>

lemma mm_block_of_null: "mm_arena_live st \<Longrightarrow> mm_block_of c 0 st = (0, mm_fail MM_ERR_INVALID_PTR st)"
  by (simp add: mm_block_of_def)

lemma mm_block_of_misaligned:
  assumes uh: "user_heap c st u" and p: "lo (descs st u) \<le> p" "p < hi (descs st u)" "p mod 16 \<noteq> 0"
  shows "mm_block_of c p st = (0, mm_fail MM_ERR_INVALID_PTR st)"
proof -
  have live: "mm_arena_live st" and s: "mm_span_of st p = u" "u \<noteq> 0" and nz: "p \<noteq> 0"
    and al: "(lo (descs st u) + MM_HDR_SIZE c) mod 16 = 0"
    using uh p by (auto simp: user_heap_def mm_arena_live_def)
  have "(p - (lo (descs st u) + MM_HDR_SIZE c)) mod 16 \<noteq> 0" if "lo (descs st u) + MM_HDR_SIZE c \<le> p"
  proof
    assume "(p - (lo (descs st u) + MM_HDR_SIZE c)) mod 16 = 0"
    then have "16 dvd (p - (lo (descs st u) + MM_HDR_SIZE c)) + (lo (descs st u) + MM_HDR_SIZE c)"
      using dvd_add al unfolding mod_eq_0_iff_dvd by blast
    then show False using that p(3) by (simp add: mod_eq_0_iff_dvd)
  qed
  then show ?thesis using live s nz by (auto simp: mm_block_of_def Let_def MM_ALIGNMENT_def)
qed

lemma free_refuses:
  assumes inv: "heap_inv c st u bs"
  shows "free_unlocked c 0 st = mm_fail MM_ERR_INVALID_PTR (mm_clear_error st)"
    and "lo (descs st u) \<le> p \<Longrightarrow> p < hi (descs st u) \<Longrightarrow> p mod 16 \<noteq> 0 \<Longrightarrow>
      free_unlocked c p st = mm_fail MM_ERR_INVALID_PTR (mm_clear_error st)"
    and "b \<in> set bs \<Longrightarrow> \<not> mm_is_used (mem st) b \<Longrightarrow> \<not> mm_is_quarantined (mem st) b \<Longrightarrow>
      free_unlocked c (mm_payload_of c b) st = mm_fail MM_ERR_DOUBLE_FREE (mm_clear_error st)"
    and "b \<in> set bs \<Longrightarrow> mm_is_quarantined (mem st) b \<Longrightarrow>
      free_unlocked c (mm_payload_of c b) st = mm_fail MM_ERR_QUARANTINED (mm_clear_error st)"
proof -
  define s where "s = mm_clear_error st"
  have q: "quiet st s" by (simp add: s_def)
  have ms: "mem s = mem st" "descs s = descs st" using quietD(1) [OF q] shellD(2) [OF quietD(2) [OF q]] by simp_all
  obtain L where h: "heap_work c s u {} bs L" using heap_inv_quiet [OF inv q] by (auto simp: heap_inv_def)
  have uh: "user_heap c s u" by (rule heap_workD(4) [OF h])
  then have live: "mm_arena_live s" by (simp add: user_heap_def mm_arena_live_def)
  show "free_unlocked c 0 st = mm_fail MM_ERR_INVALID_PTR (mm_clear_error st)"
    unfolding free_unlocked_def live_block_def s_def [symmetric] mm_block_of_null [OF live] by simp
  show "free_unlocked c p st = mm_fail MM_ERR_INVALID_PTR (mm_clear_error st)"
    if "lo (descs st u) \<le> p" "p < hi (descs st u)" "p mod 16 \<noteq> 0"
    unfolding free_unlocked_def live_block_def s_def [symmetric]
    using mm_block_of_misaligned [OF uh, of p] that ms by simp
  show "free_unlocked c (mm_payload_of c b) st = mm_fail MM_ERR_DOUBLE_FREE (mm_clear_error st)"
    if b: "b \<in> set bs" "\<not> mm_is_used (mem st) b" "\<not> mm_is_quarantined (mem st) b"
  proof -
    have "live_block c (mm_payload_of c b) s = (b, s)" by (rule live_block_work [OF h b(1)]) (use b ms in simp)
    moreover have "b \<noteq> 0" using closed_blocks(2) [OF h b(1)] by (simp add: mm_header_ok_def)
    ultimately show ?thesis unfolding free_unlocked_def s_def [symmetric] using b(2) ms by simp
  qed
  show "free_unlocked c (mm_payload_of c b) st = mm_fail MM_ERR_QUARANTINED (mm_clear_error st)"
    if b: "b \<in> set bs" "mm_is_quarantined (mem st) b"
  proof -
    have "b \<noteq> 0" using closed_blocks(2) [OF h b(1)] by (simp add: mm_header_ok_def)
    then have "live_block c (mm_payload_of c b) s = (0, mm_fail MM_ERR_QUARANTINED s)"
      unfolding live_block_def mm_block_of_work [OF h b(1)] using closed_blocks(2) [OF h b(1)] b(2) ms by simp
    then show ?thesis unfolding free_unlocked_def s_def [symmetric] by simp
  qed
qed

section \<open>Properties\<close>

text \<open>C2 (functional). \<^verbatim>\<open>mm_malloc\<close> on a consistent heap, in every branch. The heap it leaves is
  consistent. A null result has changed no byte of the heap, and the size was zero, too large, or no
  free block of a larger class was left. A pointer is 16-byte aligned and belongs to a block that was
  free and is now in use, with the requested size recorded, or, in libc mode, all its room, header,
  payload and trail inside the block. Every block in use
  before is in use after, with its size, its checksum and its bytes unchanged, and no other block is
  in use.\<close>

theorem malloc_serves:
  assumes "heap_inv c st u bs" and "malloc_unlocked c sz st = (p, d, st')"
  shows "\<exists>bs'. heap_inv c st' u bs' \<and>
    (if p = 0 then mem st' = mem st \<and> bs' = bs \<and>
       (sz = 0 \<or> mm_size_for c sz = 0 \<or>
        (\<forall>q \<in> set bs. \<not> mm_is_used (mem st) q \<longrightarrow>
           mm_bin_of c (mm_block_size (mem st) q) \<le> mm_bin_of c (mm_size_for c sz)))
     else let b = p - MM_HDR_SIZE c in
       p = mm_payload_of c b \<and> p mod 16 = 0 \<and> b \<in> set bs \<and> \<not> mm_is_used (mem st) b \<and>
       b \<in> set bs' \<and> mm_is_used (mem st') b \<and> \<not> mm_is_quarantined (mem st') b \<and>
       mm_requested_size c (mem st') b = given c st (mm_block_size (mem st') b) sz \<and>
       sz \<le> mm_requested_size c (mem st') b \<and>
       MM_HDR_SIZE c + mm_requested_size c (mem st') b + MM_TRAIL c \<le> mm_block_size (mem st') b \<and>
       keeps c {b} st bs st' bs')"
  using malloc_unlocked_work [OF assms] by blast

theorem malloc_serves_witness:
  "\<exists>p d st' bs'. malloc_unlocked (build Paranoid) 100 (sample_heap (build Paranoid)) = (p, d, st') \<and> p \<noteq> 0 \<and>
     p mod 16 = 0 \<and> heap_inv (build Paranoid) st' user_desc bs'"
proof -
  let ?c = "build Paranoid"
  obtain p d st' where run: "malloc_unlocked ?c 100 (sample_heap ?c) = (p, d, st')" by (metis prod_cases3)
  have "sample_ptr ?c = p" by (simp add: sample_ptr_def sample_alloc_def run)
  then have nz: "p \<noteq> 0" using sample_live_facts [of ?c] by metis
  show ?thesis using malloc_serves [OF sample_inv(1) run] run nz by (auto simp: Let_def)
qed

text \<open>C3 (functional). \<^verbatim>\<open>mm_free\<close> of a live block on a consistent heap: the heap stays consistent, so
  the freed bytes are merged with the free blocks on both sides and filed under their class, the
  block is no longer in use, and every other block in use keeps its size, checksum and bytes.\<close>

theorem free_returns:
  assumes "heap_inv c st u bs" and "b \<in> set bs" "mm_is_used (mem st) b" "\<not> mm_is_quarantined (mem st) b"
  defines "st' \<equiv> free_unlocked c (mm_payload_of c b) st"
  shows "\<exists>bs'. heap_inv c st' u bs' \<and> keeps c {b} st bs st' bs' \<and> \<not> (b \<in> set bs' \<and> mm_is_used (mem st') b)"
  unfolding st'_def using free_unlocked_work [OF assms(1-4)] by blast

theorem free_returns_witness:
  "\<exists>bs. heap_inv (build Hardened)
     (free_unlocked (build Hardened) (sample_ptr (build Hardened)) (sample_live (build Hardened))) user_desc bs"
proof -
  let ?c = "build Hardened"
  obtain bs b where f: "heap_inv ?c (sample_live ?c) user_desc bs" "b \<in> set bs" "mm_is_used (mem (sample_live ?c)) b"
      "\<not> mm_is_quarantined (mem (sample_live ?c)) b" "sample_ptr ?c = mm_payload_of ?c b"
    by (rule sample_live_facts)
  show ?thesis using free_returns [OF f(1-4)] unfolding f(5) by blast
qed



section \<open>Validated access: properties\<close>

lemma read_unlocked_work:
  assumes h: "heap_work c st u {} bs L" and b: "b \<in> set bs" "mm_is_used (mem st) b" "\<not> mm_is_quarantined (mem st) b"
    and len: "off + len \<le> mm_requested_size c (mem st) b"
    and crc: "MM_HAS_CRC c \<Longrightarrow> payload_crc (mem st) b = mm_payload_crc (payload_bytes c (mem st) b)"
  shows "\<exists>st'. read_unlocked c (mm_payload_of c b) off buf len st = (int len, st') \<and>
    mem_read (mem st') buf len = take len (drop off (payload_bytes c (mem st) b))"
proof -
  have cb: "checked_block c (mm_payload_of c b) off len st = (b, st)"
    using checked_block_work [OF h b(1), of off len] b len by simp
  have bnz: "b \<noteq> 0" using closed_blocks(2) [OF h b(1)] by (simp add: mm_header_ok_def)
  let ?vs = "mem_read (mem st) (mm_payload_of c b + off) len"
  let ?st' = "if len > 0 then upd_mem (\<lambda>m. mem_write m buf (mem_read m (mm_payload_of c b + off) len)) st else st"
  have "read_unlocked c (mm_payload_of c b) off buf len st = (int len, ?st')"
    unfolding read_unlocked_def cb prod.case using bnz crc by simp
  moreover have "take len (drop off (payload_bytes c (mem st) b)) = ?vs"
    using len by (intro nth_equalityI) (simp_all add: payload_bytes_def mem_read_def add.assoc)
  moreover have "mem_read (mem ?st') buf len = ?vs"
  proof (cases "len = 0")
    case False
    have "length ?vs = len" by (simp add: mem_read_def)
    from mem_read_write_same [OF this] show ?thesis using False by simp
  qed (simp add: mem_read_def)
  ultimately show ?thesis by metis
qed

text \<open>C4 (roundtrip). What a program writes with \<^verbatim>\<open>mm_write\<close> it reads back with \<^verbatim>\<open>mm_read\<close>: inside the
  requested size of a live block both move exactly the bytes asked for, the bytes that arrive in the
  second buffer are those of the first, the heap stays consistent in between and the other
  blocks in use are untouched. Where the profile keeps payload checksums this is for managed mode,
  in which the write refreshes the checksum the read verifies.\<close>

theorem write_read_roundtrip:
  assumes "heap_inv c st u bs" and "b \<in> set bs" "mm_is_used (mem st) b" "\<not> mm_is_quarantined (mem st) b"
    and "off + len \<le> mm_requested_size c (mem st) b"
    and "MM_HAS_CRC c \<longrightarrow> mode (g_arena st) = MM_MODE_MANAGED"
    and "write_unlocked c (mm_payload_of c b) off src len st = (n, st1)"
    and "read_unlocked c (mm_payload_of c b) off buf len st1 = (k, st2)"
  shows "n = int len \<and> k = int len \<and> mem_read (mem st2) buf len = mem_read (mem st) src len \<and>
    heap_inv c st1 u bs \<and> keeps c {b} st bs st1 bs"
proof -
  obtain L where h: "heap_work c st u {} bs L" using assms(1) by (auto simp: heap_inv_def)
  obtain s where w: "write_unlocked c (mm_payload_of c b) off src len st = (int len, s)"
      "heap_work c s u {} bs L" "keeps c {b} st bs s bs" "mem_only st s" "mm_is_used (mem s) b"
      "\<not> mm_is_quarantined (mem s) b" "mm_requested_size c (mem s) b = mm_requested_size c (mem st) b"
      "payload_bytes c (mem s) b = (let old = payload_bytes c (mem st) b
         in take off old @ mem_read (mem st) src len @ drop (off + len) old)"
      "mm_payload_crc_live c st \<Longrightarrow> payload_crc (mem s) b = mm_payload_crc (payload_bytes c (mem s) b)"
    by (rule write_unlocked_work [OF h assms(2-5)]) blast
  have s: "st1 = s" "n = int len" using w(1) assms(7) by simp_all
  have inv: "heap_inv c s u bs"
    by (rule heap_inv_step [OF assms(1) w(2) mem_onlyD(4) [OF w(4)] w(3)]) (use assms(4) w(6) in simp_all)
  have crc: "MM_HAS_CRC c \<Longrightarrow> payload_crc (mem s) b = mm_payload_crc (payload_bytes c (mem s) b)"
    using w(9) assms(6) by (simp add: mm_payload_crc_live_def)
  have len: "off + len \<le> mm_requested_size c (mem s) b" using assms(5) w(7) by simp
  have "length (payload_bytes c (mem st) b) = mm_requested_size c (mem st) b" "length (mem_read (mem st) src len) = len"
    by (simp_all add: payload_bytes_def mem_read_def)
  then have "take len (drop off (payload_bytes c (mem s) b)) = mem_read (mem st) src len"
    using assms(5) by (simp add: w(8) Let_def)
  then show ?thesis
    using read_unlocked_work [OF w(2) assms(2) w(5,6) len crc, of buf] assms(8) s inv w(3) by auto
qed

theorem write_read_roundtrip_witness:
  "\<exists>n st1 k st2. write_unlocked (build Hardened) (sample_ptr (build Hardened)) 10 4096 8 (sample_live (build Hardened)) = (n, st1) \<and>
     read_unlocked (build Hardened) (sample_ptr (build Hardened)) 10 8192 8 st1 = (k, st2) \<and> n = 8 \<and> k = 8 \<and>
     mem_read (mem st2) 8192 8 = mem_read (mem (sample_live (build Hardened))) 4096 8"
proof -
  let ?c = "build Hardened"
  obtain bs b where f: "heap_inv ?c (sample_live ?c) user_desc bs" "b \<in> set bs" "mm_is_used (mem (sample_live ?c)) b"
      "\<not> mm_is_quarantined (mem (sample_live ?c)) b" "sample_ptr ?c = mm_payload_of ?c b"
      "100 \<le> mm_requested_size ?c (mem (sample_live ?c)) b" "mode (g_arena (sample_live ?c)) = MM_MODE_MANAGED"
    by (rule sample_live_facts)
  obtain n st1 where w: "write_unlocked ?c (mm_payload_of ?c b) 10 4096 8 (sample_live ?c) = (n, st1)" by force
  obtain k st2 where r: "read_unlocked ?c (mm_payload_of ?c b) 10 8192 8 st1 = (k, st2)" by force
  have l: "10 + 8 \<le> mm_requested_size ?c (mem (sample_live ?c)) b" using f(6) by simp
  show ?thesis using write_read_roundtrip [OF f(1-4) l impI [OF f(7)] w r] w r unfolding f(5) by simp
qed

text \<open>C15 (error). Validated access refuses what it should on a consistent heap, reading and writing
  alike: outside the requested size, in a free block, in a quarantined one. It answers -1 with
  the error of the case, and no byte of memory changes.\<close>

theorem access_rejects:
  assumes "heap_inv c st u bs" and "b \<in> set bs"
  shows "let e = (if mm_is_quarantined (mem st) b then MM_ERR_QUARANTINED
      else if \<not> mm_is_used (mem st) b then MM_ERR_INVALID_PTR
      else if mm_requested_size c (mem st) b < off + len then MM_ERR_OOB else MM_OK)
    in e \<noteq> MM_OK \<longrightarrow>
      read_unlocked c (mm_payload_of c b) off buf len st = (-1, mm_fail e st) \<and>
      write_unlocked c (mm_payload_of c b) off buf len st = (-1, mm_fail e st)"
proof -
  obtain L where h: "heap_work c st u {} bs L" using assms(1) by (auto simp: heap_inv_def)
  show ?thesis
    using checked_block_work [OF h assms(2), of off len] by (auto simp: read_unlocked_def write_unlocked_def)
qed

theorem access_rejects_witness:
  "\<exists>b. fst (read_unlocked (build Hardened) (mm_payload_of (build Hardened) b) 0 4096 8 (sample_heap (build Hardened))) = -1 \<and>
     fst (write_unlocked (build Hardened) (mm_payload_of (build Hardened) b) 0 4096 8 (sample_heap (build Hardened))) = -1"
  using access_rejects [OF sample_inv(1) list.set_intros(1), of "build Hardened" 0 8 4096] sample_inv(2) [of "build Hardened"]
  by (intro exI [of _ "65536 + MM_BLOCK_OFFSET (build Hardened)"]) (simp add: Let_def split: if_splits)

section \<open>The heap a program sees\<close>



text \<open>C11 (liveness). Memory comes back: when no block of a consistent heap is in use, whatever was
  allocated and freed before in whatever order, the whole buffer is one free block again, and an
  allocation whose size class lies below that of the buffer succeeds.\<close>

theorem freed_heap_is_whole:
  assumes "heap_inv c st u bs" and "\<forall>b \<in> set bs. \<not> mm_is_used (mem st) b"
  shows "bs = [lo (descs st u)] \<and> mm_block_size (mem st) (lo (descs st u)) = hi (descs st u) - lo (descs st u) \<and>
    (sz \<noteq> 0 \<and> mm_size_for c sz \<noteq> 0 \<and>
       mm_bin_of c (mm_size_for c sz) < mm_bin_of c (hi (descs st u) - lo (descs st u)) \<longrightarrow>
     fst (malloc_unlocked c sz st) \<noteq> 0)"
proof -
  note bs = no_used_one_block [OF assms]
  obtain L where h: "heap_work c st u {} bs L" using assms(1) by (auto simp: heap_inv_def)
  have size: "mm_block_size (mem st) (lo (descs st u)) = hi (descs st u) - lo (descs st u)"
    using work_span(3,9) [of c st u "{}" "[]" "lo (descs st u)" "[]" L] h by (simp add: bs)
  obtain p d st' where r: "malloc_unlocked c sz st = (p, d, st')" by (metis prod_cases3)
  have "p \<noteq> 0" if "sz \<noteq> 0" "mm_size_for c sz \<noteq> 0"
    "mm_bin_of c (mm_size_for c sz) < mm_bin_of c (hi (descs st u) - lo (descs st u))"
    using malloc_unlocked_work [OF assms(1) r] that assms(2) size bs by (auto split: if_splits)
  then show ?thesis using bs size r by simp
qed

theorem freed_heap_is_whole_witness: "fst (malloc_unlocked (build Fast) 100 (sample_heap (build Fast))) \<noteq> 0"
proof -
  let ?c = "build Fast" and ?b = "65536 + MM_BLOCK_OFFSET (build Fast)"
  have free: "\<forall>b \<in> set [?b]. \<not> mm_is_used (mem (sample_heap ?c)) b" using sample_inv(2) [of ?c] by simp
  note w = freed_heap_is_whole [OF sample_inv(1) free, of 100]
  then show ?thesis using sample_bins [of ?c] by simp
qed



text \<open>C13 (safety). The patrol is harmless: on a consistent heap \<^verbatim>\<open>mm_scrub\<close>, with any budget and from
  wherever the last one stopped, ends with no byte of memory changed and the heap
  consistent; it never mistakes a valid block for a corrupt one and repairs it.\<close>

theorem patrol_harmless:
  assumes "heap_inv c st u bs" and "scrub_run c budget st = (e, st')"
  shows "heap_inv c st' u bs \<and> mem st' = mem st"
proof -
  obtain L where h: "heap_work c st u {} bs L" "lo (descs st u) < hi (descs st u)"
    using assms(1) by (auto simp: heap_inv_def)
  obtain e' s where s: "scrub_run c budget st = (e', s)" "heap_work c s u {} bs L" "mem s = mem st" "shell st s"
    by (rule scrub_run_work [OF h])
  then show ?thesis using heap_inv_same [OF assms(1) s(2,4,3)] assms(2) by simp
qed

theorem patrol_harmless_witness:
  "mem (snd (scrub_run (build Paranoid) 16 (sample_live (build Paranoid)))) = mem (sample_live (build Paranoid))"
proof -
  obtain bs where f: "heap_inv (build Paranoid) (sample_live (build Paranoid)) user_desc bs"
    by (rule sample_live_facts)
  show ?thesis using patrol_harmless [OF f surjective_pairing] by blast
qed

text \<open>C1 (invariant). No program that keeps to its own blocks can break the heap: after \<^verbatim>\<open>mm_init\<close> on any
  acceptable buffer, whatever sequence of allocations, releases of what it holds, stores and
  \<^verbatim>\<open>mm_write\<close>s inside what it holds, and patrols it performs, \<^verbatim>\<open>mm_check_heap\<close> reports success, and the
  pointers it holds are exactly the payloads of the blocks in use.\<close>

theorem client_keeps_heap:
  assumes "heap \<noteq> 0" "heap mod 16 = 0" "mm_min_arena c \<le> heap_size" "heap + heap_size \<le> 2 ^ 64" "heap_size < 2 ^ 58"
    and "cfg_lock c = MM_LOCK_ARENA \<longrightarrow> g_main_arena \<in> set (g_arenas s)"
    and "(client c)\<^sup>*\<^sup>* (snd (mm_init c heap heap_size s), {}) (st, H)"
  shows "fst (check_heap_unlocked c st) = MM_OK \<and>
    (\<exists>bs. heap_inv c st user_desc bs \<and> H = mm_payload_of c ` {b \<in> set bs. mm_is_used (mem st) b})"
proof -
  obtain st0 where i: "mm_init c heap heap_size s = (True, st0)" "heap_inv c st0 user_desc [heap + MM_BLOCK_OFFSET c]"
      "\<not> mm_is_used (mem st0) (heap + MM_BLOCK_OFFSET c)"
    by (rule mm_init_inv [OF assms(1-5), of s]) (use assms(6) in auto)
  have "holds c st0 [heap + MM_BLOCK_OFFSET c] {}" using i(3) by (simp add: holds_def)
  then obtain bs where "heap_inv c st user_desc bs" "holds c st bs H"
    using client_run [OF assms(7), of user_desc "[heap + MM_BLOCK_OFFSET c]"] i by auto
  then show ?thesis using heap_inv_check by (auto simp: holds_def)
qed

theorem client_keeps_heap_witness:
  "fst (check_heap_unlocked (build Hardened)
     (free_unlocked (build Hardened) (sample_ptr (build Hardened)) (sample_live (build Hardened)))) = MM_OK"
proof -
  let ?c = "build Hardened"
  have nz: "sample_ptr ?c \<noteq> 0" using sample_live_facts [of ?c] by metis
  have "sample_alloc ?c = (sample_ptr ?c, fst (snd (sample_alloc ?c)), sample_live ?c)"
    by (simp add: sample_ptr_def sample_live_def)
  then have "malloc_unlocked ?c 100 (sample_heap ?c) = (sample_ptr ?c, fst (snd (sample_alloc ?c)), sample_live ?c)"
    by (simp add: sample_alloc_def)
  from client.client_malloc [OF this, of "{}"] nz
  have "client ?c (sample_heap ?c, {}) (sample_live ?c, {sample_ptr ?c})" by simp
  moreover have "client ?c (sample_live ?c, {sample_ptr ?c})
      (free_unlocked ?c (sample_ptr ?c) (sample_live ?c), {sample_ptr ?c} - {sample_ptr ?c})"
    by (rule client.client_free) simp
  ultimately have run: "(client ?c)\<^sup>*\<^sup>* (snd (mm_init ?c 65536 4096 (boot_state [])), {})
      (free_unlocked ?c (sample_ptr ?c) (sample_live ?c), {sample_ptr ?c} - {sample_ptr ?c})"
    unfolding sample_inv(3) by (simp add: converse_rtranclp_into_rtranclp)
  have min: "mm_min_arena ?c \<le> 4096" using layout_bounds(5,10) [of ?c] by (simp add: mm_min_arena_def)
  show ?thesis by (rule client_keeps_heap [OF _ _ min _ _ _ run, THEN conjunct1]) (simp_all add: boot_state_def)
qed

end
