(* ===== verification/Spec2Isabelle.thy ===== *)
theory Spec2Isabelle
  imports Mars_Api Mars_Init Mars_Shim Mars_Service
begin

text \<open>
  \<^bold>\<open>Mars, a memory allocator that checks what it hands out.\<close> The library (\<^verbatim>\<open>src/\<close>, public header
  \<^verbatim>\<open>include/mars/allocator.h\<close>) carves blocks out of spans: the caller's own buffer (\<^verbatim>\<open>mm_init\<close>) or
  chunks mapped from the system. Every block starts with a control word and, under the two
  checksummed profiles, a header checksum and a payload checksum; used blocks end in a canary and,
  under \<open>paranoid\<close>, a mirror of the header. Free blocks are filed in 128 size-classed doubly linked
  lists whose links live inside the blocks. A block that stops validating is rescued from its mirror
  or taken out of use; a patrol re-validates a few blocks per operation. With per-thread arenas a
  free of another thread's block goes through that arena's bounded queue.

  \<^bold>\<open>Theories and what they model.\<close>
  \<^item> \<open>Mars_Prelude\<close>: machine words, little-endian byte memory, the relation \<open>within\<close> that confines a
    write to an interval.
  \<^item> \<open>Mars_Crc32\<close>: \<^verbatim>\<open>src/mm_crc32.c\<close>. The SSE4.2 instructions are a parameter (\<open>sse42\<close>) with their
    documented effect as hypothesis; the reference semantics shows that it can hold.
  \<^item> \<open>Mars_Layout\<close>: \<^verbatim>\<open>src/mm_layout.h\<close> and the request sizes of \<^verbatim>\<open>src/mm_core.c\<close>. The compile-time
    options are the record \<open>mm_config\<close>; \<open>build p\<close> is a profile with the default options.
  \<^item> \<open>Mars_State\<close>: statuses, counters (\<^verbatim>\<open>src/mm_stats.c\<close>), spans, arenas, the machine state, and the
    system calls of \<^verbatim>\<open>src/mm_arena.c\<close> as answers held in the state.
  \<^item> \<open>Mars_Registry\<close>: the unit index, span descriptors, registration and lookup of \<^verbatim>\<open>src/mm_arena.c\<close>.
  \<^item> \<open>Mars_Validate\<close>: bounds, header checks, canaries and sealing of \<^verbatim>\<open>src/mm_integrity.c\<close>.
  \<^item> \<open>Mars_Freelist\<close>: \<^verbatim>\<open>src/mm_freelist.h\<close> and \<^verbatim>\<open>src/mm_freelist.c\<close>.
  \<^item> \<open>Mars_Recovery\<close>: publishing, resynchronisation, rescue, quarantine and the patrol of
    \<^verbatim>\<open>src/mm_integrity.c\<close>; \<open>Mars_Check\<close>: its verification, consistency check and mode switch.
  \<^item> \<open>Mars_Remote\<close>: the remote-free queue of \<^verbatim>\<open>src/mm_lock.c\<close>, both run to completion and as the
    interleaved steps of producers and owner (\<open>rq_step\<close>).
  \<^item> \<open>Mars_Arena\<close>: building, growing, releasing and resetting spans (\<^verbatim>\<open>src/mm_arena.c\<close>).
  \<^item> \<open>Mars_Core\<close>: \<^verbatim>\<open>src/mm_core.c\<close>, splitting, coalescing, malloc, memalign, free, realloc, init.
  \<^item> \<open>Mars_Api\<close>: \<^verbatim>\<open>src/mm_access.c\<close>, the thread arenas of \<^verbatim>\<open>src/mm_lock.c\<close>, the entry points.
  \<^item> \<open>Mars_Bins\<close>, \<open>Mars_Heap\<close>, \<open>Mars_Init\<close>: the theory of the free lists, of consistent heaps and of
    initialisation, over the models above.

  \<^bold>\<open>State.\<close> A pointer is a natural number, \<^verbatim>\<open>NULL\<close> is 0, block memory is one function from address to
  byte (\<open>mem\<close>). Descriptors and arenas, which the program keeps where no block overlaps them, are
  maps from address to record. \<open>mm_self\<close> is the calling thread's arena and \<open>g_arena\<close> its record. An
  operation takes the state last and returns it, paired with its result; every error return is a
  branch that records its status in \<open>g_last_error\<close>, as \<^verbatim>\<open>mm_fail\<close> does.

  \<^bold>\<open>What the lemmas show.\<close> \<open>Mars_Crc32\<close>: the table is the bit-serial polynomial division and the
  hardware path agrees. \<open>Mars_Layout\<close>: request sizes never overflow silently and are recovered
  exactly. \<open>Mars_Registry\<close>: the open-addressed index is a finite map (locale \<open>unit_table\<close>).
  \<open>Mars_Validate\<close>: what sealing establishes and which damage a header check or canary detects.
  \<open>Mars_Freelist\<close>, \<open>Mars_Bins\<close>: size classes are monotone, the bitmap scan finds the least non-empty
  bin, and insertion, removal and search are operations on lists (\<open>bins_rep\<close>, locale \<open>block_store\<close>).
  \<open>Mars_Remote\<close>: the ring is a bounded queue (locale \<open>bounded_fifo\<close>), safe and free of stuck entries
  in every interleaving, across the wrap-around of its 32-bit positions. \<open>Mars_Heap\<close>: the walk of
  \<^verbatim>\<open>mm_check_heap\<close> accepts exactly the consistent heaps (\<open>heap_ok\<close>). \<open>Mars_Init\<close>: \<^verbatim>\<open>mm_init\<close> produces
  one.

  \<^bold>\<open>Bounds and fuel.\<close> Loops the source bounds by a budget recurse on that budget (bin scans 16, walks
  one more than the number of smallest blocks that fit, recovery scan 65536 steps); \<open>tiled_budget\<close>
  shows that the walk's budget never cuts a consistent span short. The index loops recurse on the
  capacity, the bit scans on the 64 bits. The drain of the queue is given one lap of the ring and
  the pop that finds it empty. No definition can run out of fuel where the source would go on.

  \<^bold>\<open>Not modelled.\<close> Mutexes and thread keys (an operation holds its lock throughout and is one
  transition); the Windows and non-growing stubs selected by other platforms; the contents of
  static memory outside the state record; printing. The fault injector and the benchmarks drive the
  library and measure it, and the tests exercise it.
\<close>

end
